(* ===== verification/Xv6_Prelude.thy ===== *)
theory Xv6_Prelude
  imports Main "HOL-Library.Word"
begin

text \<open>
  The prelude of the xv6 development: the machine integers of \<^verbatim>\<open>types.h\<close>, the outcomes a
  kernel function can have, the byte-addressed memory with its little-endian 32-bit
  accesses, and the generic lemmas on lists and on outcomes that the components share.
\<close>

unbundle bit_operations_syntax

section \<open>Collections\<close>

named_theorems mmu_simps \<open>address arithmetic of mmu.h\<close>
named_theorems mem_simps \<open>reads over writes in byte memory\<close>
named_theorems lock_simps \<open>spin-lock operations on well-formed processors\<close>

section \<open>Machine integers\<close>

type_synonym uchar = "8 word"
type_synonym ushort = "16 word"
type_synonym u32 = "32 word"

section \<open>Outcomes\<close>

text \<open>
  A kernel function that returns yields \<^term>\<open>Inr\<close> of its result. It can also stop: by
  calling \<open>panic\<close> (with the message), by spinning forever, or by an access that C leaves
  undefined (a null pointer, an index outside an array).
\<close>

datatype stop = KPanic string | Hang | Fault

type_synonym 'a outcome = "stop + 'a"

abbreviation ok :: "'a \<Rightarrow> 'a outcome" where
  "ok x \<equiv> Inr x"

abbreviation panic :: "string \<Rightarrow> 'a outcome" where
  "panic msg \<equiv> Inl (KPanic msg)"

text \<open>Sequencing: the rest of the function runs only when the first part returned.\<close>

fun bnd :: "'a outcome \<Rightarrow> ('a \<Rightarrow> 'b outcome) \<Rightarrow> 'b outcome" where
  "bnd (Inl e) f = Inl e"
| "bnd (Inr x) f = f x"

lemma bnd_eq_Inr: "bnd m f = Inr y \<longleftrightarrow> (\<exists>x. m = Inr x \<and> f x = Inr y)"
  by (cases m) auto

lemma bnd_eq_Inl: "bnd m f = Inl e \<longleftrightarrow> m = Inl e \<or> (\<exists>x. m = Inr x \<and> f x = Inl e)"
  by (cases m) auto

lemma bnd_assoc: "bnd (bnd m f) g = bnd m (\<lambda>x. bnd (f x) g)"
  by (cases m) auto

lemma bnd_ok [simp]: "bnd m ok = m"
  by (cases m) auto

lemma bnd_cong [fundef_cong]:
  "m = m' \<Longrightarrow> (\<And>x. m' = Inr x \<Longrightarrow> f x = f' x) \<Longrightarrow> bnd m f = bnd m' f'"
  by (cases m) auto

lemmas bnd_splits = bnd_eq_Inr bnd_eq_Inl

fun is_ok :: "'a outcome \<Rightarrow> bool" where
  "is_ok (Inl e) = False"
| "is_ok (Inr x) = True"

lemma is_ok_iff: "is_ok m \<longleftrightarrow> (\<exists>x. m = Inr x)"
  by (cases m) auto

text \<open>
  Two judgements on outcomes: \<open>post m P\<close>, every result of \<open>m\<close> satisfies \<open>P\<close>, and
  \<open>gives m P\<close>, the function returns and its result satisfies \<open>P\<close>. Both follow the
  sequencing of the function; the collection \<open>post_rules\<close> holds the specifications of
  functions in the form \<open>(\<And>x. R x \<Longrightarrow> P x) \<Longrightarrow> post (f \<dots>) P\<close>.
\<close>

named_theorems post_rules \<open>specifications of functions, for post\<close>

definition post :: "'a outcome \<Rightarrow> ('a \<Rightarrow> bool) \<Rightarrow> bool" where
  "post m P \<longleftrightarrow> (\<forall>x. m = Inr x \<longrightarrow> P x)"

definition gives :: "'a outcome \<Rightarrow> ('a \<Rightarrow> bool) \<Rightarrow> bool" where
  "gives m P \<longleftrightarrow> (\<exists>x. m = Inr x \<and> P x)"

lemma post_simps [simp]:
  "post (Inl e) P" "post (Inr x) P \<longleftrightarrow> P x" "post (bnd m f) P \<longleftrightarrow> post m (\<lambda>x. post (f x) P)"
  by (auto simp: post_def bnd_eq_Inr)

lemma gives_simps [simp]:
  "\<not> gives (Inl e) P" "gives (Inr x) P \<longleftrightarrow> P x" "gives (bnd m f) P \<longleftrightarrow> gives m (\<lambda>x. gives (f x) P)"
  by (auto simp: gives_def bnd_eq_Inr)

lemma postD: "post m P \<Longrightarrow> m = Inr x \<Longrightarrow> P x"
  by (simp add: post_def)

lemma postI: "(\<And>x. m = Inr x \<Longrightarrow> P x) \<Longrightarrow> post m P"
  by (simp add: post_def)

lemma post_mono: "post m P \<Longrightarrow> (\<And>x. P x \<Longrightarrow> Q x) \<Longrightarrow> post m Q"
  by (simp add: post_def)

lemma post_conj: "post m P \<Longrightarrow> post m Q \<Longrightarrow> post m (\<lambda>x. P x \<and> Q x)"
  by (simp add: post_def)

lemma gives_mono: "gives m P \<Longrightarrow> (\<And>x. P x \<Longrightarrow> Q x) \<Longrightarrow> gives m Q"
  by (auto simp: gives_def)

lemma givesE: "gives m P \<Longrightarrow> (\<And>x. m = Inr x \<Longrightarrow> P x \<Longrightarrow> R) \<Longrightarrow> R"
  by (auto simp: gives_def)

lemma gives_post: "gives m P \<Longrightarrow> post m Q \<Longrightarrow> gives m (\<lambda>x. P x \<and> Q x)"
  by (auto simp: gives_def post_def)

lemma post_if [simp]: "post (if b then m else n) P \<longleftrightarrow> (b \<longrightarrow> post m P) \<and> (\<not> b \<longrightarrow> post n P)"
  by simp

lemma post_option [simp]:
  "post (case z of None \<Rightarrow> m | Some y \<Rightarrow> f y) P \<longleftrightarrow> (z = None \<longrightarrow> post m P) \<and> (\<forall>y. z = Some y \<longrightarrow> post (f y) P)"
  by (cases z) auto

lemma post_prod [simp]: "post (case z of (a, b) \<Rightarrow> f a b) P \<longleftrightarrow> (\<forall>a b. z = (a, b) \<longrightarrow> post (f a b) P)"
  by (cases z) auto

section \<open>Table scans\<close>

text \<open>A loop over the slots of a table that stops at the first match.\<close>

lemma find_upt: "find P [0..<n] = Some i \<Longrightarrow> i < n \<and> P i"
  by (auto simp: find_Some_iff)

section \<open>Byte memory\<close>

text \<open>
  Memory maps a 32-bit address to a byte. A 32-bit access reads or writes four consecutive
  bytes, least significant first, as the x86 does.
\<close>

type_synonym memory = "u32 \<Rightarrow> uchar"

definition load32 :: "memory \<Rightarrow> u32 \<Rightarrow> u32" where
  "load32 m a = ucast (m a) OR push_bit 8 (ucast (m (a + 1)))
     OR push_bit 16 (ucast (m (a + 2))) OR push_bit 24 (ucast (m (a + 3)))"

definition store32 :: "memory \<Rightarrow> u32 \<Rightarrow> u32 \<Rightarrow> memory" where
  "store32 m a v = m(a := ucast v, a + 1 := ucast (drop_bit 8 v),
     a + 2 := ucast (drop_bit 16 v), a + 3 := ucast (drop_bit 24 v))"

lemma bytes_of_word:
  "(ucast (ucast v :: uchar) :: u32) OR push_bit 8 (ucast (ucast (drop_bit 8 v) :: uchar))
     OR push_bit 16 (ucast (ucast (drop_bit 16 v) :: uchar))
     OR push_bit 24 (ucast (ucast (drop_bit 24 v) :: uchar)) = v"
proof (rule bit_word_eqI)
  fix n assume "n < LENGTH(32)"
  then consider "n < 8" | "8 \<le> n" "n < 16" | "16 \<le> n" "n < 24" | "24 \<le> n" "n < 32"
    by fastforce
  then show "bit ((ucast (ucast v :: uchar) :: u32) OR push_bit 8 (ucast (ucast (drop_bit 8 v) :: uchar))
     OR push_bit 16 (ucast (ucast (drop_bit 16 v) :: uchar))
     OR push_bit 24 (ucast (ucast (drop_bit 24 v) :: uchar))) n = bit v n"
    by cases (auto simp: bit_simps)
qed

lemma load32_store32_same [simp, mem_simps]: "load32 (store32 m a v) a = v"
  by (simp add: load32_def store32_def bytes_of_word)

lemma store32_other:
  "x \<notin> {a, a + 1, a + 2, a + 3} \<Longrightarrow> store32 m a v x = m x"
  by (simp add: store32_def)

lemma load32_cong:
  "(\<And>i. i \<in> {0, 1, 2, 3} \<Longrightarrow> m (a + i) = m' (a + i)) \<Longrightarrow> load32 m a = load32 m' a"
  using add_0_right [of a] by (fastforce simp: load32_def)

section \<open>Byte ranges\<close>

text \<open>\<open>in_bytes a n x\<close>: the address \<open>x\<close> is one of the \<open>n\<close> bytes from \<open>a\<close> on, with wrap-around.\<close>

definition in_bytes :: "u32 \<Rightarrow> nat \<Rightarrow> u32 \<Rightarrow> bool" where
  "in_bytes a n x \<longleftrightarrow> unat (x - a) < n"

lemma u32_bound: "unat (x :: u32) < 4294967296"
  using unsigned_less [of x] by simp

lemma unat_add_one: "unat d < 4294967295 \<Longrightarrow> unat (d + 1) = Suc (unat d)" for d :: u32
  by (simp add: unat_word_ariths)

lemma unat_diff_wrap:
  fixes a b :: u32
  assumes "unat a < unat b"
  shows "unat (a - b) = 4294967296 - (unat b - unat a)"
proof -
  have "unat ((a - b) + b) = (unat (a - b) + unat b) mod 4294967296"
    by (simp only: unat_word_ariths) simp
  then have "unat a = (unat (a - b) + unat b) mod 4294967296" by simp
  then show ?thesis
    using assms u32_bound [of "a - b"] u32_bound [of b] by (simp add: mod_if split: if_splits)
qed

lemma in_bytes_0 [simp]: "\<not> in_bytes a 0 x"
  by (simp add: in_bytes_def)

lemma unat_diff_next: "x \<noteq> a \<Longrightarrow> unat (x - (a + 1)) = unat (x - a) - 1" for x a :: u32
proof -
  assume "x \<noteq> a"
  then have "unat ((x - a) - 1) = unat (x - a) - 1"
    by (intro unat_minus_one) simp
  then show ?thesis by (simp add: algebra_simps)
qed

lemma in_bytes_Suc: "x \<noteq> a \<Longrightarrow> in_bytes a (Suc n) x \<longleftrightarrow> in_bytes (a + 1) n x"
proof -
  assume ne: "x \<noteq> a"
  then have "unat (x - a) \<noteq> 0" by (simp add: unat_eq_zero)
  then show ?thesis using ne by (auto simp: in_bytes_def unat_diff_next)
qed

lemma in_bytes_self [simp]: "in_bytes a (Suc n) a"
  by (simp add: in_bytes_def)

lemma not_in_bytes_SucD: "\<not> in_bytes a (Suc n) x \<Longrightarrow> x \<noteq> a \<and> \<not> in_bytes (a + 1) n x"
  using in_bytes_Suc by (metis in_bytes_self)

lemma not_in_bytes_next: "n < 4294967296 \<Longrightarrow> \<not> in_bytes (a + 1) n a"
proof -
  assume "n < 4294967296"
  moreover have "unat (a - (a + 1)) = 4294967295"
    by (simp add: unsigned_minus_1_eq_mask mask_eq_exp_minus_1)
  ultimately show ?thesis by (simp add: in_bytes_def)
qed

lemma in_bytes_add: "i < n \<Longrightarrow> i < 4294967296 \<Longrightarrow> in_bytes a n (a + of_nat i)"
  by (simp add: in_bytes_def unsigned_of_nat take_bit_nat_eq_self)

lemma unat_of_nat_u32: "n < 4294967296 \<Longrightarrow> unat (of_nat n :: u32) = n"
  by (simp add: unsigned_of_nat take_bit_nat_eq_self)

lemma in_bytes_Suc_last:
  assumes "n < 4294967296"
  shows "in_bytes a (Suc n) x \<longleftrightarrow> in_bytes a n x \<or> x = a + of_nat n"
proof -
  have "unat (x - a) = n \<longleftrightarrow> x - a = of_nat n"
    using assms by (auto simp: unat_of_nat_u32)
  then show ?thesis by (auto simp: in_bytes_def less_Suc_eq algebra_simps)
qed

lemma in_bytesE:
  assumes "in_bytes a n x"
  obtains i where "i < n" "x = a + of_nat i"
proof
  show "unat (x - a) < n" using assms by (simp add: in_bytes_def)
  show "x = a + of_nat (unat (x - a))" by simp
qed

end
