(* ===== verification/Spinlock.thy ===== *)
theory Spinlock
  imports Xv6_Prelude
begin

text \<open>
  Spin locks (\<^verbatim>\<open>spinlock.c\<close>), the per-CPU state they use (\<^verbatim>\<open>proc.h\<close>) and \<^verbatim>\<open>mycpu\<close> of
  \<^verbatim>\<open>proc.c\<close>. A lock operation runs on one processor: the table \<open>cpus\<close> is shared, the
  local APIC id and the interrupt flag are that processor's own hardware. The second half
  interleaves the operations of many processors and shows mutual exclusion. The call
  stack that \<open>acquire\<close> records in \<open>pcs\<close> for debugging is not part of the lock here;
  \<open>getcallerpcs\<close> itself is.
\<close>

section \<open>Per-CPU state\<close>

record cpu =
  apicid :: uchar
  started :: bool
  ncli :: int
  intena :: bool
  cproc :: "nat option"
  ts_esp0 :: u32
  ts_ss0 :: ushort
  ts_iomb :: ushort

record hwcpu =
  lapicid :: uchar
  fl_if :: bool

record smp =
  cpus :: "cpu list"
  hw :: hwcpu

record spinlock =
  locked :: u32
  lk_name :: string
  lk_cpu :: "nat option"

definition cli :: "smp \<Rightarrow> smp" where
  "cli s = s\<lparr>hw := (hw s)\<lparr>fl_if := False\<rparr>\<rparr>"

definition sti :: "smp \<Rightarrow> smp" where
  "sti s = s\<lparr>hw := (hw s)\<lparr>fl_if := True\<rparr>\<rparr>"

text \<open>The search loop of \<open>mycpu\<close>: the first entry with this APIC id.\<close>

fun cpu_index :: "uchar \<Rightarrow> cpu list \<Rightarrow> nat option" where
  "cpu_index a [] = None"
| "cpu_index a (c # cs) = (if apicid c = a then Some 0 else map_option Suc (cpu_index a cs))"

definition mycpu :: "smp \<Rightarrow> nat outcome" where
  "mycpu s =
     (if fl_if (hw s) then panic ''mycpu called with interrupts enabled''
      else case cpu_index (lapicid (hw s)) (cpus s) of
        Some i \<Rightarrow> ok i
      | None \<Rightarrow> panic ''unknown apicid'')"

section \<open>Interrupt nesting\<close>

definition upd_cpu :: "nat \<Rightarrow> (cpu \<Rightarrow> cpu) \<Rightarrow> smp \<Rightarrow> smp" where
  "upd_cpu i f s = s\<lparr>cpus := (cpus s)[i := f (cpus s ! i)]\<rparr>"

definition pushcli :: "smp \<Rightarrow> smp outcome" where
  "pushcli s =
     (let eflags = fl_if (hw s); s = cli s in
      bnd (mycpu s) (\<lambda>i.
        let s = (if ncli (cpus s ! i) = 0 then upd_cpu i (\<lambda>c. c\<lparr>intena := eflags\<rparr>) s else s)
        in ok (upd_cpu i (\<lambda>c. c\<lparr>ncli := ncli c + 1\<rparr>) s)))"

definition popcli :: "smp \<Rightarrow> smp outcome" where
  "popcli s =
     (if fl_if (hw s) then panic ''popcli - interruptible''
      else bnd (mycpu s) (\<lambda>i.
        let s = upd_cpu i (\<lambda>c. c\<lparr>ncli := ncli c - 1\<rparr>) s in
        if ncli (cpus s ! i) < 0 then panic ''popcli''
        else if ncli (cpus s ! i) = 0 \<and> intena (cpus s ! i) then ok (sti s)
        else ok s))"

section \<open>Lock operations\<close>

definition initlock :: "string \<Rightarrow> spinlock" where
  "initlock name = \<lparr>locked = 0, lk_name = name, lk_cpu = None\<rparr>"

definition holding :: "smp \<Rightarrow> spinlock \<Rightarrow> bool outcome" where
  "holding s lk =
     (if locked lk = 0 then ok False
      else bnd (mycpu s) (\<lambda>i. ok (lk_cpu lk = Some i)))"

text \<open>
  \<open>acquire\<close> up to its loop, one atomic exchange of the loop, and the bookkeeping after it.
  An exchange that reads a non-zero word leaves the lock word 1 and tries again.
\<close>

definition acquire_enter :: "smp \<Rightarrow> spinlock \<Rightarrow> smp outcome" where
  "acquire_enter s lk =
     bnd (pushcli s) (\<lambda>s. bnd (holding s lk) (\<lambda>h. if h then panic ''acquire'' else ok s))"

definition xchg_locked :: "spinlock \<Rightarrow> u32 \<times> spinlock" where
  "xchg_locked lk = (locked lk, lk\<lparr>locked := 1\<rparr>)"

definition acquire_done :: "smp \<Rightarrow> spinlock \<Rightarrow> spinlock outcome" where
  "acquire_done s lk = bnd (mycpu s) (\<lambda>i. ok (lk\<lparr>lk_cpu := Some i\<rparr>))"

text \<open>
  The whole call as seen by one processor while the others are quiet: if another processor
  holds the lock the loop does not end.
\<close>

definition acquire :: "smp \<Rightarrow> spinlock \<Rightarrow> (smp \<times> spinlock) outcome" where
  "acquire s lk =
     bnd (acquire_enter s lk) (\<lambda>s.
       let (old, lk) = xchg_locked lk in
       if old \<noteq> 0 then Inl Hang
       else bnd (acquire_done s lk) (\<lambda>lk. ok (s, lk)))"

text \<open>
  \<open>release\<close> up to the barrier, and the store that frees the lock word; interrupts come back
  only after that store.
\<close>

definition release_enter :: "smp \<Rightarrow> spinlock \<Rightarrow> spinlock outcome" where
  "release_enter s lk =
     bnd (holding s lk) (\<lambda>h. if \<not> h then panic ''release'' else ok (lk\<lparr>lk_cpu := None\<rparr>))"

definition release_store :: "spinlock \<Rightarrow> spinlock" where
  "release_store lk = lk\<lparr>locked := 0\<rparr>"

definition release :: "smp \<Rightarrow> spinlock \<Rightarrow> (smp \<times> spinlock) outcome" where
  "release s lk =
     bnd (release_enter s lk) (\<lambda>lk.
       let lk = release_store lk in bnd (popcli s) (\<lambda>s. ok (s, lk)))"

text \<open>
  \<open>getcallerpcs\<close> follows the chain of saved frame pointers in the kernel half of memory for
  at most ten frames and fills the rest with zero.
\<close>

fun getcallerpcs_loop :: "memory \<Rightarrow> u32 \<Rightarrow> nat \<Rightarrow> u32 list" where
  "getcallerpcs_loop m ebp 0 = []"
| "getcallerpcs_loop m ebp (Suc k) =
     (if ebp = 0 \<or> ebp < 0x80000000 \<or> ebp = 0xffffffff then replicate (Suc k) 0
      else load32 m (ebp + 4) # getcallerpcs_loop m (load32 m ebp) k)"

definition getcallerpcs :: "memory \<Rightarrow> u32 \<Rightarrow> u32 list" where
  "getcallerpcs m v = getcallerpcs_loop m (v - 8) 10"

section \<open>Sequential behaviour\<close>

text \<open>
  A processor is ready when it is in the table, its nesting depth is not negative, and a
  positive depth comes with interrupts disabled.
\<close>

definition cpu_ready :: "smp \<Rightarrow> nat \<Rightarrow> bool" where
  "cpu_ready s i \<longleftrightarrow> cpu_index (lapicid (hw s)) (cpus s) = Some i \<and>
     0 \<le> ncli (cpus s ! i) \<and> (0 < ncli (cpus s ! i) \<longrightarrow> \<not> fl_if (hw s))"

lemma cpu_index_bound: "cpu_index a cs = Some i \<Longrightarrow> i < length cs"
  by (induction cs arbitrary: i) (auto split: if_splits)

lemma cpu_index_apicid: "cpu_index a cs = Some i \<Longrightarrow> apicid (cs ! i) = a"
  by (induction cs arbitrary: i) (auto split: if_splits)

lemma cpu_index_update [simp]:
  "apicid c = apicid (cs ! i) \<Longrightarrow> cpu_index a (cs[i := c]) = cpu_index a cs"
  by (induction cs arbitrary: i) (auto split: nat.split)

lemma hw_upd_cpu [simp]: "hw (upd_cpu i f s) = hw s"
  by (simp add: upd_cpu_def)

lemma cpus_upd_cpu: "cpus (upd_cpu i f s) = (cpus s)[i := f (cpus s ! i)]"
  by (simp add: upd_cpu_def)

lemma hw_cli [simp]: "hw (cli s) = (hw s)\<lparr>fl_if := False\<rparr>" "cpus (cli s) = cpus s"
  by (simp_all add: cli_def)

lemma hw_sti [simp]: "hw (sti s) = (hw s)\<lparr>fl_if := True\<rparr>" "cpus (sti s) = cpus s"
  by (simp_all add: sti_def)

lemma cpu_readyD:
  assumes "cpu_ready s i"
  shows "i < length (cpus s)" "cpu_index (lapicid (hw s)) (cpus s) = Some i"
    "0 \<le> ncli (cpus s ! i)" "0 < ncli (cpus s ! i) \<Longrightarrow> \<not> fl_if (hw s)"
  using assms by (auto simp: cpu_ready_def dest: cpu_index_bound)

lemma cpu_intena_ncli [simp]: "ncli c = 0 \<Longrightarrow> c\<lparr>intena := b, ncli := 0\<rparr> = c\<lparr>intena := b\<rparr>"
  by (cases c) simp

lemma smp_hw_same [simp]: "fl_if (hw s) \<Longrightarrow> s\<lparr>cpus := cs, hw := hw s\<lparr>fl_if := True\<rparr>\<rparr> = s\<lparr>cpus := cs\<rparr>"
  by (cases s, cases "hw s") simp

lemma smp_hw_same' [simp]: "\<not> fl_if (hw s) \<Longrightarrow> s\<lparr>hw := hw s\<lparr>fl_if := False\<rparr>, cpus := cs\<rparr> = s\<lparr>cpus := cs\<rparr>"
  by (cases s, cases "hw s") simp

text \<open>The state after \<open>pushcli\<close> and after \<open>popcli\<close> on processor \<open>i\<close>.\<close>

definition pushed :: "nat \<Rightarrow> smp \<Rightarrow> smp" where
  "pushed i s = (cli s)\<lparr>cpus := (cpus s)[i := (cpus s ! i)
     \<lparr>intena := (if ncli (cpus s ! i) = 0 then fl_if (hw s) else intena (cpus s ! i)),
      ncli := ncli (cpus s ! i) + 1\<rparr>]\<rparr>"

lemma pushcli_ready:
  assumes "cpu_ready s i"
  shows "pushcli s = ok (pushed i s)"
  using cpu_readyD [OF assms]
  by (auto simp: pushcli_def mycpu_def pushed_def upd_cpu_def cli_def Let_def)

lemma pushed_ready: "cpu_ready s i \<Longrightarrow> cpu_ready (pushed i s) i"
  by (auto simp: cpu_ready_def pushed_def cli_def dest: cpu_index_bound)

lemma mycpu_pushed: "cpu_ready s i \<Longrightarrow> mycpu (pushed i s) = ok i"
  by (auto simp: mycpu_def cpu_ready_def pushed_def cli_def dest: cpu_index_bound)

lemma popcli_pushed:
  assumes "cpu_ready s i"
  obtains s' where "popcli (pushed i s) = ok s'" "hw s' = hw s" "cpu_ready s' i"
    "cpus s' = (cpus s)[i := (cpus s ! i)\<lparr>intena :=
       (if ncli (cpus s ! i) = 0 then fl_if (hw s) else intena (cpus s ! i))\<rparr>]"
proof -
  note r = cpu_readyD [OF assms]
  let ?s' = "s\<lparr>cpus := (cpus s)[i := (cpus s ! i)\<lparr>intena :=
       (if ncli (cpus s ! i) = 0 then fl_if (hw s) else intena (cpus s ! i))\<rparr>]\<rparr>"
  have 1: "popcli (pushed i s) = ok ?s'"
    using r mycpu_pushed [OF assms]
    by (auto simp: popcli_def pushed_def upd_cpu_def cli_def sti_def Let_def)
  have 2: "cpu_ready ?s' i"
    using assms by (auto simp: cpu_ready_def dest: cpu_index_bound)
  show ?thesis by (rule that [OF 1 _ 2]) simp_all
qed

lemma acquire_free:
  assumes "cpu_ready s i" and "locked lk = 0"
  shows "acquire s lk = ok (pushed i s, lk\<lparr>locked := 1, lk_cpu := Some i\<rparr>)"
  using assms
  by (simp add: acquire_def acquire_enter_def pushcli_ready holding_def xchg_locked_def
      acquire_done_def mycpu_pushed)

lemma release_held:
  assumes "cpu_ready s i" and "locked lk \<noteq> 0" and "lk_cpu lk = Some i"
  obtains s' where "release (pushed i s) lk = ok (s', lk\<lparr>locked := 0, lk_cpu := None\<rparr>)"
    "hw s' = hw s" "cpu_ready s' i"
proof -
  obtain s' where "popcli (pushed i s) = ok s'" "hw s' = hw s" "cpu_ready s' i"
    using popcli_pushed [OF assms(1)] by blast
  then have "release (pushed i s) lk = ok (s', lk\<lparr>locked := 0, lk_cpu := None\<rparr>)"
    using assms mycpu_pushed [OF assms(1)]
    by (simp add: release_def release_enter_def release_store_def holding_def)
  with \<open>hw s' = hw s\<close> \<open>cpu_ready s' i\<close> that show ?thesis by blast
qed

text \<open>Taking a lock twice on one processor, and releasing a lock that is not held, panic.\<close>

lemma acquire_self:
  assumes "cpu_ready s i" and "locked lk \<noteq> 0" and "lk_cpu lk = Some i"
  shows "acquire s lk = panic ''acquire''"
  using assms
  by (simp add: acquire_def acquire_enter_def pushcli_ready holding_def mycpu_pushed)

lemma release_free: "locked lk = 0 \<Longrightarrow> release s lk = panic ''release''"
  by (simp add: release_def release_enter_def holding_def)

section \<open>The contract of a lock\<close>

text \<open>
  What the users of a lock rely on: from a ready processor and a free lock, the lock can be
  taken, and releasing it leaves the processor ready and the lock free again.
\<close>

locale lock_contract =
  fixes acq :: "'c \<Rightarrow> 'l \<Rightarrow> ('c \<times> 'l) outcome"
    and rel :: "'c \<Rightarrow> 'l \<Rightarrow> ('c \<times> 'l) outcome"
    and ready :: "'c \<Rightarrow> bool"
    and free :: "'l \<Rightarrow> bool"
  assumes acq_rel: "ready c \<Longrightarrow> free l \<Longrightarrow>
    \<exists>c1 l1 c2 l2. acq c l = ok (c1, l1) \<and> rel c1 l1 = ok (c2, l2) \<and> ready c2 \<and> free l2"
begin

text \<open>A critical section whose body returns runs to its end and leaves the lock free.\<close>

lemma critical_section:
  assumes "ready c" and "free l" and "body = ok x"
  shows "\<exists>c' l'. bnd (acq c l) (\<lambda>(c, l). bnd body (\<lambda>x. bnd (rel c l) (\<lambda>(c, l). ok (c, l, x))))
      = ok (c', l', x) \<and> ready c' \<and> free l'"
  using acq_rel [OF assms(1,2)] assms(3) by auto

text \<open>A critical section whose body stops, stops with the same outcome.\<close>

lemma critical_section_stops:
  assumes "ready c" and "free l" and "body = Inl e"
  shows "bnd (acq c l) (\<lambda>(c, l). bnd body (\<lambda>x. bnd (rel c l) (\<lambda>(c, l). ok (c, l, x)))) = Inl e"
  using acq_rel [OF assms(1,2)] assms(3) by auto

end

definition cpu_is_ready :: "smp \<Rightarrow> bool" where
  "cpu_is_ready s \<longleftrightarrow> (case cpu_index (lapicid (hw s)) (cpus s) of
     Some i \<Rightarrow> cpu_ready s i | None \<Rightarrow> False)"

lemma cpu_is_readyI: "cpu_ready s i \<Longrightarrow> cpu_is_ready s"
  by (auto simp: cpu_is_ready_def cpu_ready_def)

lemma cpu_is_readyE: "cpu_is_ready s \<Longrightarrow> (\<And>i. cpu_ready s i \<Longrightarrow> P) \<Longrightarrow> P"
  by (auto simp: cpu_is_ready_def split: option.splits)

definition lock_free :: "spinlock \<Rightarrow> bool" where
  "lock_free lk \<longleftrightarrow> locked lk = 0"

lemma lock_free_initlock [simp]: "lock_free (initlock name)"
  by (simp add: lock_free_def initlock_def)

interpretation spin: lock_contract acquire release cpu_is_ready lock_free
proof
  fix c l assume "cpu_is_ready c" and l: "lock_free l"
  then obtain i where i: "cpu_ready c i" by (blast elim: cpu_is_readyE)
  let ?l1 = "l\<lparr>locked := 1, lk_cpu := Some i\<rparr>"
  have "acquire c l = ok (pushed i c, ?l1)"
    using acquire_free [OF i] l by (simp add: lock_free_def)
  moreover obtain c2 where "release (pushed i c) ?l1 = ok (c2, ?l1\<lparr>locked := 0, lk_cpu := None\<rparr>)"
    and "cpu_ready c2 i"
    using release_held [OF i, of ?l1] by auto
  ultimately show "\<exists>c1 l1 c2 l2. acquire c l = ok (c1, l1) \<and> release c1 l1 = ok (c2, l2) \<and>
      cpu_is_ready c2 \<and> lock_free l2"
    by (auto simp: lock_free_def intro: cpu_is_readyI)
qed

section \<open>Many processors\<close>

text \<open>
  The processors, numbered below \<open>mp_n\<close>, share the table and one lock; each has its own
  hardware. A processor is
  outside, spins in \<open>acquire\<close>, has won the exchange, is inside its critical section, or is
  leaving through \<open>release\<close>. Every step is one of the pieces above, run by one processor.
\<close>

datatype phase = Outside | Spinning | Won | Inside | Leaving

record mp =
  mp_n :: nat
  mp_cpus :: "cpu list"
  mp_hw :: "nat \<Rightarrow> hwcpu"
  mp_lock :: spinlock
  mp_phase :: "nat \<Rightarrow> phase"

definition view :: "mp \<Rightarrow> nat \<Rightarrow> smp" where
  "view s p = \<lparr>cpus = mp_cpus s, hw = mp_hw s p\<rparr>"

definition put :: "nat \<Rightarrow> smp \<Rightarrow> mp \<Rightarrow> mp" where
  "put p v s = s\<lparr>mp_cpus := cpus v, mp_hw := (mp_hw s)(p := hw v)\<rparr>"

definition move :: "nat \<Rightarrow> phase \<Rightarrow> mp \<Rightarrow> mp" where
  "move p ph s = s\<lparr>mp_phase := (mp_phase s)(p := ph)\<rparr>"

inductive mp_step :: "mp \<Rightarrow> mp \<Rightarrow> bool" where
  enter: "p < mp_n s \<Longrightarrow> mp_phase s p = Outside \<Longrightarrow> acquire_enter (view s p) (mp_lock s) = ok v \<Longrightarrow>
     mp_step s (move p Spinning (put p v s))"
| lose: "mp_phase s p = Spinning \<Longrightarrow> xchg_locked (mp_lock s) = (old, lk) \<Longrightarrow> old \<noteq> 0 \<Longrightarrow>
     mp_step s (s\<lparr>mp_lock := lk\<rparr>)"
| win: "mp_phase s p = Spinning \<Longrightarrow> xchg_locked (mp_lock s) = (old, lk) \<Longrightarrow> old = 0 \<Longrightarrow>
     mp_step s (move p Won (s\<lparr>mp_lock := lk\<rparr>))"
| record_cpu: "mp_phase s p = Won \<Longrightarrow> acquire_done (view s p) (mp_lock s) = ok lk \<Longrightarrow>
     mp_step s (move p Inside (s\<lparr>mp_lock := lk\<rparr>))"
| leave: "mp_phase s p = Inside \<Longrightarrow> release_enter (view s p) (mp_lock s) = ok lk \<Longrightarrow>
     mp_step s (move p Leaving (s\<lparr>mp_lock := lk\<rparr>))"
| free: "mp_phase s p = Leaving \<Longrightarrow> popcli (view s p) = ok v \<Longrightarrow>
     mp_step s (move p Outside (put p v (s\<lparr>mp_lock := release_store (mp_lock s)\<rparr>)))"

text \<open>
  At the start the lock is free, every processor is outside, and the local APIC ids of the
  processors differ.
\<close>

definition mp_start :: "mp \<Rightarrow> bool" where
  "mp_start s \<longleftrightarrow> lock_free (mp_lock s) \<and> lk_cpu (mp_lock s) = None \<and>
     (\<forall>p. mp_phase s p = Outside) \<and> inj_on (\<lambda>p. lapicid (mp_hw s p)) {..<mp_n s}"

inductive mp_reachable :: "mp \<Rightarrow> mp \<Rightarrow> bool" for s0 where
  start: "mp_start s0 \<Longrightarrow> mp_reachable s0 s0"
| step: "mp_reachable s0 s \<Longrightarrow> mp_step s t \<Longrightarrow> mp_reachable s0 t"

definition owns :: "phase \<Rightarrow> bool" where
  "owns ph \<longleftrightarrow> ph \<in> {Won, Inside, Leaving}"

definition mp_index :: "mp \<Rightarrow> nat \<Rightarrow> nat option" where
  "mp_index s p = cpu_index (lapicid (mp_hw s p)) (mp_cpus s)"

text \<open>
  The invariant: the lock word is set exactly while some processor owns the lock, two owners
  are the same processor, and the recorded CPU is the one inside (and none otherwise).
\<close>

definition mp_inv :: "mp \<Rightarrow> bool" where
  "mp_inv s \<longleftrightarrow>
     (\<forall>p. owns (mp_phase s p) \<longrightarrow> locked (mp_lock s) \<noteq> 0) \<and>
     (\<forall>p q. owns (mp_phase s p) \<longrightarrow> owns (mp_phase s q) \<longrightarrow> p = q) \<and>
     (\<forall>p. mp_phase s p = Inside \<longrightarrow> lk_cpu (mp_lock s) = mp_index s p \<and> mp_index s p \<noteq> None) \<and>
     ((\<forall>p. mp_phase s p \<noteq> Inside) \<longrightarrow> lk_cpu (mp_lock s) = None) \<and>
     (\<forall>p. owns (mp_phase s p) \<or> mp_phase s p = Spinning \<longrightarrow> p < mp_n s) \<and>
     inj_on (\<lambda>p. lapicid (mp_hw s p)) {..<mp_n s}"

text \<open>The operations never change the APIC ids of the table or of the hardware.\<close>

definition same_ids :: "smp \<Rightarrow> smp \<Rightarrow> bool" where
  "same_ids v w \<longleftrightarrow> map apicid (cpus v) = map apicid (cpus w) \<and> lapicid (hw v) = lapicid (hw w)"

lemma cpu_index_map: "map apicid cs = map apicid ds \<Longrightarrow> cpu_index a cs = cpu_index a ds"
proof (induction cs arbitrary: ds)
  case Nil
  then show ?case by simp
next
  case (Cons c cs)
  then show ?case by (cases ds) auto
qed

lemma map_apicid_update [simp]:
  "apicid c = apicid (cs ! i) \<Longrightarrow> map apicid (cs[i := c]) = map apicid cs"
  by (metis list_update_beyond list_update_id map_update not_less nth_map)

lemma same_ids_upd_cpu [simp]:
  "apicid (f (cpus s ! i)) = apicid (cpus s ! i) \<Longrightarrow> same_ids (upd_cpu i f s) s"
  by (simp add: same_ids_def upd_cpu_def)

lemma mycpu_index: "mycpu s = ok i \<Longrightarrow> cpu_index (lapicid (hw s)) (cpus s) = Some i"
  by (auto simp: mycpu_def split: if_splits option.splits)

lemma mycpu_bound: "mycpu s = ok i \<Longrightarrow> i < length (cpus s)"
  by (auto dest: mycpu_index cpu_index_bound)

lemma pushcli_ids: "pushcli s = ok v \<Longrightarrow> same_ids v s"
  by (auto simp: pushcli_def Let_def bnd_eq_Inr same_ids_def upd_cpu_def
      dest: mycpu_bound split: if_splits)

lemma popcli_ids: "popcli s = ok v \<Longrightarrow> same_ids v s"
  by (auto simp: popcli_def Let_def bnd_eq_Inr same_ids_def upd_cpu_def split: if_splits)

lemma acquire_enter_ids: "acquire_enter s lk = ok v \<Longrightarrow> same_ids v s"
  by (auto simp: acquire_enter_def bnd_eq_Inr pushcli_ids split: if_splits)

lemma mp_index_put:
  "same_ids v (view s p) \<Longrightarrow> mp_index (put p v s) q = mp_index s q"
  by (auto simp: mp_index_def put_def same_ids_def view_def intro: cpu_index_map)

lemma inj_put: "same_ids v (view s p) \<Longrightarrow> (\<lambda>q. lapicid (mp_hw (put p v s) q)) = (\<lambda>q. lapicid (mp_hw s q))"
  by (auto simp: put_def same_ids_def view_def)

lemma mp_fields [simp]:
  "mp_lock (move p ph s) = mp_lock s" "mp_phase (move p ph s) = (mp_phase s)(p := ph)"
  "mp_hw (move p ph s) = mp_hw s" "mp_n (move p ph s) = mp_n s" "mp_n (put p v s) = mp_n s"
  "mp_lock (put p v s) = mp_lock s"
  "mp_phase (put p v s) = mp_phase s" "mp_index (move p ph s) = mp_index s"
  "mp_index (s\<lparr>mp_lock := lk\<rparr>) = mp_index s" "put p v (s\<lparr>mp_lock := lk\<rparr>) = (put p v s)\<lparr>mp_lock := lk\<rparr>"
  by (simp_all add: move_def put_def mp_index_def fun_eq_iff)

lemma mp_inv_start: "mp_start s \<Longrightarrow> mp_inv s"
  by (simp add: mp_start_def mp_inv_def owns_def)

lemma mp_index_inj:
  assumes "inj_on (\<lambda>p. lapicid (mp_hw s p)) {..<mp_n s}" and "p < mp_n s" and "q < mp_n s"
    and "mp_index s p = Some i" and "mp_index s q = Some i"
  shows "p = q"
proof -
  have "lapicid (mp_hw s p) = lapicid (mp_hw s q)"
    using assms(4,5) cpu_index_apicid unfolding mp_index_def by metis
  then show ?thesis using assms(1,2,3) by (simp add: inj_on_def)
qed


lemma owns_simps [simp]:
  "\<not> owns Outside" "\<not> owns Spinning" "owns Won" "owns Inside" "owns Leaving"
  by (simp_all add: owns_def)

lemma mp_invD:
  assumes "mp_inv s"
  shows "owns (mp_phase s p) \<Longrightarrow> locked (mp_lock s) \<noteq> 0"
    and "owns (mp_phase s p) \<Longrightarrow> owns (mp_phase s q) \<Longrightarrow> p = q"
    and "mp_phase s p = Inside \<Longrightarrow> lk_cpu (mp_lock s) = mp_index s p"
    and "mp_phase s p = Inside \<Longrightarrow> mp_index s p \<noteq> None"
    and "(\<And>q. mp_phase s q \<noteq> Inside) \<Longrightarrow> lk_cpu (mp_lock s) = None"
    and "inj_on (\<lambda>p. lapicid (mp_hw s p)) {..<mp_n s}"
    and "owns (mp_phase s p) \<Longrightarrow> p < mp_n s"
    and "mp_phase s p = Spinning \<Longrightarrow> p < mp_n s"
  using assms unfolding mp_inv_def by blast+

text \<open>A step by \<open>p\<close> that leaves the other phases alone keeps the invariant if it does for \<open>p\<close>.\<close>

lemma mp_invI_owner:
  assumes "\<And>q. q \<noteq> p \<Longrightarrow> \<not> owns (mp_phase s q)"
    and "owns (mp_phase s p) \<Longrightarrow> locked (mp_lock s) \<noteq> 0"
    and "mp_phase s p = Inside \<Longrightarrow> lk_cpu (mp_lock s) = mp_index s p \<and> mp_index s p \<noteq> None"
    and "mp_phase s p \<noteq> Inside \<Longrightarrow> lk_cpu (mp_lock s) = None"
    and "inj_on (\<lambda>p. lapicid (mp_hw s p)) {..<mp_n s}"
    and "\<And>q. mp_phase s q = Spinning \<Longrightarrow> q < mp_n s" and "p < mp_n s"
  shows "mp_inv s"
proof -
  have in_p: "mp_phase s q = Inside \<Longrightarrow> q = p" for q using assms(1) owns_simps(4) by metis
  show ?thesis unfolding mp_inv_def
  proof (intro conjI allI impI)
    fix q assume "owns (mp_phase s q)"
    then have "q = p" using assms(1) by blast
    with \<open>owns (mp_phase s q)\<close> assms(2) show "locked (mp_lock s) \<noteq> 0" by simp
  next
    fix q r assume "owns (mp_phase s q)" "owns (mp_phase s r)"
    then show "q = r" using assms(1) by metis
  next
    fix q assume "mp_phase s q = Inside"
    with in_p assms(3) show "lk_cpu (mp_lock s) = mp_index s q" by metis
  next
    fix q assume "mp_phase s q = Inside"
    with in_p assms(3) show "mp_index s q \<noteq> None" by metis
  next
    assume "\<forall>q. mp_phase s q \<noteq> Inside"
    then show "lk_cpu (mp_lock s) = None" using assms(4) by blast
  next
    fix q assume "owns (mp_phase s q) \<or> mp_phase s q = Spinning"
    then show "q < mp_n s" using assms(1,6,7) by metis
  next
    show "inj_on (\<lambda>p. lapicid (mp_hw s p)) {..<mp_n s}" by (rule assms(5))
  qed
qed

lemma mp_step_inv:
  assumes "mp_step s t" and "mp_inv s"
  shows "mp_inv t"
  using assms
proof (induction rule: mp_step.induct)
  case (enter p s v)
  note ids = acquire_enter_ids [OF enter.hyps(3)]
  show ?case unfolding mp_inv_def
  proof (intro conjI allI impI)
    fix q r assume "owns (mp_phase (move p Spinning (put p v s)) q)"
      "owns (mp_phase (move p Spinning (put p v s)) r)"
    then show "q = r" using mp_invD(2) [OF enter.prems] by (auto split: if_splits)
  next
    assume a: "\<forall>q. mp_phase (move p Spinning (put p v s)) q \<noteq> Inside"
    have "mp_phase s q \<noteq> Inside" for q
      using a enter.hyps(2) by (cases "q = p") (auto split: if_splits)
    then show "lk_cpu (mp_lock (move p Spinning (put p v s))) = None"
      using mp_invD(5) [OF enter.prems] by simp
  qed (use enter.hyps(1,2) mp_invD [OF enter.prems] ids
        in \<open>auto simp: mp_index_put [OF ids] inj_put [OF ids] split: if_splits\<close>)
next
  case (lose s p old lk)
  then show ?case by (simp add: mp_inv_def xchg_locked_def) auto
next
  case (win s p old lk)
  have free: "\<not> owns (mp_phase s q)" for q
    using win mp_invD(1) [OF win.prems, of q] by (auto simp: xchg_locked_def)
  then have "mp_phase s q \<noteq> Inside" for q using owns_simps(4) by metis
  then have "lk_cpu (mp_lock s) = None" by (rule mp_invD(5) [OF win.prems])
  with win.hyps(1,2) free show ?case
    by (intro mp_invI_owner [where p = p])
       (auto simp: xchg_locked_def mp_invD(6,8) [OF win.prems] split: if_splits)
next
  case (record_cpu s p lk)
  have uniq: "q \<noteq> p \<Longrightarrow> \<not> owns (mp_phase s q)" for q
    using mp_invD(2) [OF record_cpu.prems, of p q] record_cpu.hyps(1) by auto
  obtain i where i: "mycpu (view s p) = ok i" and lk: "lk = (mp_lock s)\<lparr>lk_cpu := Some i\<rparr>"
    using record_cpu.hyps(2) by (auto simp: acquire_done_def bnd_eq_Inr)
  from mycpu_index [OF i] have "mp_index s p = Some i"
    by (simp add: view_def mp_index_def)
  then show ?case
    using record_cpu.hyps(1) uniq lk mp_invD(1) [OF record_cpu.prems, of p]
    by (intro mp_invI_owner [where p = p]) (auto simp: mp_invD(6-8) [OF record_cpu.prems] split: if_splits)
next
  case (leave s p lk)
  have uniq: "q \<noteq> p \<Longrightarrow> \<not> owns (mp_phase s q)" for q
    using mp_invD(2) [OF leave.prems, of p q] leave.hyps(1) by auto
  have "lk = (mp_lock s)\<lparr>lk_cpu := None\<rparr>"
    using leave.hyps(2) by (auto simp: release_enter_def bnd_eq_Inr split: if_splits)
  then show ?case
    using leave.hyps(1) uniq mp_invD(1) [OF leave.prems, of p]
    by (intro mp_invI_owner [where p = p]) (auto simp: mp_invD(6-8) [OF leave.prems] split: if_splits)
next
  case (free s p v)
  have ids: "same_ids v (view s p)" by (rule popcli_ids [OF free.hyps(2)])
  have uniq: "q \<noteq> p \<Longrightarrow> \<not> owns (mp_phase s q)" for q
    using mp_invD(2) [OF free.prems, of p q] free.hyps(1) by auto
  then have "mp_phase s q \<noteq> Inside" for q
    using free.hyps(1) by (cases "q = p") force+
  then have "lk_cpu (mp_lock s) = None" by (rule mp_invD(5) [OF free.prems])
  then show ?case
    using free.hyps(1) uniq by (intro mp_invI_owner [where p = p])
      (auto simp: release_store_def inj_put [OF ids] mp_invD(6-8) [OF free.prems] split: if_splits)
qed

lemma mp_reachable_inv: "mp_reachable s0 s \<Longrightarrow> mp_inv s"
  by (induction rule: mp_reachable.induct) (auto intro: mp_inv_start mp_step_inv)

section \<open>Properties\<close>

text \<open>Two processors on a boot-time table, for the witnesses.\<close>

definition cpu0 :: "uchar \<Rightarrow> cpu" where
  "cpu0 a = \<lparr>apicid = a, started = True, ncli = 0, intena = False, cproc = None,
     ts_esp0 = 0, ts_ss0 = 0, ts_iomb = 0\<rparr>"

definition smp0 :: smp where
  "smp0 = \<lparr>cpus = [cpu0 0, cpu0 1], hw = \<lparr>lapicid = 0, fl_if = True\<rparr>\<rparr>"

definition mp0 :: mp where
  "mp0 = \<lparr>mp_n = 2, mp_cpus = cpus smp0,
     mp_hw = (\<lambda>p. \<lparr>lapicid = of_nat p, fl_if = True\<rparr>), mp_lock = initlock ''lk'',
     mp_phase = (\<lambda>_. Outside)\<rparr>"

lemma smp0_ready: "cpu_ready smp0 0"
  by (simp add: cpu_ready_def smp0_def cpu0_def)

lemma mp0_start: "mp_start mp0"
  by (auto simp: mp_start_def mp0_def initlock_def lock_free_def inj_on_def less_2_cases_iff)

definition mp1 :: mp where
  "mp1 = move 0 Spinning (put 0 (pushed 0 (view mp0 0)) mp0)"

definition mp2 :: mp where
  "mp2 = move 0 Won (mp1\<lparr>mp_lock := (mp_lock mp1)\<lparr>locked := 1\<rparr>\<rparr>)"

definition mp3 :: mp where
  "mp3 = move 0 Inside (mp2\<lparr>mp_lock := (mp_lock mp2)\<lparr>lk_cpu := Some 0\<rparr>\<rparr>)"

lemma mp3_reachable: "mp_reachable mp0 mp3"
proof -
  have r: "cpu_ready (view mp0 0) 0"
    by (simp add: cpu_ready_def view_def mp0_def smp0_def cpu0_def)
  have "mp_step mp0 mp1" unfolding mp1_def
    by (rule mp_step.enter)
       (simp_all add: acquire_enter_def pushcli_ready [OF r] holding_def, simp_all add: mp0_def initlock_def)
  moreover have "mp_step mp1 mp2" unfolding mp2_def
    by (rule mp_step.win) (simp_all add: xchg_locked_def mp1_def, simp_all add: mp0_def initlock_def)
  moreover have "view mp2 0 = pushed 0 (view mp0 0)"
    by (simp add: mp2_def mp1_def view_def move_def put_def)
  then have "mp_step mp2 mp3" unfolding mp3_def
    by (intro mp_step.record_cpu) (simp_all add: acquire_done_def mycpu_pushed [OF r], simp add: mp2_def)
  ultimately show ?thesis
    using mp_reachable.start [OF mp0_start] by (blast intro: mp_reachable.step)
qed

text \<open>
  C1. Mutual exclusion: in every state that the interleaved steps of the processors reach,
  at most one of them is past its exchange in \<open>acquire\<close> and before the store of
  \<open>release\<close>.
\<close>

theorem spinlock_mutual_exclusion:
  assumes "mp_reachable s0 s" and "owns (mp_phase s p)" and "owns (mp_phase s q)"
  shows "p = q"
  using mp_invD(2) [OF mp_reachable_inv [OF assms(1)]] assms(2,3) by blast

theorem spinlock_mutual_exclusion_witness:
  "mp_reachable mp0 mp3 \<and> owns (mp_phase mp3 0) \<and> \<not> owns (mp_phase mp3 1)"
proof -
  have "owns (mp_phase mp3 0)" by (simp add: mp3_def)
  moreover from this have "\<not> owns (mp_phase mp3 1)"
    using spinlock_mutual_exclusion [OF mp3_reachable, of 0 1] by auto
  ultimately show ?thesis using mp3_reachable by blast
qed

text \<open>
  \<open>holding\<close> answers for the caller: in every reachable state it tells exactly whether
  the processor that asks is inside its critical section. So \<open>acquire\<close> panics only on a
  processor that already holds the lock, and \<open>release\<close> only on one that does not.
\<close>

theorem holding_correct:
  assumes "mp_reachable s0 s" and "p < mp_n s" and "holding (view s p) (mp_lock s) = ok b"
  shows "b \<longleftrightarrow> mp_phase s p = Inside"
proof -
  have inv: "mp_inv s" by (rule mp_reachable_inv [OF assms(1)])
  show ?thesis
  proof
    assume b
    then obtain i where "mycpu (view s p) = ok i" and i: "lk_cpu (mp_lock s) = Some i"
      using assms(3) by (auto simp: holding_def bnd_eq_Inr split: if_splits)
    then have ip: "mp_index s p = Some i"
      using mycpu_index by (fastforce simp: view_def mp_index_def)
    obtain q where q: "mp_phase s q = Inside"
      using mp_invD(5) [OF inv] i by fastforce
    then have "mp_index s q = Some i" using mp_invD(3) [OF inv q] i by simp
    moreover have "q < mp_n s" using q mp_invD(7) [OF inv, of q] by simp
    ultimately show "mp_phase s p = Inside"
      using q ip assms(2) mp_index_inj [OF mp_invD(6) [OF inv], of p q i] by simp
  next
    assume p: "mp_phase s p = Inside"
    then have "locked (mp_lock s) \<noteq> 0" using mp_invD(1) [OF inv, of p] by simp
    with assms(3) obtain i where i: "mycpu (view s p) = ok i" and b: "b \<longleftrightarrow> lk_cpu (mp_lock s) = Some i"
      by (auto simp: holding_def bnd_eq_Inr)
    from mycpu_index [OF i] have "mp_index s p = Some i" by (simp add: view_def mp_index_def)
    with b mp_invD(3) [OF inv p] show b by simp
  qed
qed

theorem holding_correct_witness:
  "mp_reachable mp0 mp3 \<and> holding (view mp3 0) (mp_lock mp3) = ok True \<and> mp_phase mp3 0 = Inside"
proof -
  have "holding (view mp3 0) (mp_lock mp3) = ok True"
    by (simp add: holding_def mycpu_def mp3_def mp2_def mp1_def view_def move_def put_def pushed_def
        mp0_def smp0_def cpu0_def)
  moreover have "0 < mp_n mp3" by (simp add: mp3_def mp2_def mp1_def mp0_def)
  ultimately show ?thesis
    using holding_correct [OF mp3_reachable, of 0 True] mp3_reachable by simp
qed

text \<open>
  \<open>pushcli\<close> and \<open>popcli\<close> are matched: after a \<open>pushcli\<close> interrupts are off, and the
  \<open>popcli\<close> that follows restores the interrupt flag and every nesting depth.
\<close>

theorem pushcli_popcli:
  assumes "cpu_ready s i"
  shows "\<exists>s1 s2. pushcli s = ok s1 \<and> \<not> fl_if (hw s1) \<and> popcli s1 = ok s2 \<and>
    fl_if (hw s2) = fl_if (hw s) \<and> map ncli (cpus s2) = map ncli (cpus s)"
proof -
  obtain s2 where s2: "popcli (pushed i s) = ok s2" "hw s2 = hw s"
    "cpus s2 = (cpus s)[i := (cpus s ! i)\<lparr>intena :=
       (if ncli (cpus s ! i) = 0 then fl_if (hw s) else intena (cpus s ! i))\<rparr>]"
    using popcli_pushed [OF assms] by blast
  have "map ncli (cpus s2) = map ncli (cpus s)"
    using cpu_readyD(1) [OF assms] by (simp add: s2(3) map_update list_update_same_conv)
  then show ?thesis
    using pushcli_ready [OF assms] s2 by (auto simp: pushed_def)
qed

theorem pushcli_popcli_witness:
  "cpu_ready smp0 0 \<and> (\<exists>s1 s2. pushcli smp0 = ok s1 \<and> \<not> fl_if (hw s1) \<and> popcli s1 = ok s2 \<and>
    fl_if (hw s2) = fl_if (hw smp0) \<and> map ncli (cpus s2) = map ncli (cpus smp0))"
  using pushcli_popcli [OF smp0_ready] smp0_ready by blast

end
