(* ===== verification/Strings.thy ===== *)
theory Strings
  imports Xv6_Prelude
begin

text \<open>
  The kernel's string routines (\<^verbatim>\<open>string.c\<close>) on byte memory, with the two string
  instructions of \<^verbatim>\<open>x86.h\<close> that \<open>memset\<close> uses. Addresses are 32-bit and wrap.
\<close>

section \<open>Fill\<close>

fun stosb :: "memory \<Rightarrow> u32 \<Rightarrow> uchar \<Rightarrow> nat \<Rightarrow> memory" where
  "stosb m addr data 0 = m"
| "stosb m addr data (Suc cnt) = stosb (m(addr := data)) (addr + 1) data cnt"

fun stosl :: "memory \<Rightarrow> u32 \<Rightarrow> u32 \<Rightarrow> nat \<Rightarrow> memory" where
  "stosl m addr data 0 = m"
| "stosl m addr data (Suc cnt) = stosl (store32 m addr data) (addr + 4) data cnt"

definition memset :: "memory \<Rightarrow> u32 \<Rightarrow> u32 \<Rightarrow> u32 \<Rightarrow> memory" where
  "memset m dst c n =
     (if dst mod 4 = 0 \<and> n mod 4 = 0
      then let c = c AND 0xFF in
        stosl m dst (push_bit 24 c OR push_bit 16 c OR push_bit 8 c OR c) (unat (n div 4))
      else stosb m dst (ucast c) (unat n))"

section \<open>Compare\<close>

text \<open>\<open>*s1 - *s2\<close> is a difference of two bytes promoted to \<open>int\<close>.\<close>

definition byte_diff :: "uchar \<Rightarrow> uchar \<Rightarrow> int" where
  "byte_diff a b = uint a - uint b"

fun memcmp :: "memory \<Rightarrow> u32 \<Rightarrow> u32 \<Rightarrow> nat \<Rightarrow> int" where
  "memcmp m s1 s2 0 = 0"
| "memcmp m s1 s2 (Suc n) =
     (if m s1 \<noteq> m s2 then byte_diff (m s1) (m s2) else memcmp m (s1 + 1) (s2 + 1) n)"

fun strncmp :: "memory \<Rightarrow> u32 \<Rightarrow> u32 \<Rightarrow> nat \<Rightarrow> int" where
  "strncmp m p q 0 = 0"
| "strncmp m p q (Suc n) =
     (if m p \<noteq> 0 \<and> m p = m q then strncmp m (p + 1) (q + 1) n
      else byte_diff (m p) (m q))"

section \<open>Copy\<close>

fun copy_up :: "memory \<Rightarrow> u32 \<Rightarrow> u32 \<Rightarrow> nat \<Rightarrow> memory" where
  "copy_up m d s 0 = m"
| "copy_up m d s (Suc n) = copy_up (m(d := m s)) (d + 1) (s + 1) n"

fun copy_down :: "memory \<Rightarrow> u32 \<Rightarrow> u32 \<Rightarrow> nat \<Rightarrow> memory" where
  "copy_down m d s 0 = m"
| "copy_down m d s (Suc n) = copy_down (m(d - 1 := m (s - 1))) (d - 1) (s - 1) n"

definition memmove :: "memory \<Rightarrow> u32 \<Rightarrow> u32 \<Rightarrow> u32 \<Rightarrow> memory" where
  "memmove m dst src n =
     (if src < dst \<and> src + n > dst then copy_down m (dst + n) (src + n) (unat n)
      else copy_up m dst src (unat n))"

definition memcpy :: "memory \<Rightarrow> u32 \<Rightarrow> u32 \<Rightarrow> u32 \<Rightarrow> memory" where
  "memcpy m dst src n = memmove m dst src n"

text \<open>
  \<open>strncpy\<close>: the first loop copies up to and including a NUL, the second pads. The count
  \<open>n\<close> is a C \<open>int\<close>; a negative one behaves as zero.
\<close>

fun zero_fill :: "memory \<Rightarrow> u32 \<Rightarrow> nat \<Rightarrow> memory" where
  "zero_fill m s 0 = m"
| "zero_fill m s (Suc n) = zero_fill (m(s := 0)) (s + 1) n"

fun strncpy_loop :: "memory \<Rightarrow> u32 \<Rightarrow> u32 \<Rightarrow> nat \<Rightarrow> memory" where
  "strncpy_loop m s t 0 = m"
| "strncpy_loop m s t (Suc n) =
     (let c = m t; m = m(s := c) in
      if c \<noteq> 0 then strncpy_loop m (s + 1) (t + 1) n else zero_fill m (s + 1) n)"

definition strncpy :: "memory \<Rightarrow> u32 \<Rightarrow> u32 \<Rightarrow> int \<Rightarrow> memory" where
  "strncpy m s t n = strncpy_loop m s t (nat n)"

fun safestrcpy_loop :: "memory \<Rightarrow> u32 \<Rightarrow> u32 \<Rightarrow> nat \<Rightarrow> memory \<times> u32" where
  "safestrcpy_loop m s t 0 = (m, s)"
| "safestrcpy_loop m s t (Suc n) =
     (let c = m t; m = m(s := c) in
      if c \<noteq> 0 then safestrcpy_loop m (s + 1) (t + 1) n else (m, s + 1))"

definition safestrcpy :: "memory \<Rightarrow> u32 \<Rightarrow> u32 \<Rightarrow> int \<Rightarrow> memory" where
  "safestrcpy m s t n =
     (if n \<le> 0 then m
      else let (m, s) = safestrcpy_loop m s t (nat (n - 1)) in m(s := 0))"

section \<open>Length\<close>



section \<open>Fill: correctness\<close>

lemma stosb_apply:
  "n < 4294967296 \<Longrightarrow> stosb m a v n x = (if in_bytes a n x then v else m x)"
proof (induction n arbitrary: m a)
  case 0
  then show ?case by simp
next
  case (Suc n)
  show ?case
  proof (cases "x = a")
    case True
    with Suc show ?thesis by (simp add: not_in_bytes_next)
  next
    case False
    with Suc show ?thesis by (simp add: in_bytes_Suc)
  qed
qed

lemma stosl_stosb:
  assumes "\<And>i. i \<in> {0, 8, 16, 24} \<Longrightarrow> (ucast (drop_bit i v) :: uchar) = c"
  shows "stosl m a v n = stosb m a c (4 * n)"
proof (induction n arbitrary: m a)
  case 0
  then show ?case by simp
next
  case (Suc n)
  have "store32 m a v = m(a := c, a + 1 := c, a + 2 := c, a + 3 := c)"
    using assms [of 0] assms [of 8] assms [of 16] assms [of 24] by (simp add: store32_def)
  then have "stosl m a v (Suc n) = stosb (m(a := c, a + 1 := c, a + 2 := c, a + 3 := c)) (a + 4) c (4 * n)"
    using Suc by (simp only: stosl.simps)
  moreover have "4 * Suc n = Suc (Suc (Suc (Suc (4 * n))))"
    and "a + 1 + 1 = a + 2" and "a + 2 + 1 = a + 3" and "a + 3 + 1 = a + 4" by simp_all
  ultimately show ?case by (simp only: stosb.simps)
qed

lemma fill_bytes:
  fixes c :: u32
  assumes "i \<in> {0, 8, 16, 24}"
  shows "(ucast (drop_bit i (push_bit 24 (c AND 0xFF) OR push_bit 16 (c AND 0xFF) OR
     push_bit 8 (c AND 0xFF) OR (c AND 0xFF))) :: uchar) = ucast c"
proof -
  have t: "c AND 255 = take_bit 8 c" by (simp add: take_bit_eq_mask mask_eq_exp_minus_1)
  show ?thesis unfolding t
  proof (rule bit_word_eqI)
    fix n assume "n < LENGTH(8)"
    then have "n < 8" by simp
    then show "bit (ucast (drop_bit i (push_bit 24 (take_bit 8 c) OR push_bit 16 (take_bit 8 c) OR
        push_bit 8 (take_bit 8 c) OR take_bit 8 c)) :: uchar) n = bit (ucast c :: uchar) n"
      using assms by (elim insertE) (simp_all add: bit_simps)
  qed
qed

lemma memset_apply: "memset m dst c n x = (if in_bytes dst (unat n) x then ucast c else m x)"
proof (cases "dst mod 4 = 0 \<and> n mod 4 = 0")
  case True
  then have "unat n mod 4 = 0" using unat_mod_distrib [of n 4] by simp
  then have n4: "4 * unat (n div 4) = unat n"
    using div_mult_mod_eq [of "unat n" 4] by (simp add: unat_div_distrib)
  have "memset m dst c n = stosb m dst (ucast c) (4 * unat (n div 4))"
    using True by (simp only: memset_def Let_def simp_thms if_True stosl_stosb [OF fill_bytes])
  then show ?thesis using u32_bound [of n] by (simp add: n4 stosb_apply)
next
  case False
  then show ?thesis using u32_bound [of n] by (auto simp: memset_def stosb_apply)
qed

section \<open>Copy: correctness\<close>

lemma copy_up_apply:
  assumes "n < 4294967296" and "d = s \<or> n \<le> unat (d - s)"
  shows "copy_up m d s n x = (if in_bytes d n x then m (s + (x - d)) else m x)"
  using assms
proof (induction n arbitrary: m d s)
  case 0
  then show ?case by simp
next
  case (Suc n)
  have shift: "s + 1 + (x - (d + 1)) = s + (x - d)" by simp
  define m' where "m' = m(d := m s)"
  have "copy_up m d s (Suc n) x = copy_up m' (d + 1) (s + 1) n x" by (simp add: m'_def)
  also have "\<dots> = (if in_bytes (d + 1) n x then m' (s + (x - d)) else m' x)"
    using Suc.IH [of "d + 1" "s + 1" m'] Suc.prems unfolding shift by auto
  finally have IH: "copy_up m d s (Suc n) x =
      (if in_bytes (d + 1) n x then m' (s + (x - d)) else m' x)" .
  show ?case
  proof (cases "x = d")
    case True
    with IH Suc.prems(1) show ?thesis by (simp add: m'_def not_in_bytes_next)
  next
    case False
    have "m' (s + (x - d)) = m (s + (x - d))" if "in_bytes (d + 1) n x"
    proof (cases "s + (x - d) = d")
      case True
      then have "x - d = d - s" by (simp add: algebra_simps)
      moreover have "unat (x - d) < Suc n"
        using that in_bytes_Suc [OF False, of n] by (simp add: in_bytes_def)
      ultimately have "d = s" using Suc.prems(2) by auto
      then show ?thesis by (simp add: m'_def)
    qed (simp add: m'_def)
    with IH False show ?thesis by (simp add: m'_def in_bytes_Suc)
  qed
qed

lemma copy_down_apply:
  assumes "n < 4294967296" and "d = s \<or> n \<le> unat (s - d)"
  shows "copy_down m (d + of_nat n) (s + of_nat n) n x =
    (if in_bytes d n x then m (s + (x - d)) else m x)"
  using assms
proof (induction n arbitrary: m)
  case 0
  then show ?case by simp
next
  case (Suc n)
  define m' where "m' = m(d + of_nat n := m (s + of_nat n))"
  have "copy_down m (d + of_nat (Suc n)) (s + of_nat (Suc n)) (Suc n) x =
      copy_down m' (d + of_nat n) (s + of_nat n) n x"
    by (simp add: m'_def)
  also have "\<dots> = (if in_bytes d n x then m' (s + (x - d)) else m' x)"
    using Suc.IH [of m'] Suc.prems by auto
  also have "\<dots> = (if in_bytes d (Suc n) x then m (s + (x - d)) else m x)"
  proof (cases "in_bytes d n x")
    case True
    then have lt: "unat (x - d) < n" by (simp add: in_bytes_def)
    have "s + (x - d) \<noteq> d + of_nat n \<or> d = s"
    proof (rule ccontr)
      assume "\<not> ?thesis"
      then have eq: "s - d = of_nat n - (x - d)" and "d \<noteq> s" by (auto simp: algebra_simps)
      have "unat (x - d) \<le> unat (of_nat n :: u32)"
        using lt Suc.prems(1) by (simp add: unat_of_nat_u32)
      then have "unat (s - d) = n - unat (x - d)"
        using Suc.prems(1) by (simp add: eq unat_sub word_le_nat_alt unat_of_nat_u32)
      with Suc.prems(2) \<open>d \<noteq> s\<close> show False by simp
    qed
    with True lt Suc.prems(1) show ?thesis by (auto simp: m'_def in_bytes_Suc_last)
  next
    case False
    with Suc.prems(1) show ?thesis by (auto simp: m'_def in_bytes_Suc_last)
  qed
  finally show ?case .
qed

lemma memmove_apply:
  assumes "unat src + unat n \<le> 4294967296" and "unat dst + unat n \<le> 4294967296"
  shows "memmove m dst src n x = (if in_bytes dst (unat n) x then m (src + (x - dst)) else m x)"
proof (cases "src < dst \<and> src + n > dst")
  case True
  then have "unat src < unat dst" by (simp add: word_less_nat_alt)
  from unat_diff_wrap [OF this] have "unat n \<le> unat (src - dst)" using assms by simp
  then show ?thesis
    using True copy_down_apply [of "unat n" dst src m x] u32_bound [of n] by (simp add: memmove_def)
next
  case False
  have "dst = src \<or> unat n \<le> unat (dst - src)"
  proof (cases "unat src < unat dst")
    case True
    then have "unat (dst - src) = unat dst - unat src" by (simp add: unat_sub word_le_nat_alt)
    moreover have "unat (src + n) = unat src + unat n"
      using True assms u32_bound [of n] by (simp add: unat_word_ariths)
    ultimately show ?thesis using False True by (auto simp: word_less_nat_alt)
  next
    case nlt: False
    show ?thesis
    proof (cases "dst = src")
      case False
      then have "unat dst < unat src" using nlt by (meson linorder_neqE_nat word_unat_eq_iff)
      from unat_diff_wrap [OF this] this assms show ?thesis by arith
    qed simp
  qed
  then show ?thesis
    using copy_up_apply [of "unat n" dst src m x] u32_bound [of n]
    unfolding memmove_def if_not_P [OF False] by simp
qed

text \<open>
  C37. \<open>memmove\<close> copies the bytes that were there before the call, also when the two
  ranges overlap, and changes nothing else, for ranges that do not run past the end of the
  address space.
\<close>

theorem memmove_correct:
  assumes "unat src + unat n \<le> 4294967296" and "unat dst + unat n \<le> 4294967296"
  shows "memmove m dst src n x = (if in_bytes dst (unat n) x then m (src + (x - dst)) else m x)"
  using assms by (rule memmove_apply)

theorem memmove_correct_witness:
  "memmove (\<lambda>a. ucast a) 102 100 8 109 = (107 :: uchar)"
  using memmove_correct [of 100 8 102 "\<lambda>a. ucast a" 109] by (simp add: in_bytes_def)

section \<open>Strings: correctness\<close>

lemma zero_fill_other [simp]:
  assumes "n < 4294967296" and "\<not> in_bytes s n x"
  shows "zero_fill m s n x = m x"
  using assms
proof (induction n arbitrary: m s)
  case (Suc n)
  then show ?case by (auto dest!: not_in_bytes_SucD)
qed simp

lemma strncpy_loop_other [simp]:
  assumes "n < 4294967296" and "\<not> in_bytes s n x"
  shows "strncpy_loop m s t n x = m x"
  using assms
proof (induction n arbitrary: m s t)
  case (Suc n)
  then show ?case by (auto dest!: not_in_bytes_SucD simp: Let_def)
qed simp

lemma strncmp_strncpy_loop:
  assumes "n < 4294967296" and "\<And>i. i < n \<Longrightarrow> \<not> in_bytes s n (t + of_nat i)"
  shows "strncmp (strncpy_loop m s t n) s t n = 0"
  using assms
proof (induction n arbitrary: m s t)
  case (Suc n)
  have t0: "\<not> in_bytes s (Suc n) t" using Suc.prems(2) [of 0] by simp
  have nx: "\<not> in_bytes (s + 1) n s" "\<not> in_bytes (s + 1) n t" "s \<noteq> t"
    using Suc.prems(1) not_in_bytes_SucD [OF t0] by (auto simp: not_in_bytes_next)
  have "\<not> in_bytes (s + 1) n (t + 1 + of_nat i)" if "i < n" for i
    using not_in_bytes_SucD [OF Suc.prems(2) [of "Suc i"]] that by (simp add: add_ac)
  with Suc.IH Suc.prems(1)
  have "strncmp (strncpy_loop m' (s + 1) (t + 1) n) (s + 1) (t + 1) n = 0" for m' by simp
  with nx Suc.prems(1) show ?case by (auto simp: Let_def byte_diff_def)
qed simp

text \<open>
  A string stored by \<open>strncpy\<close> compares equal to its source under \<open>strncmp\<close> with
  the same bound, whether or not the source is shorter than the bound, when the destination
  does not overlap the source.
\<close>

theorem strncmp_strncpy:
  assumes "\<And>i. i < nat n \<Longrightarrow> \<not> in_bytes s (nat n) (t + of_nat i)" and "n < 2147483648"
  shows "strncmp (strncpy m s t n) s t (nat n) = 0"
  using assms strncmp_strncpy_loop [of "nat n" s t m] by (simp add: strncpy_def)

theorem strncmp_strncpy_witness:
  "strncmp (strncpy (\<lambda>a. if a = 201 then 0 else 65) 100 200 3) 100 200 3 = 0"
proof -
  have "\<not> in_bytes (100 :: u32) 3 (200 + of_nat i)" if "i < 3" for i
    using that by (auto simp: in_bytes_def less_Suc_eq numeral_3_eq_3)
  then show ?thesis
    using strncmp_strncpy [of 3 100 200 "\<lambda>a. if a = 201 then 0 else 65"] by simp
qed

lemma safestrcpy_loop_end:
  "\<exists>k \<le> n. snd (safestrcpy_loop m s t n) = s + of_nat k"
proof (induction n arbitrary: m s t)
  case (Suc n)
  obtain k where "k \<le> n"
    "snd (safestrcpy_loop (m(s := m t)) (s + 1) (t + 1) n) = s + 1 + of_nat k"
    using Suc by blast
  then have "snd (safestrcpy_loop (m(s := m t)) (s + 1) (t + 1) n) = s + of_nat (Suc k)"
    by (simp add: add_ac)
  with \<open>k \<le> n\<close> show ?case
    by (cases "m t = 0") (auto simp: Let_def intro: exI [of _ "Suc 0"] exI [of _ "Suc k"])
qed simp

lemma safestrcpy_loop_other:
  assumes "n < 4294967296" and "\<not> in_bytes s n x"
  shows "fst (safestrcpy_loop m s t n) x = m x"
  using assms
proof (induction n arbitrary: m s t)
  case (Suc n)
  then show ?case by (auto dest!: not_in_bytes_SucD simp: Let_def)
qed simp

text \<open>
  \<open>safestrcpy\<close> with a positive bound always leaves a NUL-terminated string inside the
  \<open>n\<close> bytes of the destination, and writes nothing outside them.
\<close>

theorem safestrcpy_terminates:
  assumes "0 < n" and "n < 2147483648"
  shows "(\<exists>k < nat n. safestrcpy m s t n (s + of_nat k) = 0) \<and>
    (\<forall>x. in_bytes s (nat n) x \<or> safestrcpy m s t n x = m x)"
proof -
  define l where "l = safestrcpy_loop m s t (nat (n - 1))"
  obtain k where k: "k \<le> nat (n - 1)" "snd l = s + of_nat k"
    using safestrcpy_loop_end unfolding l_def by blast
  have n: "nat n = Suc (nat (n - 1))" using assms by simp
  have "fst l x = m x" if "\<not> in_bytes s (nat n) x" for x
    unfolding l_def using assms that n by (intro safestrcpy_loop_other) (auto simp: in_bytes_def)
  moreover have "in_bytes s (nat n) (s + of_nat k)" using k n assms by (simp add: in_bytes_add)
  ultimately show ?thesis
    using k n assms by (auto simp: safestrcpy_def l_def [symmetric] case_prod_beta intro!: exI [of _ k])
qed

theorem safestrcpy_terminates_witness:
  "\<exists>k < nat 4. safestrcpy (\<lambda>a. 65) 100 200 4 (100 + of_nat k) = 0"
  using safestrcpy_terminates [of 4 "\<lambda>a. 65" 100 200] by simp




end
