(* ===== verification/Mmu.thy ===== *)
theory Mmu
  imports Xv6_Prelude
begin

text \<open>
  The address arithmetic of \<^verbatim>\<open>mmu.h\<close> and \<^verbatim>\<open>memlayout.h\<close>: page rounding, the split of a
  virtual address into directory index, table index and offset, and the split of a page
  table entry into a page address and flag bits.
\<close>

section \<open>Constants\<close>

abbreviation (input) PGSIZE :: u32 where "PGSIZE \<equiv> 4096"
abbreviation (input) KERNBASE :: u32 where "KERNBASE \<equiv> 0x80000000"
abbreviation (input) EXTMEM :: u32 where "EXTMEM \<equiv> 0x100000"
abbreviation (input) PHYSTOP :: u32 where "PHYSTOP \<equiv> 0xE000000"
abbreviation (input) DEVSPACE :: u32 where "DEVSPACE \<equiv> 0xFE000000"
abbreviation (input) KERNLINK :: u32 where "KERNLINK \<equiv> 0x80100000"
abbreviation (input) VDSOTEXT :: u32 where "VDSOTEXT \<equiv> 0x7FFFD000"
abbreviation (input) MAX_STACK :: u32 where "MAX_STACK \<equiv> 0x100000"
abbreviation (input) MAX_SHM :: u32 where "MAX_SHM \<equiv> 0x1000000"

abbreviation (input) PTE_P :: u32 where "PTE_P \<equiv> 0x001"
abbreviation (input) PTE_W :: u32 where "PTE_W \<equiv> 0x002"
abbreviation (input) PTE_U :: u32 where "PTE_U \<equiv> 0x004"
abbreviation (input) PTE_COW :: u32 where "PTE_COW \<equiv> 0x800"

abbreviation (input) FEC_WR :: u32 where "FEC_WR \<equiv> 2"

section \<open>Macros\<close>

definition V2P :: "u32 \<Rightarrow> u32" where
  "V2P a = a - KERNBASE"

definition P2V :: "u32 \<Rightarrow> u32" where
  "P2V a = a + KERNBASE"

definition PDX :: "u32 \<Rightarrow> u32" where
  "PDX va = drop_bit 22 va AND 0x3FF"

definition PTX :: "u32 \<Rightarrow> u32" where
  "PTX va = drop_bit 12 va AND 0x3FF"

definition PGADDR :: "u32 \<Rightarrow> u32 \<Rightarrow> u32 \<Rightarrow> u32" where
  "PGADDR d t off = push_bit 22 d OR push_bit 12 t OR off"

definition PGROUNDUP :: "u32 \<Rightarrow> u32" where
  "PGROUNDUP sz = (sz + PGSIZE - 1) AND NOT (PGSIZE - 1)"

definition PGROUNDDOWN :: "u32 \<Rightarrow> u32" where
  "PGROUNDDOWN a = a AND NOT (PGSIZE - 1)"

definition PTE_ADDR :: "u32 \<Rightarrow> u32" where
  "PTE_ADDR pte = pte AND NOT 0xFFF"

definition PTE_FLAGS :: "u32 \<Rightarrow> u32" where
  "PTE_FLAGS pte = pte AND 0xFFF"

text \<open>Page alignment, the condition \<open>(uint) v % PGSIZE == 0\<close> of the C code.\<close>

definition aligned :: "u32 \<Rightarrow> bool" where
  "aligned a \<longleftrightarrow> unat a mod 4096 = 0"

section \<open>Masks and page numbers\<close>

lemma mask12: "(4095 :: u32) = mask 12"
  by (simp add: mask_eq_exp_minus_1)

lemma mask10: "(1023 :: u32) = mask 10"
  by (simp add: mask_eq_exp_minus_1)

lemma and_mask12: "(a AND 4095 :: u32) = a mod 4096"
  by (simp only: mask12 flip: take_bit_eq_mask) (simp add: take_bit_eq_mod)

lemma and_mask10: "(a AND 1023 :: u32) = a mod 1024"
  by (simp only: mask10 flip: take_bit_eq_mask) (simp add: take_bit_eq_mod)

lemma unat_and_mask12: "unat (a AND 4095 :: u32) = unat a mod 4096"
  by (simp add: and_mask12 unat_mod_distrib)

lemma and_not_mask12: "(a :: u32) AND NOT 4095 = a - (a AND 4095)"
proof -
  have "a = (a AND 4095) + (a AND NOT 4095)"
    by (subst disjunctive_add_eq_or) (auto simp: bit_eq_iff bit_simps)
  then show ?thesis by (metis add_diff_cancel_left')
qed

lemma and_neg4096: "(a :: u32) AND - 4096 = a - (a AND 4095)"
  using and_not_mask12 [of a] by simp

lemma PGROUNDDOWN_eq: "PGROUNDDOWN a = a - (a AND 4095)"
  using and_not_mask12 [of a] by (simp add: PGROUNDDOWN_def)

lemma PTE_ADDR_eq: "PTE_ADDR a = PGROUNDDOWN a"
  by (simp add: PTE_ADDR_def PGROUNDDOWN_def)

section \<open>Rounding\<close>

lemma unat_PGROUNDDOWN [mmu_simps]: "unat (PGROUNDDOWN a) = unat a div 4096 * 4096"
proof -
  have "a AND 4095 \<le> a" by (simp add: word_and_le2)
  then have "unat (PGROUNDDOWN a) = unat a - unat a mod 4096"
    by (simp add: PGROUNDDOWN_eq unat_sub unat_and_mask12)
  then show ?thesis by (simp add: minus_mod_eq_div_mult)
qed

lemma aligned_PGROUNDDOWN [simp]: "aligned (PGROUNDDOWN a)"
  by (simp add: aligned_def unat_PGROUNDDOWN)

lemma PGROUNDDOWN_aligned [simp]: "aligned a \<Longrightarrow> PGROUNDDOWN a = a"
  by (auto simp: aligned_def word_unat_eq_iff unat_PGROUNDDOWN)

lemma PGROUNDDOWN_le: "PGROUNDDOWN a \<le> a"
  by (simp add: word_le_nat_alt unat_PGROUNDDOWN)

lemma PGROUNDDOWN_offset: "unat (a - PGROUNDDOWN a) = unat a mod 4096"
  by (simp add: PGROUNDDOWN_eq unat_and_mask12)

lemma PGROUNDUP_down: "PGROUNDUP a = PGROUNDDOWN (a + 4095)"
  by (simp add: PGROUNDUP_def PGROUNDDOWN_def add.commute)

text \<open>\<open>PGROUNDUP\<close> rounds up below the last page and wraps to zero inside it.\<close>

lemma unat_PGROUNDUP [mmu_simps]:
  "unat a \<le> 0xFFFFF000 \<Longrightarrow> unat (PGROUNDUP a) = (unat a + 4095) div 4096 * 4096"
proof -
  assume "unat a \<le> 0xFFFFF000"
  then have "unat (a + 4095) = unat a + 4095"
    by (simp add: unat_word_ariths)
  then show ?thesis by (simp add: PGROUNDUP_down unat_PGROUNDDOWN)
qed

lemma PGROUNDUP_wraps: "0xFFFFF000 < unat a \<Longrightarrow> PGROUNDUP a = 0"
proof -
  assume h: "0xFFFFF000 < unat a"
  have "unat a < 2 ^ 32" using unsigned_less [of a] by simp
  with h have "unat (a + 4095) = unat a + 4095 - 2 ^ 32"
    by (simp add: unat_word_ariths mod_if)
  with \<open>unat a < 2 ^ 32\<close> have "unat (a + 4095) div 4096 = 0" by simp
  then show ?thesis by (simp add: PGROUNDUP_down word_unat_eq_iff unat_PGROUNDDOWN)
qed

lemma aligned_PGROUNDUP [simp]: "aligned (PGROUNDUP a)"
  by (simp add: PGROUNDUP_down)

lemma PGROUNDUP_aligned [simp]: "aligned a \<Longrightarrow> PGROUNDUP a = a"
proof -
  assume al: "aligned a"
  have b: "unat a < 2 ^ 32" using unsigned_less [of a] by simp
  from al have "4096 dvd unat a" by (simp add: aligned_def dvd_eq_mod_eq_0)
  then obtain k where k: "unat a = 4096 * k" by (auto elim: dvdE)
  with b have "unat a \<le> 0xFFFFF000" by simp
  then have "unat (PGROUNDUP a) = unat a"
    by (simp add: unat_PGROUNDUP k)
  then show ?thesis by (simp add: word_unat_eq_iff)
qed

section \<open>Directory and table indices\<close>

lemma unat_PDX [mmu_simps]: "unat (PDX va) = unat va div 4194304"
proof -
  have "unat va < 2 ^ 32" using unsigned_less [of va] by simp
  then have "unat va div 4194304 < 1024" by simp
  moreover have "unat (PDX va) = unat va div 4194304 mod 1024"
    by (simp add: PDX_def and_mask10 drop_bit_eq_div unat_div_distrib unat_mod_distrib)
  ultimately show ?thesis by simp
qed

lemma unat_PTX [mmu_simps]: "unat (PTX va) = unat va div 4096 mod 1024"
  by (simp add: PTX_def and_mask10 drop_bit_eq_div unat_div_distrib unat_mod_distrib)

lemma PDX_bound: "unat (PDX va) < 1024"
proof -
  have "unat va < 2 ^ 32" using unsigned_less [of va] by simp
  then show ?thesis by (simp add: unat_PDX)
qed

lemma PTX_bound: "unat (PTX va) < 1024"
  by (simp add: unat_PTX)

text \<open>Two pages with the same indices are the same page.\<close>

lemma page_index_inj:
  assumes "aligned a" and "aligned b" and "PDX a = PDX b" and "PTX a = PTX b"
  shows "a = b"
proof -
  have d: "unat a div 4194304 = unat b div 4194304"
    using assms(3) by (metis unat_PDX)
  have t: "unat a div 4096 mod 1024 = unat b div 4096 mod 1024"
    using assms(4) by (metis unat_PTX)
  have "unat x div 4096 = unat x div 4194304 * 1024 + unat x div 4096 mod 1024" for x :: u32
  proof -
    have "unat x div 4194304 = unat x div 4096 div 1024" by (simp flip: div_mult2_eq)
    then show ?thesis by simp
  qed
  with d t have "unat a div 4096 = unat b div 4096" by metis
  then have "unat (PGROUNDDOWN a) = unat (PGROUNDDOWN b)" by (simp add: unat_PGROUNDDOWN)
  with assms(1,2) show ?thesis by (simp add: word_unat_eq_iff)
qed

section \<open>Page table entries\<close>

lemma PTE_ADDR_aligned [simp]: "aligned (PTE_ADDR p)"
  by (simp add: PTE_ADDR_eq)

lemma PTE_split: "PTE_ADDR p OR PTE_FLAGS p = p"
  by (auto simp: PTE_ADDR_def PTE_FLAGS_def bit_eq_iff bit_simps)

lemma aligned_low_bits: "aligned a \<Longrightarrow> a AND 4095 = 0"
  by (simp add: aligned_def word_unat_eq_iff unat_and_mask12)

lemma PTE_ADDR_or [mmu_simps]:
  assumes "aligned pa" and "f AND - 4096 = 0"
  shows "PTE_ADDR (pa OR f) = pa"
proof -
  have "pa AND - 4096 = pa"
    using assms(1) by (simp add: and_neg4096 aligned_low_bits)
  then show ?thesis using assms(2)
    by (simp add: PTE_ADDR_def word_ao_dist)
qed

lemma PTE_FLAGS_or [mmu_simps]:
  assumes "aligned pa" and "f AND - 4096 = 0"
  shows "PTE_FLAGS (pa OR f) = f"
proof -
  have "f AND 4095 = f" using assms(2) by (simp add: and_neg4096)
  then show ?thesis using assms(1)
    by (simp add: PTE_FLAGS_def word_ao_dist aligned_low_bits)
qed

section \<open>Kernel and physical addresses\<close>

lemma V2P_P2V [simp]: "V2P (P2V a) = a" and P2V_V2P [simp]: "P2V (V2P a) = a"
  by (simp_all add: V2P_def P2V_def)

lemma V2P_eq_add: "V2P a = a + 0x80000000"
proof -
  have "(- 0x80000000 :: u32) = 0x80000000" by simp
  then show ?thesis by (simp only: V2P_def diff_conv_add_uminus)
qed

lemma aligned_V2P [simp]: "aligned (V2P a) = aligned a"
proof -
  have "unat (V2P a) mod 4096 = (unat a + 0x80000000) mod 4096"
    by (simp add: V2P_eq_add unat_word_ariths mod_mod_cancel)
  also have "(unat a + 0x80000000) mod 4096 = (unat a + 524288 * 4096) mod 4096" by simp
  also have "\<dots> = unat a mod 4096" by (rule mod_mult_self1)
  finally have "unat (V2P a) mod 4096 = unat a mod 4096" .
  then show ?thesis by (simp add: aligned_def)
qed

lemma aligned_P2V [simp]: "aligned (P2V a) = aligned a"
  using aligned_V2P [of "P2V a"] by simp

lemma aligned_iff: "aligned a \<longleftrightarrow> a mod PGSIZE = 0"
proof -
  have "unat (a mod PGSIZE) = unat a mod 4096" by (simp add: unat_mod_distrib)
  then show ?thesis by (metis aligned_def unat_eq_0)
qed

end
