(* ===== verification/Kalloc.thy ===== *)
theory Kalloc
  imports Spinlock Strings Mmu
begin

text \<open>
  The page allocator (\<^verbatim>\<open>kalloc.c\<close>): a free list threaded through the array \<open>kmem.runs\<close>, one
  entry with a reference count per physical page frame, under the lock \<open>kmem.lock\<close> once
  \<open>use_lock\<close> is set. A pointer into \<open>runs\<close> is its index; using an index outside the array
  is a \<open>Fault\<close>. \<open>kend\<close> is the address of the linker symbol \<open>end\<close>. The last part states
  what the allocator promises as a locale and shows that this code provides it.
\<close>

section \<open>State\<close>

record run =
  ref_count :: u32
  run_next :: "nat option"

record kmem =
  km_lock :: spinlock
  use_lock :: bool
  freelist :: "nat option"
  runs :: "nat \<Rightarrow> run"

text \<open>The processor running the code, the allocator, and the contents of kernel memory.\<close>

record mach =
  m_smp :: smp
  m_kmem :: kmem
  m_mem :: memory
  kend :: u32

definition MAXPAGES :: nat where
  "MAXPAGES = unat (PHYSTOP div PGSIZE)"

section \<open>Operations\<close>

text \<open>\<open>if(kmem.use_lock) acquire(&kmem.lock)\<close> and the matching release.\<close>

definition kmem_acquire :: "'a mach_scheme \<Rightarrow> 'a mach_scheme outcome" where
  "kmem_acquire m =
     (if use_lock (m_kmem m)
      then bnd (acquire (m_smp m) (km_lock (m_kmem m))) (\<lambda>(s, l).
        ok (m\<lparr>m_smp := s, m_kmem := (m_kmem m)\<lparr>km_lock := l\<rparr>\<rparr>))
      else ok m)"

definition kmem_release :: "'a mach_scheme \<Rightarrow> 'a mach_scheme outcome" where
  "kmem_release m =
     (if use_lock (m_kmem m)
      then bnd (release (m_smp m) (km_lock (m_kmem m))) (\<lambda>(s, l).
        ok (m\<lparr>m_smp := s, m_kmem := (m_kmem m)\<lparr>km_lock := l\<rparr>\<rparr>))
      else ok m)"

definition upd_run :: "nat \<Rightarrow> (run \<Rightarrow> run) \<Rightarrow> 'a mach_scheme \<Rightarrow> 'a mach_scheme" where
  "upd_run r f m = m\<lparr>m_kmem := (m_kmem m)\<lparr>runs := (runs (m_kmem m))(r := f (runs (m_kmem m) r))\<rparr>\<rparr>"

definition zeroRefCountRun :: "nat \<Rightarrow> 'a mach_scheme \<Rightarrow> 'a mach_scheme" where
  "zeroRefCountRun r = upd_run r (\<lambda>x. x\<lparr>ref_count := ref_count x AND 0\<rparr>)"

definition inclRefCountRun :: "nat \<Rightarrow> 'a mach_scheme \<Rightarrow> 'a mach_scheme" where
  "inclRefCountRun r = upd_run r (\<lambda>x. x\<lparr>ref_count := ref_count x + 1\<rparr>)"

definition declRefCountRun :: "nat \<Rightarrow> 'a mach_scheme \<Rightarrow> 'a mach_scheme" where
  "declRefCountRun r = upd_run r (\<lambda>x. x\<lparr>ref_count := ref_count x - 1\<rparr>)"

text \<open>\<open>&kmem.runs[V2P(v) / PGSIZE]\<close>, which must lie in the array to be used.\<close>

definition run_of :: "u32 \<Rightarrow> nat outcome" where
  "run_of v = (let i = unat (V2P v div PGSIZE) in if i < MAXPAGES then ok i else Inl Fault)"

text \<open>\<open>r->next = kmem.freelist; kmem.freelist = r;\<close>\<close>

definition push_run :: "nat \<Rightarrow> 'a mach_scheme \<Rightarrow> 'a mach_scheme" where
  "push_run r m =
     (let m = upd_run r (\<lambda>x. x\<lparr>run_next := freelist (m_kmem m)\<rparr>) m in
      m\<lparr>m_kmem := (m_kmem m)\<lparr>freelist := Some r\<rparr>\<rparr>)"

definition bad_page :: "'a mach_scheme \<Rightarrow> u32 \<Rightarrow> bool" where
  "bad_page m v \<longleftrightarrow> v mod PGSIZE \<noteq> 0 \<or> v < kend m \<or> V2P v \<ge> PHYSTOP"

definition kfree2 :: "'a mach_scheme \<Rightarrow> u32 \<Rightarrow> 'a mach_scheme outcome" where
  "kfree2 m v =
     (if bad_page m v then panic ''kfree2''
      else let m = m\<lparr>m_mem := memset (m_mem m) v 1 PGSIZE\<rparr> in
        bnd (kmem_acquire m) (\<lambda>m.
        bnd (run_of v) (\<lambda>r.
          kmem_release (zeroRefCountRun r (push_run r m)))))"

definition kfree :: "'a mach_scheme \<Rightarrow> u32 \<Rightarrow> 'a mach_scheme outcome" where
  "kfree m v =
     (if bad_page m v then panic ''kfree1''
      else let m = m\<lparr>m_mem := memset (m_mem m) v 1 PGSIZE\<rparr> in
        bnd (kmem_acquire m) (\<lambda>m.
        bnd (run_of v) (\<lambda>r.
          if ref_count (runs (m_kmem m) r) \<noteq> 1 then panic ''kfree2 ref_count!=1''
          else kmem_release (zeroRefCountRun r (push_run r m)))))"

text \<open>A free list entry outside the array cannot be dereferenced.\<close>

definition pop_run :: "'a mach_scheme \<Rightarrow> ('a mach_scheme \<times> nat option) outcome" where
  "pop_run m =
     (case freelist (m_kmem m) of
        None \<Rightarrow> ok (m, None)
      | Some r \<Rightarrow>
          if r < MAXPAGES
          then let m = m\<lparr>m_kmem := (m_kmem m)\<lparr>freelist := run_next (runs (m_kmem m) r)\<rparr>\<rparr> in
            ok (inclRefCountRun r (zeroRefCountRun r m), Some r)
          else Inl Fault)"

definition kalloc :: "'a mach_scheme \<Rightarrow> ('a mach_scheme \<times> u32) outcome" where
  "kalloc m =
     bnd (kmem_acquire m) (\<lambda>m.
     bnd (pop_run m) (\<lambda>(m, r).
     bnd (kmem_release m) (\<lambda>m.
       ok (m, case r of Some i \<Rightarrow> P2V (of_nat i * PGSIZE) | None \<Rightarrow> 0))))"

definition inclRefCount :: "'a mach_scheme \<Rightarrow> u32 \<Rightarrow> 'a mach_scheme outcome" where
  "inclRefCount m v =
     bnd (kmem_acquire m) (\<lambda>m. bnd (run_of v) (\<lambda>r. kmem_release (inclRefCountRun r m)))"

definition declRefCount :: "'a mach_scheme \<Rightarrow> u32 \<Rightarrow> 'a mach_scheme outcome" where
  "declRefCount m v =
     bnd (kmem_acquire m) (\<lambda>m. bnd (run_of v) (\<lambda>r. kmem_release (declRefCountRun r m)))"

text \<open>The count is read after the lock is released.\<close>

definition getRefCount :: "'a mach_scheme \<Rightarrow> u32 \<Rightarrow> ('a mach_scheme \<times> u32) outcome" where
  "getRefCount m v =
     bnd (kmem_acquire m) (\<lambda>m.
     bnd (kmem_release m) (\<lambda>m.
     bnd (run_of v) (\<lambda>r. ok (m, ref_count (runs (m_kmem m) r)))))"

lemma unat_V2P_next:
  assumes "V2P p < PHYSTOP"
  shows "unat (V2P (p + PGSIZE)) = unat (V2P p) + 4096"
proof -
  have "V2P (p + PGSIZE) = V2P p + PGSIZE" by (simp add: V2P_def)
  moreover have "unat (V2P p) < 0xE000000" using assms by (simp add: word_less_nat_alt)
  ultimately show ?thesis by (simp add: unat_word_ariths)
qed

text \<open>
  The loop of \<open>freerange\<close> ends for every argument: a step that does not stop has a page
  below \<open>PHYSTOP\<close>, so the page address cannot wrap.
\<close>

function freerange_loop :: "'a mach_scheme \<Rightarrow> u32 \<Rightarrow> u32 \<Rightarrow> 'a mach_scheme outcome" where
  "freerange_loop m p vend =
     (if p + PGSIZE \<le> vend then bnd (kfree2 m p) (\<lambda>m. freerange_loop m (p + PGSIZE) vend)
      else ok m)"
  by pat_completeness auto

termination
proof (relation "measure (\<lambda>(m, p, vend). 4294967296 - unat (V2P p))", goal_cases)
  case (2 m p vend m')
  then have "V2P p < PHYSTOP" by (auto simp: kfree2_def bad_page_def split: if_splits)
  then show ?case using unat_V2P_next [of p] by (simp add: word_less_nat_alt)
qed simp

declare freerange_loop.simps [simp del]

definition freerange :: "'a mach_scheme \<Rightarrow> u32 \<Rightarrow> u32 \<Rightarrow> 'a mach_scheme outcome" where
  "freerange m vstart vend = freerange_loop m (PGROUNDUP vstart) vend"

definition kinit1 :: "'a mach_scheme \<Rightarrow> u32 \<Rightarrow> u32 \<Rightarrow> 'a mach_scheme outcome" where
  "kinit1 m vstart vend =
     freerange (m\<lparr>m_kmem := (m_kmem m)\<lparr>km_lock := initlock ''kmem'', use_lock := False\<rparr>\<rparr>) vstart vend"

definition kinit2 :: "'a mach_scheme \<Rightarrow> u32 \<Rightarrow> u32 \<Rightarrow> 'a mach_scheme outcome" where
  "kinit2 m vstart vend =
     bnd (freerange m vstart vend) (\<lambda>m. ok (m\<lparr>m_kmem := (m_kmem m)\<lparr>use_lock := True\<rparr>\<rparr>))"

section \<open>Critical sections on the allocator's lock\<close>

abbreviation set_lk :: "smp \<Rightarrow> spinlock \<Rightarrow> 'a mach_scheme \<Rightarrow> 'a mach_scheme" where
  "set_lk s l m \<equiv> m\<lparr>m_smp := s, m_kmem := (m_kmem m)\<lparr>km_lock := l\<rparr>\<rparr>"

definition lock_ok :: "'a mach_scheme \<Rightarrow> bool" where
  "lock_ok m \<longleftrightarrow> (use_lock (m_kmem m) \<longrightarrow> cpu_is_ready (m_smp m) \<and> lock_free (km_lock (m_kmem m)))"

lemma set_lk_same [simp]: "set_lk (m_smp m) (km_lock (m_kmem m)) m = m"
  by (cases m, cases "m_kmem m") simp

text \<open>
  \<open>critical m s l s' l'\<close>: entering the critical section from \<open>m\<close> gives processor state \<open>s\<close>
  and lock \<open>l\<close>, and leaving it gives \<open>s'\<close> and \<open>l'\<close>, whatever happened to the rest.
\<close>

definition critical :: "'a mach_scheme \<Rightarrow> smp \<Rightarrow> spinlock \<Rightarrow> smp \<Rightarrow> spinlock \<Rightarrow> bool" where
  "critical m s l s' l' \<longleftrightarrow> kmem_acquire m = ok (set_lk s l m) \<and>
     (\<forall>m2 :: 'a mach_scheme. m_smp m2 = s \<and> km_lock (m_kmem m2) = l \<and>
        use_lock (m_kmem m2) = use_lock (m_kmem m) \<longrightarrow>
        kmem_release m2 = ok (set_lk s' l' m2) \<and> lock_ok (set_lk s' l' m2))"

lemma criticalD:
  fixes m m2 :: "'a mach_scheme"
  assumes "critical m s l s' l'"
  shows "kmem_acquire m = ok (set_lk s l m)"
    and "m_smp m2 = s \<Longrightarrow> km_lock (m_kmem m2) = l \<Longrightarrow> use_lock (m_kmem m2) = use_lock (m_kmem m) \<Longrightarrow>
      kmem_release m2 = ok (set_lk s' l' m2)"
    and "m_smp m2 = s \<Longrightarrow> km_lock (m_kmem m2) = l \<Longrightarrow> use_lock (m_kmem m2) = use_lock (m_kmem m) \<Longrightarrow>
      lock_ok (set_lk s' l' m2)"
  using assms by (auto simp: critical_def)

lemma kmem_critical:
  assumes "lock_ok m"
  shows "\<exists>s l s' l'. critical m s l s' l'"
proof (cases "use_lock (m_kmem m)")
  case True
  with assms obtain c1 l1 c2 l2 where "acquire (m_smp m) (km_lock (m_kmem m)) = ok (c1, l1)"
    "release c1 l1 = ok (c2, l2)" "cpu_is_ready c2" "lock_free l2"
    using spin.acq_rel unfolding lock_ok_def by blast
  with True have "critical m c1 l1 c2 l2"
    by (simp add: critical_def kmem_acquire_def kmem_release_def lock_ok_def)
  then show ?thesis by blast
next
  case False
  have "kmem_release m2 = ok (set_lk (m_smp m2) (km_lock (m_kmem m2)) m2) \<and> lock_ok m2"
    if "use_lock (m_kmem m2) = use_lock (m_kmem m)" for m2 :: "'a mach_scheme"
    using False that by (simp add: kmem_release_def lock_ok_def)
  with False set_lk_same
  have "critical m (m_smp m) (km_lock (m_kmem m)) (m_smp m) (km_lock (m_kmem m))"
    by (auto simp add: critical_def kmem_acquire_def lock_ok_def simp del: set_lk_same)
  then show ?thesis by blast
qed

section \<open>Pages\<close>

definition page :: "nat \<Rightarrow> u32" where
  "page i = P2V (of_nat i * PGSIZE)"

definition page_index :: "u32 \<Rightarrow> nat" where
  "page_index v = unat (V2P v div PGSIZE)"

lemma MAXPAGES_eq: "MAXPAGES = 57344"
  by (simp add: MAXPAGES_def unat_div_distrib)

lemma unat_page_base: "i < MAXPAGES \<Longrightarrow> unat (of_nat i * PGSIZE) = i * 4096"
  by (simp add: MAXPAGES_eq unat_word_ariths unat_of_nat_u32)

lemma page_index_page [simp]: "i < MAXPAGES \<Longrightarrow> page_index (page i) = i"
  by (simp add: page_index_def page_def V2P_P2V unat_div_distrib unat_page_base)

lemma page_inj: "i < MAXPAGES \<Longrightarrow> j < MAXPAGES \<Longrightarrow> page i = page j \<Longrightarrow> i = j"
  by (metis page_index_page)

lemma page_valid:
  assumes "i < MAXPAGES"
  shows "page i mod PGSIZE = 0" "V2P (page i) < PHYSTOP" "page i \<noteq> 0"
proof -
  have V: "V2P (page i) = of_nat i * PGSIZE" by (simp add: page_def V2P_P2V)
  then have U: "unat (V2P (page i)) = i * 4096" using unat_page_base [OF assms] by simp
  then show "V2P (page i) < PHYSTOP" using assms by (simp add: word_less_nat_alt MAXPAGES_eq)
  have "aligned (V2P (page i))" unfolding aligned_def U by simp
  then have "aligned (page i)" by (simp only: aligned_V2P)
  then show "page i mod PGSIZE = 0" by (simp only: aligned_iff)
  show "page i \<noteq> 0"
  proof
    assume "page i = 0"
    then have "V2P (page i) = 0x80000000" by (simp add: V2P_def)
    then show False using U assms by (simp add: MAXPAGES_eq)
  qed
qed

lemma page_cases:
  assumes "v mod PGSIZE = 0" and "V2P v < PHYSTOP"
  obtains i where "i < MAXPAGES" "v = page i"
proof -
  let ?i = "page_index v"
  have u: "unat (V2P v) < 57344 * 4096" using assms(2) by (simp add: word_less_nat_alt)
  then have i: "?i < MAXPAGES"
    by (simp add: page_index_def unat_div_distrib MAXPAGES_eq)
  have "aligned v" using assms(1) by (simp only: aligned_iff)
  then have "aligned (V2P v)" by (simp only: aligned_V2P)
  then have "unat (V2P v) mod 4096 = 0" by (simp only: aligned_def)
  then have "unat (of_nat ?i * PGSIZE) = unat (V2P v)"
    using unat_page_base [OF i] by (simp add: page_index_def unat_div_distrib mod_eq_0_iff_dvd)
  then have "of_nat ?i * PGSIZE = V2P v" by (simp only: word_unat_eq_iff)
  then have "v = page ?i" by (simp add: page_def P2V_V2P)
  with i that show ?thesis by blast
qed

lemma run_of_page [simp]: "i < MAXPAGES \<Longrightarrow> run_of (page i) = ok i"
  using page_index_page [of i] by (simp add: run_of_def page_index_def)

lemma bad_page_page: "i < MAXPAGES \<Longrightarrow> bad_page m (page i) \<longleftrightarrow> page i < kend m"
  using page_valid [of i] by (auto simp: bad_page_def)

lemma good_page_cases:
  assumes "\<not> bad_page m v"
  obtains i where "i < MAXPAGES" "v = page i" "kend m \<le> page i"
proof -
  have "v mod PGSIZE = 0" "V2P v < PHYSTOP" "kend m \<le> v"
    using assms by (auto simp: bad_page_def)
  moreover from this(1,2) obtain i where "i < MAXPAGES" "v = page i" by (rule page_cases)
  ultimately show ?thesis using that [of i] by simp
qed

section \<open>The free list\<close>

text \<open>\<open>chain rs p is\<close>: following \<open>next\<close> from \<open>p\<close> visits exactly the entries \<open>is\<close>.\<close>

fun chain :: "(nat \<Rightarrow> run) \<Rightarrow> nat option \<Rightarrow> nat list \<Rightarrow> bool" where
  "chain rs p [] \<longleftrightarrow> p = None"
| "chain rs p (i # is) \<longleftrightarrow> p = Some i \<and> chain rs (run_next (rs i)) is"

lemma chain_unique: "chain rs p is \<Longrightarrow> chain rs p js \<Longrightarrow> is = js"
proof (induction "is" arbitrary: p js)
  case Nil
  then show ?case by (cases js) auto
next
  case (Cons i "is")
  then show ?case by (cases js) auto
qed

lemma chain_upd [simp]: "i \<notin> set is \<Longrightarrow> chain (rs(i := r)) p is = chain rs p is"
  by (induction "is" arbitrary: p) auto

definition kinv :: "nat list \<Rightarrow> 'a mach_scheme \<Rightarrow> bool" where
  "kinv fl m \<longleftrightarrow> lock_ok m \<and> chain (runs (m_kmem m)) (freelist (m_kmem m)) fl \<and> distinct fl \<and>
     (\<forall>i \<in> set fl. i < MAXPAGES \<and> kend m \<le> page i \<and> ref_count (runs (m_kmem m) i) = 0)"

lemma kinvD:
  assumes "kinv fl m"
  shows "lock_ok m" "chain (runs (m_kmem m)) (freelist (m_kmem m)) fl" "distinct fl"
    "i \<in> set fl \<Longrightarrow> i < MAXPAGES" "i \<in> set fl \<Longrightarrow> kend m \<le> page i"
    "i \<in> set fl \<Longrightarrow> ref_count (runs (m_kmem m) i) = 0"
  using assms by (auto simp: kinv_def)

lemmas run_upd_defs = upd_run_def zeroRefCountRun_def inclRefCountRun_def declRefCountRun_def push_run_def

text \<open>\<open>same_rest m m'\<close>: the two states differ in locks, counts and the list only.\<close>

definition same_rest :: "'a mach_scheme \<Rightarrow> 'a mach_scheme \<Rightarrow> bool" where
  "same_rest m m' \<longleftrightarrow> (\<exists>s k. m' = m\<lparr>m_smp := s, m_kmem := k\<rparr> \<and> use_lock k = use_lock (m_kmem m))"

lemma same_restD:
  assumes "same_rest m m'"
  shows "m_mem m' = m_mem m" "kend m' = kend m" "use_lock (m_kmem m') = use_lock (m_kmem m)"
    "mach.more m' = mach.more m"
  using assms by (auto simp: same_rest_def)

lemma same_restI: "use_lock k = use_lock (m_kmem m) \<Longrightarrow> same_rest m (m\<lparr>m_smp := s, m_kmem := k\<rparr>)"
  unfolding same_rest_def by blast

lemma kalloc_none:
  assumes "kinv [] m"
  shows "\<exists>m'. kalloc m = ok (m', 0) \<and> kinv [] m' \<and> runs (m_kmem m') = runs (m_kmem m) \<and> same_rest m m'"
proof -
  obtain s l s' l' where "critical m s l s' l'"
    using kmem_critical [OF kinvD(1) [OF assms]] by blast
  note crit = criticalD [OF this]
  have "freelist (m_kmem m) = None" using assms by (simp add: kinv_def)
  with crit(1) crit(2,3) [of "set_lk s l m"]
  have "kalloc m = ok (set_lk s' l' m, 0)" "lock_ok (set_lk s' l' m)"
    by (simp_all add: kalloc_def pop_run_def)
  with assms show ?thesis by (auto simp: kinv_def intro!: same_restI)
qed

lemma kalloc_some:
  assumes "kinv (i # fl) m"
  shows "\<exists>m'. kalloc m = ok (m', page i) \<and> kinv fl m' \<and> same_rest m m' \<and>
    runs (m_kmem m') = (runs (m_kmem m))(i := (runs (m_kmem m) i)\<lparr>ref_count := 1\<rparr>)"
proof -
  obtain s l s' l' where "critical m s l s' l'"
    using kmem_critical [OF kinvD(1) [OF assms]] by blast
  note crit = criticalD [OF this]
  let ?k = "m_kmem m"
  let ?m1 = "m\<lparr>m_smp := s, m_kmem := ?k\<lparr>km_lock := l, freelist := run_next (runs ?k i),
    runs := (runs ?k)(i := (runs ?k i)\<lparr>ref_count := 1\<rparr>)\<rparr>\<rparr>"
  have fl: "freelist ?k = Some i" "i < MAXPAGES" using assms by (auto simp: kinv_def)
  then have pop: "pop_run (set_lk s l m) = ok (?m1, Some i)"
    by (simp add: pop_run_def run_upd_defs Let_def)
  have r: "kmem_release ?m1 = ok (set_lk s' l' ?m1)" "lock_ok (set_lk s' l' ?m1)"
    using crit(2,3) [of ?m1] by simp_all
  have k: "kalloc m = ok (set_lk s' l' ?m1, page i)"
    using crit(1) pop r by (simp add: kalloc_def page_def)
  have c: "chain ((runs ?k)(i := (runs ?k i)\<lparr>ref_count := 1\<rparr>)) (run_next (runs ?k i)) fl"
    using assms by (simp add: kinv_def)
  have "kinv fl (set_lk s' l' ?m1)"
    unfolding kinv_def using r(2) c assms by (auto simp: kinv_def)
  with k show ?thesis by (auto intro!: same_restI)
qed

text \<open>Putting the page back, the common part of \<open>kfree\<close> and \<open>kfree2\<close>.\<close>

lemma run_eq: "r\<lparr>run_next := n, ref_count := c\<rparr> = \<lparr>ref_count = c, run_next = n\<rparr>"
  by (cases r) simp

lemma push_release:
  assumes "lock_ok m" and "critical m s l s' l'" and "kinv fl m"
    and "i < MAXPAGES" and "kend m \<le> page i" and "i \<notin> set fl"
  shows "\<exists>m'. kmem_release (zeroRefCountRun i (push_run i (set_lk s l m))) = ok m' \<and>
    kinv (i # fl) m' \<and> same_rest m m' \<and>
    runs (m_kmem m') = (runs (m_kmem m))(i := \<lparr>ref_count = 0, run_next = freelist (m_kmem m)\<rparr>)"
proof -
  let ?k = "m_kmem m"
  let ?rs = "(runs ?k)(i := \<lparr>ref_count = 0, run_next = freelist ?k\<rparr>)"
  let ?m1 = "m\<lparr>m_smp := s, m_kmem := ?k\<lparr>km_lock := l, freelist := Some i, runs := ?rs\<rparr>\<rparr>"
  have p: "zeroRefCountRun i (push_run i (set_lk s l m)) = ?m1"
    by (simp add: run_upd_defs Let_def run_eq)
  have r: "kmem_release ?m1 = ok (set_lk s' l' ?m1)" "lock_ok (set_lk s' l' ?m1)"
    using criticalD(2,3) [OF assms(2), of ?m1] by simp_all
  have "chain ?rs (freelist ?k) fl"
    using assms by (simp add: kinv_def)
  then have "kinv (i # fl) (set_lk s' l' ?m1)"
    unfolding kinv_def using r(2) assms by (auto simp: kinv_def)
  with p r show ?thesis by (auto intro!: same_restI)
qed

lemma lock_ok_mem [simp]: "lock_ok (m\<lparr>m_mem := x\<rparr>) = lock_ok m"
  by (simp add: lock_ok_def)

lemma kinv_mem [simp]: "kinv fl (m\<lparr>m_mem := x\<rparr>) = kinv fl m"
  by (simp add: kinv_def)

lemma bad_page_mem [simp]: "bad_page (m\<lparr>m_mem := x\<rparr>) v = bad_page m v"
  by (simp add: bad_page_def)

lemma kfree2_ok:
  assumes "kinv fl m" and "i < MAXPAGES" and "kend m \<le> page i" and "i \<notin> set fl"
  shows "\<exists>m'. kfree2 m (page i) = ok m' \<and> kinv (i # fl) m' \<and>
    same_rest (m\<lparr>m_mem := memset (m_mem m) (page i) 1 PGSIZE\<rparr>) m' \<and>
    runs (m_kmem m') = (runs (m_kmem m))(i := \<lparr>ref_count = 0, run_next = freelist (m_kmem m)\<rparr>)"
proof -
  let ?m = "m\<lparr>m_mem := memset (m_mem m) (page i) 1 PGSIZE\<rparr>"
  have inv: "kinv fl ?m" using assms(1) by simp
  then obtain s l s' l' where c: "critical ?m s l s' l'" using kmem_critical kinvD(1) by blast
  have "\<exists>m'. kmem_release (zeroRefCountRun i (push_run i (set_lk s l ?m))) = ok m' \<and>
    kinv (i # fl) m' \<and> same_rest ?m m' \<and>
    runs (m_kmem m') = (runs (m_kmem m))(i := \<lparr>ref_count = 0, run_next = freelist (m_kmem m)\<rparr>)"
    using push_release [OF kinvD(1) [OF inv] c inv assms(2) _ assms(4)] assms(3) by simp
  then show ?thesis
    using criticalD(1) [OF c] assms by (auto simp: kfree2_def bad_page_page Let_def)
qed

lemma kfree_ok:
  assumes "kinv fl m" and "i < MAXPAGES" and "kend m \<le> page i"
    and "ref_count (runs (m_kmem m) i) = 1"
  shows "\<exists>m'. kfree m (page i) = ok m' \<and> kinv (i # fl) m' \<and>
    same_rest (m\<lparr>m_mem := memset (m_mem m) (page i) 1 PGSIZE\<rparr>) m' \<and>
    runs (m_kmem m') = (runs (m_kmem m))(i := \<lparr>ref_count = 0, run_next = freelist (m_kmem m)\<rparr>)"
proof -
  let ?m = "m\<lparr>m_mem := memset (m_mem m) (page i) 1 PGSIZE\<rparr>"
  have inv: "kinv fl ?m" using assms(1) by simp
  then obtain s l s' l' where c: "critical ?m s l s' l'" using kmem_critical kinvD(1) by blast
  have "i \<notin> set fl" using kinvD(6) [OF assms(1)] assms(4) by fastforce
  then have "\<exists>m'. kmem_release (zeroRefCountRun i (push_run i (set_lk s l ?m))) = ok m' \<and>
    kinv (i # fl) m' \<and> same_rest ?m m' \<and>
    runs (m_kmem m') = (runs (m_kmem m))(i := \<lparr>ref_count = 0, run_next = freelist (m_kmem m)\<rparr>)"
    using push_release [OF kinvD(1) [OF inv] c inv assms(2)] assms(3) by simp
  then show ?thesis
    using criticalD(1) [OF c] assms by (auto simp: kfree_def bad_page_page Let_def)
qed

lemma kfree_stops:
  assumes "kinv fl m"
    and "bad_page m v \<or> ref_count (runs (m_kmem m) (page_index v)) \<noteq> 1"
  shows "\<exists>msg. kfree m v = panic msg"
proof (cases "bad_page m v")
  case False
  let ?m = "m\<lparr>m_mem := memset (m_mem m) v 1 PGSIZE\<rparr>"
  obtain s l s' l' where c: "critical ?m s l s' l'"
    using kmem_critical kinvD(1) [OF assms(1)] lock_ok_mem by blast
  obtain i where "i < MAXPAGES" "v = page i" by (rule good_page_cases [OF False])
  with False assms(2) criticalD(1) [OF c] show ?thesis by (simp add: kfree_def Let_def)
qed (simp add: kfree_def)

text \<open>Changing the count of a page that is not on the free list.\<close>

lemma count_update:
  assumes "kinv fl m" and "i < MAXPAGES" and "i \<notin> set fl"
  defines "m' \<equiv> \<lambda>c s' l'. set_lk s' l' (upd_run i (\<lambda>x. x\<lparr>ref_count := c x\<rparr>) m)"
  assumes "critical m s l s' l'"
  shows "kmem_release (upd_run i (\<lambda>x. x\<lparr>ref_count := c x\<rparr>) (set_lk s l m)) = ok (m' c s' l')"
    "kinv fl (m' c s' l')" "same_rest m (m' c s' l')"
    "runs (m_kmem (m' c s' l')) =
      (runs (m_kmem m))(i := (runs (m_kmem m) i)\<lparr>ref_count := c (runs (m_kmem m) i)\<rparr>)"
proof -
  let ?k = "m_kmem m"
  let ?rs = "(runs ?k)(i := (runs ?k i)\<lparr>ref_count := c (runs ?k i)\<rparr>)"
  let ?m1 = "m\<lparr>m_smp := s, m_kmem := ?k\<lparr>km_lock := l, runs := ?rs\<rparr>\<rparr>"
  have p: "upd_run i (\<lambda>x. x\<lparr>ref_count := c x\<rparr>) (set_lk s l m) = ?m1"
    by (simp add: run_upd_defs)
  have m': "m' c s' l' = set_lk s' l' ?m1" by (simp add: m'_def run_upd_defs)
  show "kmem_release (upd_run i (\<lambda>x. x\<lparr>ref_count := c x\<rparr>) (set_lk s l m)) = ok (m' c s' l')"
    unfolding p m' using criticalD(2) [OF assms(5), of ?m1] by simp
  have "lock_ok (set_lk s' l' ?m1)" using criticalD(3) [OF assms(5), of ?m1] by simp
  moreover have "chain ?rs (freelist ?k) fl"
    using assms by (simp add: kinv_def)
  ultimately show "kinv fl (m' c s' l')"
    unfolding m' using assms by (auto simp: kinv_def)
  show "same_rest m (m' c s' l')" unfolding m' by (auto intro!: same_restI)
  show "runs (m_kmem (m' c s' l')) = ?rs" by (simp add: m')
qed

lemma inclRefCount_ok:
  assumes "kinv fl m" and "i < MAXPAGES" and "i \<notin> set fl"
  shows "\<exists>m'. inclRefCount m (page i) = ok m' \<and> kinv fl m' \<and> same_rest m m' \<and>
    runs (m_kmem m') = (runs (m_kmem m))
      (i := (runs (m_kmem m) i)\<lparr>ref_count := ref_count (runs (m_kmem m) i) + 1\<rparr>)"
proof -
  obtain s l s' l' where c: "critical m s l s' l'" using kmem_critical kinvD(1) assms(1) by blast
  with count_update [OF assms c, of "\<lambda>x. ref_count x + 1"] criticalD(1) [OF c] assms(2)
  show ?thesis by (simp add: inclRefCount_def inclRefCountRun_def)
qed

lemma declRefCount_ok:
  assumes "kinv fl m" and "i < MAXPAGES" and "i \<notin> set fl"
  shows "\<exists>m'. declRefCount m (page i) = ok m' \<and> kinv fl m' \<and> same_rest m m' \<and>
    runs (m_kmem m') = (runs (m_kmem m))
      (i := (runs (m_kmem m) i)\<lparr>ref_count := ref_count (runs (m_kmem m) i) - 1\<rparr>)"
proof -
  obtain s l s' l' where c: "critical m s l s' l'" using kmem_critical kinvD(1) assms(1) by blast
  with count_update [OF assms c, of "\<lambda>x. ref_count x - 1"] criticalD(1) [OF c] assms(2)
  show ?thesis by (simp add: declRefCount_def declRefCountRun_def)
qed

lemma getRefCount_ok:
  assumes "kinv fl m" and "i < MAXPAGES"
  shows "\<exists>m'. getRefCount m (page i) = ok (m', ref_count (runs (m_kmem m) i)) \<and> kinv fl m' \<and>
    same_rest m m' \<and> runs (m_kmem m') = runs (m_kmem m)"
proof -
  obtain s l s' l' where c: "critical m s l s' l'" using kmem_critical kinvD(1) assms(1) by blast
  with criticalD(1) [OF c] criticalD(2,3) [OF c, of "set_lk s l m"] assms
  show ?thesis by (auto simp: getRefCount_def kinv_def intro!: same_restI)
qed

section \<open>What the allocator promises\<close>

text \<open>
  The abstract state of a page allocator: the set of free pages, the reference count of
  each page and the contents of memory.
\<close>

locale page_allocator =
  fixes alloc :: "'s \<Rightarrow> ('s \<times> u32) outcome"
    and dealloc :: "'s \<Rightarrow> u32 \<Rightarrow> 's outcome"
    and incr :: "'s \<Rightarrow> u32 \<Rightarrow> 's outcome"
    and decr :: "'s \<Rightarrow> u32 \<Rightarrow> 's outcome"
    and count :: "'s \<Rightarrow> u32 \<Rightarrow> ('s \<times> u32) outcome"
    and inv :: "'s \<Rightarrow> bool"
    and usable :: "'s \<Rightarrow> u32 set"
    and frees :: "'s \<Rightarrow> u32 set"
    and refs :: "'s \<Rightarrow> u32 \<Rightarrow> u32"
    and contents :: "'s \<Rightarrow> memory"
  assumes free_page: "inv s \<Longrightarrow> v \<in> frees s \<Longrightarrow> v \<in> usable s \<and> v \<noteq> 0 \<and> refs s v = 0"
    and finite_frees: "inv s \<Longrightarrow> finite (frees s)"
    and alloc_none: "inv s \<Longrightarrow> frees s = {} \<Longrightarrow>
      \<exists>s'. alloc s = ok (s', 0) \<and> inv s' \<and> frees s' = {} \<and> usable s' = usable s \<and>
        refs s' = refs s \<and> contents s' = contents s"
    and alloc_some: "inv s \<Longrightarrow> frees s \<noteq> {} \<Longrightarrow>
      \<exists>s' v. alloc s = ok (s', v) \<and> v \<in> frees s \<and> inv s' \<and> frees s' = frees s - {v} \<and>
        usable s' = usable s \<and> refs s' = (refs s)(v := 1) \<and> contents s' = contents s"
    and dealloc_ok: "inv s \<Longrightarrow> v \<in> usable s \<Longrightarrow> refs s v = 1 \<Longrightarrow>
      \<exists>s'. dealloc s v = ok s' \<and> inv s' \<and> frees s' = insert v (frees s) \<and>
        usable s' = usable s \<and> refs s' = (refs s)(v := 0) \<and>
        contents s' = (\<lambda>x. if in_bytes v 4096 x then 1 else contents s x)"
    and dealloc_stops: "inv s \<Longrightarrow> v \<notin> usable s \<or> refs s v \<noteq> 1 \<Longrightarrow> \<exists>msg. dealloc s v = panic msg"
    and incr_ok: "inv s \<Longrightarrow> v \<in> usable s \<Longrightarrow> v \<notin> frees s \<Longrightarrow>
      \<exists>s'. incr s v = ok s' \<and> inv s' \<and> frees s' = frees s \<and> usable s' = usable s \<and>
        refs s' = (refs s)(v := refs s v + 1) \<and> contents s' = contents s"
    and decr_ok: "inv s \<Longrightarrow> v \<in> usable s \<Longrightarrow> v \<notin> frees s \<Longrightarrow>
      \<exists>s'. decr s v = ok s' \<and> inv s' \<and> frees s' = frees s \<and> usable s' = usable s \<and>
        refs s' = (refs s)(v := refs s v - 1) \<and> contents s' = contents s"
    and count_ok: "inv s \<Longrightarrow> v \<in> usable s \<Longrightarrow>
      \<exists>s'. count s v = ok (s', refs s v) \<and> inv s' \<and> frees s' = frees s \<and> usable s' = usable s \<and>
        refs s' = refs s \<and> contents s' = contents s"
begin

text \<open>Two pages allocated one after the other are different and none of them is free.\<close>

lemma alloc_twice:
  assumes "inv s" and "alloc s = ok (s1, v1)" and "v1 \<noteq> 0"
    and "alloc s1 = ok (s2, v2)" and "v2 \<noteq> 0"
  shows "v1 \<noteq> v2 \<and> v1 \<in> frees s \<and> v2 \<in> frees s \<and> frees s2 = frees s - {v1, v2}"
proof -
  have ne: "frees s \<noteq> {}" using alloc_none [OF assms(1)] assms(2,3) by auto
  then have 1: "v1 \<in> frees s" "inv s1" "frees s1 = frees s - {v1}"
    using alloc_some [OF assms(1)] assms(2) by auto
  then have "frees s1 \<noteq> {}" using alloc_none [of s1] assms(4,5) by auto
  then have "v2 \<in> frees s1" "frees s2 = frees s1 - {v2}"
    using alloc_some [OF 1(2)] assms(4) by auto
  with 1 show ?thesis by auto
qed

text \<open>A page just allocated can be freed; the free pages are then as before.\<close>

lemma alloc_dealloc:
  assumes "inv s" and "frees s \<noteq> {}"
  shows "\<exists>s1 v s2. alloc s = ok (s1, v) \<and> dealloc s1 v = ok s2 \<and> inv s2 \<and> frees s2 = frees s \<and>
    refs s2 = refs s"
proof -
  obtain s1 v where 1: "alloc s = ok (s1, v)" "v \<in> frees s" "inv s1" "frees s1 = frees s - {v}"
    "usable s1 = usable s" "refs s1 = (refs s)(v := 1)"
    using alloc_some [OF assms] by blast
  have u: "v \<in> usable s" "refs s v = 0" using free_page [OF assms(1) 1(2)] by auto
  then obtain s2 where "dealloc s1 v = ok s2" "inv s2" "frees s2 = insert v (frees s1)"
    "refs s2 = (refs s1)(v := 0)"
    using dealloc_ok [OF 1(3), of v] 1 by auto
  with 1 u show ?thesis by (auto simp: fun_eq_iff)
qed

text \<open>Freeing a page twice, or a page that is shared, stops the kernel.\<close>

lemma dealloc_twice:
  assumes "inv s" and "dealloc s v = ok s1"
  shows "\<exists>msg. dealloc s1 v = panic msg"
proof -
  have "v \<in> usable s" "refs s v = 1" using dealloc_stops [OF assms(1), of v] assms(2) by auto
  then have "inv s1" "refs s1 v = 0" using dealloc_ok [OF assms(1), of v] assms(2) by auto
  then show ?thesis using dealloc_stops [of s1 v] by auto
qed

lemma dealloc_shared:
  assumes "inv s" and "v \<in> usable s" and "v \<notin> frees s" and "refs s v = 1"
  shows "\<exists>s1 msg. incr s v = ok s1 \<and> dealloc s1 v = panic msg"
proof -
  obtain s1 where "incr s v = ok s1" "inv s1" "refs s1 v = 2"
    using incr_ok [OF assms(1-3)] assms(4) by auto
  then show ?thesis using dealloc_stops [of s1 v] by auto
qed

end

section \<open>The code keeps the promise\<close>

definition alloc_inv :: "'a mach_scheme \<Rightarrow> bool" where
  "alloc_inv m \<longleftrightarrow> (\<exists>fl. kinv fl m)"

definition usable_pages :: "'a mach_scheme \<Rightarrow> u32 set" where
  "usable_pages m = {v. \<not> bad_page m v}"

definition free_pages :: "'a mach_scheme \<Rightarrow> u32 set" where
  "free_pages m = {page i | i fl. chain (runs (m_kmem m)) (freelist (m_kmem m)) fl \<and> i \<in> set fl}"

definition refs :: "'a mach_scheme \<Rightarrow> u32 \<Rightarrow> u32" where
  "refs m v = (if bad_page m v then 0 else ref_count (runs (m_kmem m) (page_index v)))"

lemma free_pages_eq: "kinv fl m \<Longrightarrow> free_pages m = page ` set fl"
  unfolding free_pages_def using chain_unique kinvD(2) by blast

lemma usable_rest: "same_rest m m' \<Longrightarrow> usable_pages m' = usable_pages m"
  by (auto simp: usable_pages_def bad_page_def same_restD)

lemma bad_page_rest: "same_rest m m' \<Longrightarrow> bad_page m' v = bad_page m v"
  by (auto simp: bad_page_def same_restD)

lemma refs_upd:
  assumes "same_rest m m'" and "i < MAXPAGES" and "kend m \<le> page i"
    and "runs (m_kmem m') = (runs (m_kmem m))(i := r)"
  shows "refs m' = (refs m)(page i := ref_count r)"
proof
  fix v
  note rest = bad_page_rest [OF assms(1)]
  show "refs m' v = ((refs m)(page i := ref_count r)) v"
  proof (cases "bad_page m v")
    case True
    moreover have "v \<noteq> page i" using True bad_page_page [OF assms(2), of m] assms(3) by auto
    ultimately show ?thesis by (simp add: refs_def rest)
  next
    case False
    then obtain j where j: "j < MAXPAGES" "v = page j" by (rule good_page_cases)
    have "page j = page i \<longleftrightarrow> j = i" using page_inj assms(2) j(1) by blast
    with False j show ?thesis by (simp add: refs_def rest assms(4))
  qed
qed

lemma refs_same: "same_rest m m' \<Longrightarrow> runs (m_kmem m') = runs (m_kmem m) \<Longrightarrow> refs m' = refs m"
  by (rule ext) (simp add: refs_def bad_page_rest)

lemma page_image_diff:
  "i < MAXPAGES \<Longrightarrow> (\<And>j. j \<in> S \<Longrightarrow> j < MAXPAGES) \<Longrightarrow> i \<notin> S \<Longrightarrow> page ` insert i S - {page i} = page ` S"
  using page_inj by blast

lemma usable_cases:
  assumes "v \<in> usable_pages m"
  obtains i where "i < MAXPAGES" "v = page i" "kend m \<le> page i"
proof -
  have "\<not> bad_page m v" using assms by (simp add: usable_pages_def)
  then show ?thesis using that by (rule good_page_cases)
qed

lemma not_free_index: "kinv fl m \<Longrightarrow> page i \<notin> free_pages m \<Longrightarrow> i \<notin> set fl"
  by (auto simp: free_pages_eq)

lemma refs_page: "i < MAXPAGES \<Longrightarrow> kend m \<le> page i \<Longrightarrow> refs m (page i) = ref_count (runs (m_kmem m) i)"
  using bad_page_page [of i m] by (simp add: refs_def linorder_not_less [symmetric])

lemma count_refines:
  assumes inv: "kinv fl s" and i: "i < MAXPAGES" "kend s \<le> page i"
    and ex: "\<exists>m'. res = ok m' \<and> kinv fl m' \<and> same_rest s m' \<and> runs (m_kmem m') = (runs (m_kmem s))(i := r)"
  shows "\<exists>s'. res = ok s' \<and> alloc_inv s' \<and> free_pages s' = free_pages s \<and>
    usable_pages s' = usable_pages s \<and> refs s' = (refs s)(page i := ref_count r) \<and> m_mem s' = m_mem s"
proof -
  obtain m' where m': "res = ok m'" "kinv fl m'" "same_rest s m'" "runs (m_kmem m') = (runs (m_kmem s))(i := r)"
    using ex by blast
  moreover have "alloc_inv m'" using m'(2) unfolding alloc_inv_def by blast
  ultimately show ?thesis
    using refs_upd [OF m'(3) i m'(4)] free_pages_eq [OF inv] free_pages_eq [OF m'(2)]
      usable_rest [OF m'(3)] same_restD(1) [OF m'(3)] by simp
qed

interpretation km: page_allocator kalloc kfree inclRefCount declRefCount getRefCount
  alloc_inv usable_pages free_pages refs m_mem
proof (unfold_locales, goal_cases)
  case (1 s v)
  then obtain fl i where "kinv fl s" "i \<in> set fl" "v = page i"
    unfolding alloc_inv_def by (auto simp: free_pages_eq)
  with kinvD(4-6) [of fl s i] page_valid [of i] bad_page_page [of i s] show ?case
    by (auto simp: usable_pages_def refs_def)
next
  case (2 s)
  then show ?case unfolding alloc_inv_def by (auto simp: free_pages_eq)
next
  case (3 s)
  then have "kinv [] s" unfolding alloc_inv_def by (auto simp: free_pages_eq)
  then obtain m' where "kalloc s = ok (m', 0)" and inv: "kinv [] m'"
    and "runs (m_kmem m') = runs (m_kmem s)" "same_rest s m'"
    using kalloc_none by blast
  moreover have "free_pages m' = {}" using free_pages_eq [OF inv] by simp
  moreover have "alloc_inv m'" using inv unfolding alloc_inv_def by blast
  ultimately show ?case by (auto simp: usable_rest refs_same same_restD)
next
  case (4 s)
  then obtain i fl where inv: "kinv (i # fl) s"
    unfolding alloc_inv_def by (metis free_pages_eq image_is_empty list.exhaust set_empty)
  then obtain m' where "kalloc s = ok (m', page i)" "kinv fl m'" "same_rest s m'"
    "runs (m_kmem m') = (runs (m_kmem s))(i := (runs (m_kmem s) i)\<lparr>ref_count := 1\<rparr>)"
    using kalloc_some by blast
  moreover have "i < MAXPAGES" "kend s \<le> page i" "i \<notin> set fl" "\<And>j. j \<in> set fl \<Longrightarrow> j < MAXPAGES"
    using inv by (auto simp: kinv_def)
  ultimately show ?case
    using refs_upd [of s m' i] page_image_diff [of i "set fl"]
    by (auto simp: alloc_inv_def usable_rest same_restD free_pages_eq [OF inv] free_pages_eq [of fl])
next
  case (5 s v)
  then obtain fl where inv: "kinv fl s" unfolding alloc_inv_def by blast
  obtain i where i: "i < MAXPAGES" "v = page i" "kend s \<le> page i" using 5(2) by (rule usable_cases)
  have one: "ref_count (runs (m_kmem s) i) = 1"
    using 5 i bad_page_page [of i s] by (simp add: refs_def usable_pages_def)
  let ?s = "s\<lparr>m_mem := memset (m_mem s) (page i) 1 PGSIZE\<rparr>"
  obtain m' where m': "kfree s (page i) = ok m'" "kinv (i # fl) m'" "same_rest ?s m'"
    "runs (m_kmem m') = (runs (m_kmem s))(i := \<lparr>ref_count = 0, run_next = freelist (m_kmem s)\<rparr>)"
    using kfree_ok [OF inv i(1,3) one] by blast
  have "refs m' = (refs ?s)(page i := 0)"
    using refs_upd [OF m'(3) i(1), of "\<lparr>ref_count = 0, run_next = freelist (m_kmem s)\<rparr>"] m'(4) i(3) by simp
  moreover have "refs ?s = refs s" by (rule ext) (simp add: refs_def)
  moreover have "usable_pages m' = usable_pages s"
    using usable_rest [OF m'(3)] by (simp add: usable_pages_def)
  moreover have "m_mem m' = (\<lambda>x. if in_bytes (page i) 4096 x then 1 else m_mem s x)"
    using same_restD(1) [OF m'(3)] by (auto simp: memset_apply)
  ultimately show ?case
    using m' i(2) by (auto simp: alloc_inv_def free_pages_eq [OF inv] free_pages_eq [OF m'(2)])
next
  case (6 s v)
  then show ?case
    using kfree_stops [of _ s v] by (auto simp: alloc_inv_def usable_pages_def refs_def split: if_splits)
next
  case (7 s v)
  then obtain fl where inv: "kinv fl s" unfolding alloc_inv_def by blast
  obtain i where i: "i < MAXPAGES" "v = page i" "kend s \<le> page i" using 7(2) by (rule usable_cases)
  have "refs s v = ref_count (runs (m_kmem s) i)"
    using i by (simp add: refs_page)
  moreover have "i \<notin> set fl" using 7(3) i(2) not_free_index [OF inv] by simp
  ultimately show ?case
    using count_refines [OF inv i(1,3) inclRefCount_ok [OF inv i(1)]] i(2) by simp
next
  case (8 s v)
  then obtain fl where inv: "kinv fl s" unfolding alloc_inv_def by blast
  obtain i where i: "i < MAXPAGES" "v = page i" "kend s \<le> page i" using 8(2) by (rule usable_cases)
  have "refs s v = ref_count (runs (m_kmem s) i)"
    using i by (simp add: refs_page)
  moreover have "i \<notin> set fl" using 8(3) i(2) not_free_index [OF inv] by simp
  ultimately show ?case
    using count_refines [OF inv i(1,3) declRefCount_ok [OF inv i(1)]] i(2) by simp
next
  case (9 s v)
  then obtain fl where inv: "kinv fl s" unfolding alloc_inv_def by blast
  obtain i where i: "i < MAXPAGES" "v = page i" "kend s \<le> page i" using 9(2) by (rule usable_cases)
  obtain m' where m': "getRefCount s v = ok (m', ref_count (runs (m_kmem s) i))" "kinv fl m'"
    "same_rest s m'" "runs (m_kmem m') = runs (m_kmem s)"
    using getRefCount_ok [OF inv i(1)] i(2) by blast
  moreover have "refs s v = ref_count (runs (m_kmem s) i)"
    using i by (simp add: refs_page)
  moreover have "alloc_inv m'" using m'(2) unfolding alloc_inv_def by blast
  ultimately show ?case
    using refs_same [OF m'(3,4)] free_pages_eq [OF inv] free_pages_eq [OF m'(2)]
      usable_rest [OF m'(3)] same_restD(1) [OF m'(3)] by simp
qed

section \<open>Start-up\<close>

lemma unat_page: "i \<le> Suc MAXPAGES \<Longrightarrow> unat (page i) = 0x80000000 + i * 4096"
  by (simp add: page_def P2V_def unat_word_ariths unat_of_nat_u32 MAXPAGES_eq)

lemma page_Suc: "page i + PGSIZE = page (Suc i)"
  by (simp add: page_def P2V_def algebra_simps)

lemma page_mono: "i \<le> j \<Longrightarrow> j \<le> MAXPAGES \<Longrightarrow> page i \<le> page j"
  by (simp add: word_le_nat_alt unat_page)

lemma ceil_page_le: "(n + 4095) div 4096 \<le> i \<longleftrightarrow> n \<le> i * 4096" for n i :: nat
  using less_eq_div_iff_mult_less_eq [of 4096 "Suc i" "n + 4095"] by (simp add: not_less_eq_eq [symmetric])

lemma floor_page_gt: "i < n div 4096 \<longleftrightarrow> i * 4096 + 4096 \<le> n" for n i :: nat
  using less_eq_div_iff_mult_less_eq [of 4096 "Suc i" n] by (simp add: Suc_le_eq add.commute)

lemma freerange_loop_pages:
  assumes "kinv fl m" and "a \<le> MAXPAGES" and "kend m \<le> page a"
    and "0x80000000 \<le> unat vend" and "unat vend \<le> unat (page MAXPAGES)"
    and "b = (unat vend - 0x80000000) div 4096" and "{a..<b} \<inter> set fl = {}"
  shows "\<exists>m' fl'. freerange_loop m (page a) vend = ok m' \<and> kinv fl' m' \<and>
    set fl' = set fl \<union> {a..<b} \<and> kend m' = kend m"
  using assms(1-3,7)
proof (induction "b - a" arbitrary: a m fl)
  case go: 0
  have "page a + PGSIZE \<le> vend \<longleftrightarrow> a < b"
    using assms(4-6) go.prems(2) by (simp add: page_Suc word_le_nat_alt unat_page floor_page_gt) linarith
  with go show ?case by (subst freerange_loop.simps) auto
next
  case (Suc d)
  have bM: "b \<le> MAXPAGES" using assms(5,6) by (simp add: unat_page MAXPAGES_eq)
  then have ab: "a < b" "a < MAXPAGES" using Suc by auto
  have go: "page a + PGSIZE \<le> vend"
    using assms(4-6) ab by (simp add: page_Suc word_le_nat_alt unat_page floor_page_gt)
  have "a \<notin> set fl" using Suc.prems(4) ab by auto
  then obtain m1 where m1: "kfree2 m (page a) = ok m1" "kinv (a # fl) m1"
    "same_rest (m\<lparr>m_mem := memset (m_mem m) (page a) 1 PGSIZE\<rparr>) m1"
    using kfree2_ok [OF Suc.prems(1) ab(2) Suc.prems(3)] by blast
  have kend: "kend m1 = kend m" using same_restD(2) [OF m1(3)] by simp
  have "page a \<le> page (Suc a)" using ab by (intro page_mono) auto
  moreover have "{Suc a..<b} \<inter> set (a # fl) = {}" using Suc.prems(4) by (auto simp: disjoint_iff)
  ultimately have "\<exists>m' fl'. freerange_loop m1 (page (Suc a)) vend = ok m' \<and> kinv fl' m' \<and>
    set fl' = set (a # fl) \<union> {Suc a..<b} \<and> kend m' = kend m1"
    using Suc.prems Suc.hyps(2) ab m1(2) kend by (intro Suc.hyps(1)) auto
  moreover have "set (a # fl) \<union> {Suc a..<b} = set fl \<union> {a..<b}" using ab by auto
  ultimately show ?case using m1(1) go kend by (subst freerange_loop.simps) (auto simp: page_Suc)
qed

lemma kfree2_unlocked:
  assumes "kfree2 m v = ok m'" and "\<not> use_lock (m_kmem m)"
  shows "m_smp m' = m_smp m \<and> km_lock (m_kmem m') = km_lock (m_kmem m) \<and> \<not> use_lock (m_kmem m')"
  using assms
  by (auto simp: kfree2_def kmem_acquire_def kmem_release_def run_upd_defs bnd_eq_Inr Let_def
      split: if_splits)

lemma freerange_loop_unlocked:
  assumes "freerange_loop m p vend = ok m'" and "\<not> use_lock (m_kmem m)"
  shows "m_smp m' = m_smp m \<and> km_lock (m_kmem m') = km_lock (m_kmem m) \<and> \<not> use_lock (m_kmem m')"
  using assms
proof (induction m p vend rule: freerange_loop.induct)
  case (1 m p vend)
  show ?case
  proof (cases "p + PGSIZE \<le> vend")
    case True
    with 1(2) obtain m1 where m1: "kfree2 m p = ok m1" "freerange_loop m1 (p + PGSIZE) vend = ok m'"
      by (subst (asm) freerange_loop.simps) (auto simp: bnd_eq_Inr)
    with 1(1) [OF True m1] 1(3) kfree2_unlocked [OF m1(1)] show ?thesis by simp
  next
    case False
    with 1 show ?thesis by (subst (asm) (2) freerange_loop.simps) simp
  qed
qed

text \<open>The pages that lie wholly between two addresses.\<close>

definition whole_pages :: "u32 \<Rightarrow> u32 \<Rightarrow> u32 set" where
  "whole_pages vstart vend = {v. aligned v \<and> unat vstart \<le> unat v \<and> unat v + 4096 \<le> unat vend}"

lemma aligned_kernel_page:
  assumes "aligned v" and "0x80000000 \<le> unat v" and "unat v < 0x80000000 + MAXPAGES * 4096"
  obtains i where "i < MAXPAGES" "v = page i"
proof -
  have "unat (V2P v) = unat v - 0x80000000"
    using assms(2) by (simp add: V2P_def unat_sub word_le_nat_alt)
  then have "V2P v < PHYSTOP" using assms by (simp add: word_less_nat_alt MAXPAGES_eq)
  with assms(1) show ?thesis using that page_cases [of v] by (metis aligned_iff)
qed

lemma whole_pages_split:
  assumes "unat a \<le> unat b" and "aligned b" and "unat b \<le> unat c"
  shows "whole_pages a b \<union> whole_pages b c = whole_pages a c"
proof -
  have "unat v + 4096 \<le> unat b" if "aligned v" "unat v < unat b" for v
  proof -
    let ?i = "unat v div 4096" and ?j = "unat b div 4096"
    have ij: "unat v = 4096 * ?i" "unat b = 4096 * ?j"
      using that(1) assms(2) div_mult_mod_eq [of "unat v" 4096] div_mult_mod_eq [of "unat b" 4096]
      unfolding aligned_def by linarith+
    then have "Suc ?i \<le> ?j" using that(2) by linarith
    then have "4096 * Suc ?i \<le> 4096 * ?j" by (rule mult_le_mono2)
    then show ?thesis using ij unfolding mult_Suc_right by linarith
  qed
  with assms show ?thesis by (fastforce simp: whole_pages_def not_le)
qed

lemma whole_pages_index:
  assumes "0x80000000 \<le> unat vstart" and "unat vend \<le> unat (page MAXPAGES)"
  shows "whole_pages vstart vend =
    page ` {(unat vstart - 0x80000000 + 4095) div 4096..<(unat vend - 0x80000000) div 4096}"
    (is "_ = page ` {?a..<?b}")
proof -
  have b: "?b \<le> MAXPAGES" using assms(2) by (simp add: unat_page MAXPAGES_eq)
  have iff: "page i \<in> whole_pages vstart vend \<longleftrightarrow> i \<in> {?a..<?b}" if "i < MAXPAGES" for i
  proof -
    have "aligned (page i)" using page_valid(1) [OF that] by (simp only: aligned_iff)
    moreover have "unat vstart \<le> unat (page i) \<longleftrightarrow> ?a \<le> i"
      using that assms(1) by (simp add: unat_page ceil_page_le) linarith
    moreover have "unat (page i) + 4096 \<le> unat vend \<longleftrightarrow> i < ?b"
      using that by (simp add: unat_page floor_page_gt) linarith
    ultimately show ?thesis by (simp add: whole_pages_def)
  qed
  show ?thesis
  proof (intro equalityI subsetI)
    fix v assume v: "v \<in> whole_pages vstart vend"
    have "aligned v" "0x80000000 \<le> unat v" "unat v < 0x80000000 + MAXPAGES * 4096"
      using v assms by (auto simp: whole_pages_def unat_page)
    then obtain i where "i < MAXPAGES" "v = page i" by (rule aligned_kernel_page)
    with v iff show "v \<in> page ` {?a..<?b}" by blast
  next
    fix v assume "v \<in> page ` {?a..<?b}"
    with iff b show "v \<in> whole_pages vstart vend" by fastforce
  qed
qed

lemma PGROUNDUP_page:
  assumes "0x80000000 \<le> unat vstart" and "unat vstart \<le> unat (page MAXPAGES)"
  shows "PGROUNDUP vstart = page ((unat vstart - 0x80000000 + 4095) div 4096)" (is "_ = page ?a")
    and "(unat vstart - 0x80000000 + 4095) div 4096 \<le> MAXPAGES"
proof -
  show a: "?a \<le> MAXPAGES" using assms(2) by (simp add: ceil_page_le unat_page)
  have "unat (PGROUNDUP vstart) = (unat vstart + 4095) div 4096 * 4096"
    using assms(2) by (subst unat_PGROUNDUP) (simp_all add: unat_page MAXPAGES_eq)
  also have "(unat vstart + 4095) div 4096 = ?a + 524288"
    using assms(1) div_mult_self1 [of 4096 "unat vstart - 0x80000000 + 4095" 524288] by simp
  also have "(?a + 524288) * 4096 = unat (page ?a)" using a by (simp add: unat_page)
  finally show "PGROUNDUP vstart = page ?a" by (simp only: word_unat_eq_iff)
qed

lemma freerange_pages:
  assumes "alloc_inv m" and "0x80000000 \<le> unat vstart" and "unat vstart \<le> unat vend"
    and "unat vend \<le> unat (page MAXPAGES)" and "kend m \<le> vstart"
    and "free_pages m \<inter> whole_pages vstart vend = {}"
  shows "\<exists>m'. freerange m vstart vend = ok m' \<and> alloc_inv m' \<and> kend m' = kend m \<and>
    free_pages m' = free_pages m \<union> whole_pages vstart vend"
proof -
  let ?a = "(unat vstart - 0x80000000 + 4095) div 4096"
  let ?b = "(unat vend - 0x80000000) div 4096"
  obtain fl where inv: "kinv fl m" using assms(1) unfolding alloc_inv_def by blast
  note W = whole_pages_index [OF assms(2,4)]
  have le: "unat vstart \<le> unat (page MAXPAGES)" using assms(3,4) by simp
  note P = PGROUNDUP_page [OF assms(2) le]
  have "unat vstart - 0x80000000 \<le> ?a * 4096" using ceil_page_le by blast
  then have "vstart \<le> page ?a" using P(2) by (simp add: word_le_nat_alt unat_page)
  then have "kend m \<le> page ?a" using assms(5) by simp
  moreover have "{?a..<?b} \<inter> set fl = {}" using assms(6) W free_pages_eq [OF inv] by auto
  moreover have "0x80000000 \<le> unat vend" using assms(2,3) by simp
  ultimately obtain m' fl' where m': "freerange_loop m (page ?a) vend = ok m'" "kinv fl' m'"
    "set fl' = set fl \<union> {?a..<?b}" "kend m' = kend m"
    using freerange_loop_pages [OF inv P(2) _ _ assms(4) refl] by blast
  moreover have "alloc_inv m'" using m'(2) unfolding alloc_inv_def by blast
  ultimately show ?thesis
    using free_pages_eq [OF inv] free_pages_eq [OF m'(2)] W P(1)
    by (auto simp: freerange_def)
qed

lemma kinit1_pages:
  assumes "freelist (m_kmem m) = None" and "0x80000000 \<le> unat vstart" and "unat vstart \<le> unat vend"
    and "unat vend \<le> unat (page MAXPAGES)" and "kend m \<le> vstart"
  shows "\<exists>m'. kinit1 m vstart vend = ok m' \<and> alloc_inv m' \<and> kend m' = kend m \<and> m_smp m' = m_smp m \<and>
    \<not> use_lock (m_kmem m') \<and> lock_free (km_lock (m_kmem m')) \<and>
    free_pages m' = whole_pages vstart vend"
proof -
  let ?m = "m\<lparr>m_kmem := (m_kmem m)\<lparr>km_lock := initlock ''kmem'', use_lock := False\<rparr>\<rparr>"
  have inv: "kinv [] ?m" using assms(1) by (simp add: kinv_def lock_ok_def)
  then have "alloc_inv ?m" unfolding alloc_inv_def by blast
  moreover have e: "free_pages ?m = {}" using free_pages_eq [OF inv] by simp
  ultimately obtain m' where m': "freerange ?m vstart vend = ok m'" "alloc_inv m'" "kend m' = kend m"
    "free_pages m' = whole_pages vstart vend"
    using freerange_pages [of ?m vstart vend] assms by auto
  then have "m_smp m' = m_smp m \<and> km_lock (m_kmem m') = initlock ''kmem'' \<and> \<not> use_lock (m_kmem m')"
    using freerange_loop_unlocked [of ?m _ vend m'] by (simp add: freerange_def)
  with m' show ?thesis by (simp add: kinit1_def)
qed

lemma kinit2_pages:
  assumes "alloc_inv m" and "\<not> use_lock (m_kmem m)" and "cpu_is_ready (m_smp m)"
    and "lock_free (km_lock (m_kmem m))"
    and "0x80000000 \<le> unat vstart" and "unat vstart \<le> unat vend"
    and "unat vend \<le> unat (page MAXPAGES)" and "kend m \<le> vstart"
    and "free_pages m \<inter> whole_pages vstart vend = {}"
  shows "\<exists>m'. kinit2 m vstart vend = ok m' \<and> alloc_inv m' \<and> use_lock (m_kmem m') \<and>
    free_pages m' = free_pages m \<union> whole_pages vstart vend"
proof -
  obtain m1 where m1: "freerange m vstart vend = ok m1" "alloc_inv m1"
    "free_pages m1 = free_pages m \<union> whole_pages vstart vend"
    using freerange_pages [OF assms(1,5-9)] by blast
  then have u: "m_smp m1 = m_smp m \<and> km_lock (m_kmem m1) = km_lock (m_kmem m)"
    using freerange_loop_unlocked [of m _ vend m1] assms(2) by (simp add: freerange_def)
  obtain fl where fl: "kinv fl m1" using m1(2) unfolding alloc_inv_def by blast
  let ?m = "m1\<lparr>m_kmem := (m_kmem m1)\<lparr>use_lock := True\<rparr>\<rparr>"
  have "kinv fl ?m" using fl u assms(3,4) by (simp add: kinv_def lock_ok_def)
  then have "alloc_inv ?m" unfolding alloc_inv_def by blast
  moreover have "free_pages ?m = free_pages m1" by (simp add: free_pages_def)
  ultimately show ?thesis using m1 by (auto simp: kinit2_def)
qed

section \<open>Properties\<close>

text \<open>
  C3. \<open>kalloc\<close> never stops the kernel: with no free page it returns 0 and changes no page
  and no count; otherwise it returns a page that was free, takes exactly that page off the
  free list and sets its reference count to one. It never changes the contents of memory.
\<close>

theorem kalloc_spec:
  assumes "alloc_inv m"
  shows "\<exists>m' v. kalloc m = ok (m', v) \<and> alloc_inv m' \<and> m_mem m' = m_mem m \<and>
    (if free_pages m = {} then v = 0 \<and> free_pages m' = {} \<and> refs m' = refs m
     else v \<in> free_pages m \<and> v \<noteq> 0 \<and> free_pages m' = free_pages m - {v} \<and>
       refs m' = (refs m)(v := 1))"
proof (cases "free_pages m = {}")
  case True
  with km.alloc_none [OF assms] show ?thesis by auto
next
  case False
  with km.alloc_some [OF assms] km.free_page [OF assms] show ?thesis by fastforce
qed

definition m_one :: mach where
  "m_one = \<lparr>m_smp = smp0, m_kmem = \<lparr>km_lock = initlock ''kmem'', use_lock = False,
     freelist = Some 300, runs = (\<lambda>i. \<lparr>ref_count = 0, run_next = None\<rparr>)\<rparr>,
     m_mem = (\<lambda>a. 0), kend = 0x80100000\<rparr>"

lemma page300: "page 300 = 0x8012C000"
  by (simp add: page_def P2V_def)

lemma kinv_m_one: "kinv [300] m_one"
  by (simp add: kinv_def m_one_def lock_ok_def MAXPAGES_eq page300)

theorem kalloc_spec_witness:
  "\<exists>m' v. kalloc m_one = ok (m', v) \<and> v \<in> {0x8012C000} \<and> refs m' = (refs m_one)(v := 1)"
proof -
  have "alloc_inv m_one" using kinv_m_one unfolding alloc_inv_def by blast
  moreover have "free_pages m_one = {0x8012C000}" using free_pages_eq [OF kinv_m_one] by (simp add: page300)
  ultimately show ?thesis using kalloc_spec [of m_one] by auto
qed

text \<open>
  C4. \<open>kfree\<close> of a usable page whose reference count is one puts it on the free list, sets
  its count to zero and fills it with the byte 1, and changes nothing else. In every other
  case (misaligned or out of range address, page already free, page still shared) the
  kernel panics.
\<close>

theorem kfree_spec:
  assumes "alloc_inv m"
  shows "if \<not> bad_page m v \<and> refs m v = 1
    then \<exists>m'. kfree m v = ok m' \<and> alloc_inv m' \<and> free_pages m' = insert v (free_pages m) \<and>
      v \<notin> free_pages m \<and> refs m' = (refs m)(v := 0) \<and>
      m_mem m' = (\<lambda>x. if in_bytes v 4096 x then 1 else m_mem m x)
    else \<exists>msg. kfree m v = panic msg"
proof (cases "\<not> bad_page m v \<and> refs m v = 1")
  case True
  then have "v \<in> usable_pages m" by (simp add: usable_pages_def)
  moreover have "v \<notin> free_pages m" using True km.free_page [OF assms] by fastforce
  ultimately show ?thesis using True km.dealloc_ok [OF assms, of v] by auto
next
  case False
  then have "v \<notin> usable_pages m \<or> refs m v \<noteq> 1" by (auto simp: usable_pages_def)
  from km.dealloc_stops [OF assms this] False show ?thesis by (simp only: if_not_P if_False)
qed

theorem kfree_spec_witness: "\<exists>msg. kfree m_one 0x8012C000 = panic msg"
proof -
  have inv: "alloc_inv m_one" using kinv_m_one unfolding alloc_inv_def by blast
  have "refs m_one 0x8012C000 \<noteq> 1" by (simp add: refs_def m_one_def)
  then show ?thesis using kfree_spec [OF inv, of "0x8012C000"] by simp
qed

text \<open>
  C33. Start-up: \<open>kinit1\<close> on the first part of memory followed by \<open>kinit2\<close> on the rest
  returns, leaves the allocator locked from then on and in its invariant, and the free pages
  are exactly the whole pages between the two ends.
\<close>

theorem kinit_pages:
  assumes "freelist (m_kmem m) = None" and "cpu_is_ready (m_smp m)" and "kend m \<le> vstart"
    and "0x80000000 \<le> unat vstart" and "unat vstart \<le> unat mid" and "aligned mid"
    and "unat mid \<le> unat vend" and "unat vend \<le> unat (page MAXPAGES)"
  shows "\<exists>m'. bnd (kinit1 m vstart mid) (\<lambda>m. kinit2 m mid vend) = ok m' \<and> alloc_inv m' \<and>
    use_lock (m_kmem m') \<and> free_pages m' = whole_pages vstart vend"
proof -
  have "unat mid \<le> unat (page MAXPAGES)" "0x80000000 \<le> unat mid" using assms by auto
  moreover obtain m1 where m1: "kinit1 m vstart mid = ok m1" "alloc_inv m1" "kend m1 = kend m"
    "m_smp m1 = m_smp m" "\<not> use_lock (m_kmem m1)" "lock_free (km_lock (m_kmem m1))"
    "free_pages m1 = whole_pages vstart mid"
    using kinit1_pages [OF assms(1,4,5) _ assms(3)] calculation(1) by blast
  moreover have "whole_pages vstart mid \<inter> whole_pages mid vend = {}" by (auto simp: whole_pages_def)
  moreover have "kend m \<le> mid" using assms(3,5) by (simp add: word_le_nat_alt)
  ultimately obtain m' where "kinit2 m1 mid vend = ok m'" "alloc_inv m'" "use_lock (m_kmem m')"
    "free_pages m' = whole_pages vstart mid \<union> whole_pages mid vend"
    using kinit2_pages [of m1 mid vend] assms by auto
  moreover have "whole_pages vstart mid \<union> whole_pages mid vend = whole_pages vstart vend"
    using whole_pages_split assms(5-7) by blast
  ultimately show ?thesis using m1(1) by auto
qed

theorem kinit_pages_witness:
  "\<exists>m'. bnd (kinit1 (m_one\<lparr>m_kmem := (m_kmem m_one)\<lparr>freelist := None\<rparr>\<rparr>) 0x80100001 0x80400000)
     (\<lambda>m. kinit2 m 0x80400000 0x8E000000) = ok m' \<and>
   free_pages m' = whole_pages 0x80100001 0x8E000000"
proof -
  have "cpu_is_ready (m_smp m_one)" by (simp add: m_one_def cpu_is_ready_def cpu_ready_def smp0_def cpu0_def)
  then show ?thesis
    using kinit_pages [of "m_one\<lparr>m_kmem := (m_kmem m_one)\<lparr>freelist := None\<rparr>\<rparr>" "0x80100001" "0x80400000" "0x8E000000"]
    by (auto simp: m_one_def aligned_def unat_page MAXPAGES_eq)
qed

end
