(* ===== verification/Pipe.thy ===== *)
theory Pipe
  imports Xv6_Prelude
begin

text \<open>
  Pipes (\<^verbatim>\<open>pipe.c\<close>). The buffer is a ring of 512 bytes indexed by two free-running 32-bit
  counters. \<open>pipewrite\<close> and \<open>piperead\<close> may sleep in the middle: a pass is what one of them
  does from taking the pipe's lock (on entry, or when \<open>sleep\<close> returns) until it releases it
  (on return, or inside \<open>sleep\<close>). The lock makes a pass one atomic step; a pass yields the
  new pipe, the channels it wakes up, in order, and how it ended. \<open>killed\<close> is the flag of
  the calling process. The second part interleaves any number of readers and writers.
  Allocating and freeing the page that holds a pipe is in the theory of open files.
\<close>

section \<open>State and operations\<close>

definition PIPESIZE :: nat where
  "PIPESIZE = 512"

record pipe =
  data :: "uchar list"
  nread :: u32
  nwrite :: u32
  readopen :: bool
  writeopen :: bool

text \<open>The wait channels \<open>&p->nread\<close> and \<open>&p->nwrite\<close>.\<close>

datatype chan = NRead | NWrite

text \<open>How a pass of \<open>pipewrite\<close> ends: returning \<open>n\<close>, returning -1, or asleep before byte \<open>i\<close>.\<close>

datatype wres = WDone | WFail | WSleep nat

datatype rres = RDone "uchar list" | RFail | RSleep

text \<open>The fields \<open>pipealloc\<close> sets in a fresh page; the buffer keeps the page's contents.\<close>

definition pipe_init :: "uchar list \<Rightarrow> pipe" where
  "pipe_init page = \<lparr>data = page, nread = 0, nwrite = 0, readopen = True, writeopen = True\<rparr>"

text \<open>\<open>p->data[p->nwrite++ % PIPESIZE] = c\<close> and \<open>p->data[p->nread++ % PIPESIZE]\<close>.\<close>

definition put_byte :: "uchar \<Rightarrow> pipe \<Rightarrow> pipe" where
  "put_byte c p = p\<lparr>data := (data p)[unat (nwrite p) mod PIPESIZE := c], nwrite := nwrite p + 1\<rparr>"

definition get_byte :: "pipe \<Rightarrow> uchar \<times> pipe" where
  "get_byte p = (data p ! (unat (nread p) mod PIPESIZE), p\<lparr>nread := nread p + 1\<rparr>)"

definition pipe_full :: "pipe \<Rightarrow> bool" where
  "pipe_full p \<longleftrightarrow> nwrite p = nread p + of_nat PIPESIZE"

function pipewrite_loop :: "bool \<Rightarrow> (nat \<Rightarrow> uchar) \<Rightarrow> nat \<Rightarrow> pipe \<Rightarrow> nat \<Rightarrow> pipe \<times> chan list \<times> wres" where
  "pipewrite_loop killed addr n p i =
     (if i < n then
        if pipe_full p then
          if \<not> readopen p \<or> killed then (p, [], WFail)
          else (p, [NRead], WSleep i)
        else pipewrite_loop killed addr n (put_byte (addr i) p) (i + 1)
      else (p, [NRead], WDone))"
  by pat_completeness auto
termination by (relation "measure (\<lambda>(killed, addr, n, p, i). n - i)") auto

declare pipewrite_loop.simps [simp del]

text \<open>A pass that starts at byte \<open>i\<close>; the call itself starts at 0, and \<open>n\<close> is a C \<open>int\<close>.\<close>

definition pipewrite :: "bool \<Rightarrow> (nat \<Rightarrow> uchar) \<Rightarrow> int \<Rightarrow> pipe \<Rightarrow> nat \<Rightarrow> pipe \<times> chan list \<times> wres" where
  "pipewrite killed addr n p i = pipewrite_loop killed addr (nat n) p i"

fun piperead_loop :: "pipe \<Rightarrow> nat \<Rightarrow> pipe \<times> uchar list" where
  "piperead_loop p 0 = (p, [])"
| "piperead_loop p (Suc n) =
     (if nread p = nwrite p then (p, [])
      else let (c, p) = get_byte p; (p, cs) = piperead_loop p n in (p, c # cs))"

definition piperead :: "bool \<Rightarrow> int \<Rightarrow> pipe \<Rightarrow> pipe \<times> chan list \<times> rres" where
  "piperead killed n p =
     (if nread p = nwrite p \<and> writeopen p then
        if killed then (p, [], RFail) else (p, [], RSleep)
      else let (p, cs) = piperead_loop p (nat n) in (p, [NWrite], RDone cs))"

text \<open>\<open>pipeclose\<close>: the flag says whether the page is to be freed.\<close>

definition pipeclose :: "pipe \<Rightarrow> bool \<Rightarrow> pipe \<times> chan list \<times> bool" where
  "pipeclose p writable =
     (let (p, w) = (if writable then (p\<lparr>writeopen := False\<rparr>, [NRead])
                    else (p\<lparr>readopen := False\<rparr>, [NWrite])) in
      (p, w, \<not> readopen p \<and> \<not> writeopen p))"

section \<open>The buffer is a bounded queue\<close>

definition pipe_len :: "pipe \<Rightarrow> nat" where
  "pipe_len p = unat (nwrite p - nread p)"

definition contents :: "pipe \<Rightarrow> uchar list" where
  "contents p = map (\<lambda>k. data p ! (unat (nread p + of_nat k) mod PIPESIZE)) [0..<pipe_len p]"

definition pipe_wf :: "pipe \<Rightarrow> bool" where
  "pipe_wf p \<longleftrightarrow> length (data p) = PIPESIZE \<and> pipe_len p \<le> PIPESIZE"

lemma length_contents [simp]: "length (contents p) = pipe_len p"
  by (simp add: contents_def)

lemma pipe_full_len: "pipe_full p \<longleftrightarrow> pipe_len p = PIPESIZE"
proof -
  have "nwrite p = nread p + 512 \<longleftrightarrow> nwrite p - nread p = 512" by (auto simp: algebra_simps)
  also have "\<dots> \<longleftrightarrow> unat (nwrite p - nread p) = 512" by (simp add: word_unat_eq_iff)
  finally show ?thesis by (simp add: pipe_full_def pipe_len_def PIPESIZE_def)
qed

lemma pipe_empty_len: "nread p = nwrite p \<longleftrightarrow> pipe_len p = 0"
  by (auto simp: pipe_len_def unat_eq_zero)

text \<open>512 divides \<open>2 ^ 32\<close>, so the ring index of a wrapped counter is the wrapped ring index.\<close>

lemma ring_index_add: "unat (a + of_nat k :: u32) mod 512 = (unat a + k) mod 512"
proof -
  have "unat (a + of_nat k :: u32) = (unat a + k) mod 4294967296"
    by (simp add: unat_word_ariths unsigned_of_nat take_bit_eq_mod mod_simps)
  then show ?thesis by (simp add: mod_mod_cancel)
qed

lemma ring_index_inj_le: "j \<le> k \<Longrightarrow> k < 512 \<Longrightarrow> (a + j) mod 512 = (a + k) mod 512 \<Longrightarrow> j = k"
  for a j k :: nat
proof -
  assume "j \<le> k" "k < 512" and "(a + j) mod 512 = (a + k) mod 512"
  then have "512 dvd (a + k) - (a + j)" by (metis add_left_mono mod_eq_dvd_iff_nat)
  then have "512 dvd k - j" by simp
  then show ?thesis using \<open>j \<le> k\<close> \<open>k < 512\<close> by (auto dest: dvd_imp_le)
qed

lemma ring_index_inj: "j < 512 \<Longrightarrow> k < 512 \<Longrightarrow> (a + j) mod 512 = (a + k) mod 512 \<longleftrightarrow> j = k"
  for a j k :: nat
  using ring_index_inj_le [of j k a] ring_index_inj_le [of k j a] by (metis nat_le_linear)

lemma contents_nth:
  "k < pipe_len p \<Longrightarrow> contents p ! k = data p ! ((unat (nread p) + k) mod 512)"
  by (simp add: contents_def PIPESIZE_def ring_index_add)

lemma put_byte_queue:
  assumes "pipe_wf p" and "\<not> pipe_full p"
  shows "pipe_wf (put_byte c p)" "contents (put_byte c p) = contents p @ [c]"
    "readopen (put_byte c p) = readopen p" "writeopen (put_byte c p) = writeopen p"
proof -
  have lt: "pipe_len p < 512" using assms by (auto simp: pipe_wf_def pipe_full_len PIPESIZE_def)
  have "nwrite p + 1 - nread p = (nwrite p - nread p) + 1" by simp
  also have "unat \<dots> = Suc (unat (nwrite p - nread p))"
    using lt unfolding pipe_len_def by (intro unat_add_one) simp
  finally have len: "pipe_len (put_byte c p) = Suc (pipe_len p)"
    by (simp add: pipe_len_def put_byte_def)
  then show "pipe_wf (put_byte c p)"
    using assms lt by (simp add: pipe_wf_def put_byte_def PIPESIZE_def)
  have nw: "unat (nwrite p) mod 512 = (unat (nread p) + pipe_len p) mod 512"
    using ring_index_add [of "nread p" "pipe_len p"] by (simp add: pipe_len_def)
  show "contents (put_byte c p) = contents p @ [c]"
  proof (rule nth_equalityI)
    fix k assume "k < length (contents (put_byte c p))"
    then have k: "k \<le> pipe_len p" by (simp add: len)
    have "(unat (nread p) + k) mod 512 = (unat (nread p) + pipe_len p) mod 512 \<longleftrightarrow> k = pipe_len p"
      using k lt by (intro ring_index_inj) auto
    moreover have "contents (put_byte c p) ! k =
        (data p)[unat (nwrite p) mod 512 := c] ! ((unat (nread p) + k) mod 512)"
      using contents_nth [of k "put_byte c p"] k len by (simp add: put_byte_def PIPESIZE_def)
    ultimately show "contents (put_byte c p) ! k = (contents p @ [c]) ! k"
      using k assms(1) nw
      by (auto simp: nth_append contents_nth nth_list_update pipe_wf_def PIPESIZE_def)
  qed (simp add: len)
qed (simp_all add: put_byte_def)

lemma get_byte_queue:
  assumes "pipe_wf p" and "nread p \<noteq> nwrite p"
  shows "pipe_wf (snd (get_byte p))" "contents p = fst (get_byte p) # contents (snd (get_byte p))"
    "readopen (snd (get_byte p)) = readopen p" "writeopen (snd (get_byte p)) = writeopen p"
proof -
  have pos: "pipe_len p \<noteq> 0" using assms(2) by (simp add: pipe_empty_len)
  have len: "pipe_len p = Suc (pipe_len (snd (get_byte p)))"
    using pos assms(2) unat_diff_next [of "nwrite p" "nread p"] by (simp add: pipe_len_def get_byte_def)
  then show "pipe_wf (snd (get_byte p))"
    using assms(1) by (simp add: pipe_wf_def get_byte_def)
  show "contents p = fst (get_byte p) # contents (snd (get_byte p))"
    unfolding contents_def len
    by (subst upt_conv_Cons) (simp_all add: get_byte_def map_Suc_upt [symmetric] comp_def add_ac del: upt_Suc)
qed (simp_all add: get_byte_def)

text \<open>
  A pass from byte \<open>i\<close> appends the bytes from \<open>i\<close> up to some \<open>j\<close>; all of them when it is
  done. It wakes the readers except when it fails.
\<close>

definition write_end :: "bool \<Rightarrow> nat \<Rightarrow> nat \<Rightarrow> pipe \<Rightarrow> chan list \<Rightarrow> wres \<Rightarrow> bool" where
  "write_end killed n j p ws r \<longleftrightarrow> (case r of
       WDone \<Rightarrow> ws = [NRead] \<and> j = n
     | WSleep k \<Rightarrow> ws = [NRead] \<and> k = j \<and> j < n \<and> pipe_full p \<and> readopen p \<and> \<not> killed
     | WFail \<Rightarrow> ws = [] \<and> j < n \<and> pipe_full p \<and> (\<not> readopen p \<or> killed))"

lemma pipewrite_loop_queue:
  assumes "pipe_wf p" and "pipewrite_loop killed addr n p i = (p', ws, r)" and "i \<le> n"
  shows "\<exists>j. pipe_wf p' \<and> contents p' = contents p @ map addr [i..<j] \<and> i \<le> j \<and> j \<le> n \<and>
    readopen p' = readopen p \<and> writeopen p' = writeopen p \<and> write_end killed n j p' ws r"
  using assms
proof (induction killed addr n p i rule: pipewrite_loop.induct)
  case (1 killed addr n p i)
  show ?case
  proof (cases "i < n \<and> \<not> pipe_full p")
    case True
    let ?q = "put_byte (addr i) p"
    have w: "pipewrite_loop killed addr n ?q (i + 1) = (p', ws, r)"
      using 1(3) True by (subst (asm) pipewrite_loop.simps) simp
    note q = put_byte_queue [OF 1(2) conjunct2 [OF True], of "addr i"]
    obtain j where j: "pipe_wf p'" "contents p' = contents ?q @ map addr [i + 1..<j]" "i + 1 \<le> j" "j \<le> n"
      "readopen p' = readopen ?q" "writeopen p' = writeopen ?q" "write_end killed n j p' ws r"
      using 1(1) [OF _ _ q(1) w] True by auto
    moreover have "[i..<j] = i # [i + 1..<j]" using j(3) by (simp add: upt_conv_Cons)
    ultimately show ?thesis using q by (intro exI [of _ j]) simp
  next
    case False
    with 1(2-4) show ?thesis
      by (subst (asm) pipewrite_loop.simps) (auto simp: write_end_def split: if_splits)
  qed
qed

lemma piperead_loop_queue:
  assumes "pipe_wf p" and "piperead_loop p n = (p', cs)"
  shows "pipe_wf p' \<and> contents p = cs @ contents p' \<and> length cs = min n (pipe_len p) \<and>
    readopen p' = readopen p \<and> writeopen p' = writeopen p"
  using assms
proof (induction n arbitrary: p p' cs)
  case (Suc n)
  show ?case
  proof (cases "nread p = nwrite p")
    case False
    obtain q ds where r: "piperead_loop (snd (get_byte p)) n = (q, ds)" by fastforce
    note g = get_byte_queue [OF Suc.prems(1) False]
    have "pipe_len p = Suc (pipe_len (snd (get_byte p)))" using g(2) length_contents by (metis length_Cons)
    with Suc.IH [OF g(1) r] Suc.prems(2) False r g show ?thesis
      by (auto simp: Let_def split: prod.splits)
  qed (use Suc.prems in \<open>auto simp: pipe_empty_len\<close>)
qed simp

section \<open>Readers and writers\<close>

text \<open>
  What a process is doing with the pipe: nothing, a \<open>pipewrite\<close> of \<open>n\<close> bytes about to
  continue at byte \<open>i\<close>, or a \<open>piperead\<close> of at most \<open>n\<close> bytes; the flag says that it is
  asleep, on \<open>&p->nwrite\<close> and \<open>&p->nread\<close> respectively. \<open>ps_in\<close> and \<open>ps_out\<close> record the
  bytes that went into and came out of the pipe.
\<close>

datatype activity = Idle | Writer "nat \<Rightarrow> uchar" int nat bool | Reader int bool

record psys =
  ps_pipe :: pipe
  ps_act :: "nat \<Rightarrow> activity"
  ps_in :: "uchar list"
  ps_out :: "uchar list"

fun awaken :: "chan list \<Rightarrow> activity \<Rightarrow> activity" where
  "awaken ws Idle = Idle"
| "awaken ws (Writer addr n i asleep) = Writer addr n i (asleep \<and> NWrite \<notin> set ws)"
| "awaken ws (Reader n asleep) = Reader n (asleep \<and> NRead \<notin> set ws)"

definition update :: "nat \<Rightarrow> activity \<Rightarrow> pipe \<Rightarrow> chan list \<Rightarrow> psys \<Rightarrow> psys" where
  "update q a p ws s = s\<lparr>ps_pipe := p, ps_act := (\<lambda>x. if x = q then a else awaken ws (ps_act s x))\<rparr>"

fun is_writer :: "activity \<Rightarrow> bool" where
  "is_writer (Writer _ _ _ _) = True"
| "is_writer _ = False"

fun is_reader :: "activity \<Rightarrow> bool" where
  "is_reader (Reader _ _) = True"
| "is_reader _ = False"

fun writer_after :: "(nat \<Rightarrow> uchar) \<Rightarrow> int \<Rightarrow> wres \<Rightarrow> activity" where
  "writer_after addr n (WSleep i) = Writer addr n i True"
| "writer_after addr n _ = Idle"

text \<open>How many bytes a pass of \<open>pipewrite\<close> from \<open>i\<close> has put into the pipe.\<close>

definition accepted :: "(nat \<Rightarrow> uchar) \<Rightarrow> nat \<Rightarrow> pipe \<Rightarrow> pipe \<Rightarrow> uchar list" where
  "accepted addr i p p' = map addr [i..<i + (pipe_len p' - pipe_len p)]"

text \<open>
  A call needs the matching end open; the end is closed only when no call on it is in
  progress, since each caller holds the file open. The parameter \<open>kill\<close> says whether
  processes may be killed while they use the pipe.
\<close>

inductive pstep :: "bool \<Rightarrow> psys \<Rightarrow> psys \<Rightarrow> bool" for kill where
  call_write: "ps_act s q = Idle \<Longrightarrow> writeopen (ps_pipe s) \<Longrightarrow>
    pstep kill s (update q (Writer addr n 0 False) (ps_pipe s) [] s)"
| call_read: "ps_act s q = Idle \<Longrightarrow> readopen (ps_pipe s) \<Longrightarrow>
    pstep kill s (update q (Reader n False) (ps_pipe s) [] s)"
| write_pass: "ps_act s q = Writer addr n i False \<Longrightarrow> (killed \<longrightarrow> kill) \<Longrightarrow>
    pipewrite killed addr n (ps_pipe s) i = (p, ws, r) \<Longrightarrow>
    pstep kill s ((update q (writer_after addr n r) p ws s)
      \<lparr>ps_in := ps_in s @ accepted addr i (ps_pipe s) p\<rparr>)"
| read_done: "ps_act s q = Reader n False \<Longrightarrow> (killed \<longrightarrow> kill) \<Longrightarrow>
    piperead killed n (ps_pipe s) = (p, ws, RDone cs) \<Longrightarrow>
    pstep kill s ((update q Idle p ws s)\<lparr>ps_out := ps_out s @ cs\<rparr>)"
| read_fail: "ps_act s q = Reader n False \<Longrightarrow> (killed \<longrightarrow> kill) \<Longrightarrow>
    piperead killed n (ps_pipe s) = (p, ws, RFail) \<Longrightarrow> pstep kill s (update q Idle p ws s)"
| read_sleep: "ps_act s q = Reader n False \<Longrightarrow> (killed \<longrightarrow> kill) \<Longrightarrow>
    piperead killed n (ps_pipe s) = (p, ws, RSleep) \<Longrightarrow>
    pstep kill s (update q (Reader n True) p ws s)"
| close_write: "\<forall>q. \<not> is_writer (ps_act s q) \<Longrightarrow> pipeclose (ps_pipe s) True = (p, ws, b) \<Longrightarrow>
    ps_act s q = Idle \<Longrightarrow> pstep kill s (update q Idle p ws s)"
| close_read: "\<forall>q. \<not> is_reader (ps_act s q) \<Longrightarrow> pipeclose (ps_pipe s) False = (p, ws, b) \<Longrightarrow>
    ps_act s q = Idle \<Longrightarrow> pstep kill s (update q Idle p ws s)"

inductive preach :: "bool \<Rightarrow> psys \<Rightarrow> bool" for kill where
  start: "length page = PIPESIZE \<Longrightarrow>
    preach kill \<lparr>ps_pipe = pipe_init page, ps_act = (\<lambda>q. Idle), ps_in = [], ps_out = []\<rparr>"
| step: "preach kill s \<Longrightarrow> pstep kill s s' \<Longrightarrow> preach kill s'"

definition fifo :: "psys \<Rightarrow> bool" where
  "fifo s \<longleftrightarrow> pipe_wf (ps_pipe s) \<and> ps_in s = ps_out s @ contents (ps_pipe s) \<and>
     (\<forall>q addr n i b. ps_act s q = Writer addr n i b \<longrightarrow> i \<le> nat n)"

lemma awaken_Writer: "awaken ws a = Writer addr n i b \<Longrightarrow> \<exists>b'. a = Writer addr n i b'"
  by (cases a) auto

lemma fifo_update:
  assumes "fifo s" and "pipe_wf p" and "\<And>addr n i b. a = Writer addr n i b \<Longrightarrow> i \<le> nat n"
    and "ins = outs @ contents p"
  shows "fifo ((update q a p ws s)\<lparr>ps_in := ins, ps_out := outs\<rparr>)"
  using assms by (fastforce simp: fifo_def update_def dest: awaken_Writer split: if_splits)

lemma pipewrite_pass:
  assumes "pipe_wf p" and "pipewrite killed addr n p i = (p', ws, r)" and "i \<le> nat n"
  shows "\<exists>j. pipe_wf p' \<and> contents p' = contents p @ accepted addr i p p' \<and> i \<le> j \<and> j \<le> nat n \<and>
    readopen p' = readopen p \<and> writeopen p' = writeopen p \<and> write_end killed (nat n) j p' ws r"
proof -
  obtain j where j: "pipe_wf p'" "contents p' = contents p @ map addr [i..<j]" "i \<le> j" "j \<le> nat n"
    "readopen p' = readopen p" "writeopen p' = writeopen p" "write_end killed (nat n) j p' ws r"
    using pipewrite_loop_queue [of p killed addr "nat n" i] assms by (auto simp: pipewrite_def)
  then have "pipe_len p' = pipe_len p + (j - i)" using length_contents [of p'] by simp
  then have "accepted addr i p p' = map addr [i..<j]" using j(3) by (simp add: accepted_def)
  with j show ?thesis by auto
qed

lemma piperead_pass:
  assumes "pipe_wf p" and "piperead killed n p = (p', ws, r)"
  shows "pipe_wf p' \<and> readopen p' = readopen p \<and> writeopen p' = writeopen p \<and>
    (case r of RDone cs \<Rightarrow> contents p = cs @ contents p' \<and> ws = [NWrite] \<and> length cs = min (nat n) (pipe_len p)
     | RFail \<Rightarrow> p' = p \<and> ws = [] \<and> killed
     | RSleep \<Rightarrow> p' = p \<and> ws = [] \<and> contents p = [] \<and> writeopen p)"
proof (cases "nread p = nwrite p \<and> writeopen p")
  case True
  then have "contents p = []" using pipe_empty_len [of p] by (simp add: contents_def)
  with assms True show ?thesis by (auto simp: piperead_def split: if_splits)
next
  case False
  obtain q cs where "piperead_loop p (nat n) = (q, cs)" by fastforce
  with assms False piperead_loop_queue [OF assms(1)] show ?thesis by (auto simp: piperead_def)
qed

lemma pipeclose_cases:
  "pipeclose p True = (p\<lparr>writeopen := False\<rparr>, [NRead], \<not> readopen p)"
  "pipeclose p False = (p\<lparr>readopen := False\<rparr>, [NWrite], \<not> writeopen p)"
  by (simp_all add: pipeclose_def)

lemma contents_flags [simp]:
  "contents (p\<lparr>writeopen := b\<rparr>) = contents p" "contents (p\<lparr>readopen := b\<rparr>) = contents p"
  "pipe_wf (p\<lparr>writeopen := b\<rparr>) = pipe_wf p" "pipe_wf (p\<lparr>readopen := b\<rparr>) = pipe_wf p"
  "pipe_full (p\<lparr>writeopen := b\<rparr>) = pipe_full p" "pipe_full (p\<lparr>readopen := b\<rparr>) = pipe_full p"
  by (simp_all add: contents_def pipe_len_def pipe_wf_def pipe_full_def)

lemma writer_after_Writer:
  "writer_after addr n r = Writer addr' n' i b \<longleftrightarrow> r = WSleep i \<and> addr' = addr \<and> n' = n \<and> b"
  by (cases r) auto

lemma update_ghost:
  "update q a p ws s = (update q a p ws s)\<lparr>ps_in := ps_in s, ps_out := ps_out s\<rparr>"
  "(update q a p ws s)\<lparr>ps_in := x\<rparr> = (update q a p ws s)\<lparr>ps_in := x, ps_out := ps_out s\<rparr>"
  "(update q a p ws s)\<lparr>ps_out := y\<rparr> = (update q a p ws s)\<lparr>ps_in := ps_in s, ps_out := y\<rparr>"
  by (simp_all add: update_def)

lemma pstep_fifo:
  assumes "pstep kill s s'" and "fifo s"
  shows "fifo s'"
proof -
  have wf: "pipe_wf (ps_pipe s)" and eq: "ps_in s = ps_out s @ contents (ps_pipe s)"
    using assms(2) by (auto simp: fifo_def)
  from assms(1) show ?thesis
  proof cases
    case (call_write q addr n)
    show ?thesis unfolding call_write(1) by (subst update_ghost(1)) (rule fifo_update, use assms(2) wf eq in auto)
  next
    case (call_read q n)
    show ?thesis unfolding call_read(1) by (subst update_ghost(1)) (rule fifo_update, use assms(2) wf eq in auto)
  next
    case (write_pass q addr n i killed p ws r)
    have "i \<le> nat n" using assms(2) write_pass(2) unfolding fifo_def by blast
    then obtain j where "pipe_wf p" "contents p = contents (ps_pipe s) @ accepted addr i (ps_pipe s) p"
      "j \<le> nat n" "write_end killed (nat n) j p ws r"
      using pipewrite_pass [OF wf write_pass(4)] by blast
    then show ?thesis unfolding write_pass(1)
      by (subst update_ghost(2), intro fifo_update) (use assms(2) eq in \<open>auto simp: writer_after_Writer write_end_def\<close>)
  next
    case (read_done q n killed p ws cs)
    then show ?thesis using piperead_pass [OF wf read_done(4)] unfolding read_done(1)
      by (subst update_ghost(3), intro fifo_update) (use assms(2) eq in auto)
  next
    case (read_fail q n killed p ws)
    then show ?thesis using piperead_pass [OF wf read_fail(4)] unfolding read_fail(1)
      by (subst update_ghost(1), intro fifo_update) (use assms(2) eq in auto)
  next
    case (read_sleep q n killed p ws)
    then show ?thesis using piperead_pass [OF wf read_sleep(4)] unfolding read_sleep(1)
      by (subst update_ghost(1), intro fifo_update) (use assms(2) eq in auto)
  next
    case (close_write p ws b q)
    then show ?thesis unfolding close_write(1)
      by (subst update_ghost(1), intro fifo_update) (use assms(2) eq wf in \<open>auto simp: pipeclose_cases\<close>)
  next
    case (close_read p ws b q)
    then show ?thesis unfolding close_read(1)
      by (subst update_ghost(1), intro fifo_update) (use assms(2) eq wf in \<open>auto simp: pipeclose_cases\<close>)
  qed
qed

lemma preach_fifo: "preach kill s \<Longrightarrow> fifo s"
proof (induction rule: preach.induct)
  case (start page)
  then show ?case
    by (simp add: fifo_def pipe_init_def pipe_wf_def pipe_len_def contents_def)
next
  case (step s s')
  then show ?case by (blast intro: pstep_fifo)
qed

section \<open>Nobody sleeps in vain\<close>

text \<open>
  A sleeping reader has an empty pipe with an open write end in front of it, a sleeping
  writer a full pipe with an open read end: whoever changes that wakes them.
\<close>

definition waits :: "pipe \<Rightarrow> activity \<Rightarrow> bool" where
  "waits p a \<longleftrightarrow> (case a of
       Idle \<Rightarrow> True
     | Writer addr n i asleep \<Rightarrow> writeopen p \<and> (asleep \<longrightarrow> pipe_full p \<and> readopen p)
     | Reader n asleep \<Rightarrow> readopen p \<and> (asleep \<longrightarrow> contents p = [] \<and> writeopen p))"

definition all_wait :: "psys \<Rightarrow> bool" where
  "all_wait s \<longleftrightarrow> (\<forall>q. waits (ps_pipe s) (ps_act s q))"

lemma waits_Idle [simp]: "waits p Idle"
  by (simp add: waits_def)

lemma waits_awake: "waits p a \<Longrightarrow> waits p (awaken ws a)"
  by (cases a) (auto simp: waits_def)

lemma waits_NRead:
  "waits p a \<Longrightarrow> NRead \<in> set ws \<Longrightarrow> writeopen p' = writeopen p \<Longrightarrow> readopen p' = readopen p \<Longrightarrow>
    (pipe_full p \<Longrightarrow> pipe_full p') \<Longrightarrow> waits p' (awaken ws a)"
  by (cases a) (auto simp: waits_def)

lemma waits_NWrite:
  "waits p a \<Longrightarrow> NWrite \<in> set ws \<Longrightarrow> writeopen p' = writeopen p \<Longrightarrow> readopen p' = readopen p \<Longrightarrow>
    (contents p = [] \<Longrightarrow> contents p' = []) \<Longrightarrow> waits p' (awaken ws a)"
  by (cases a) (auto simp: waits_def)

lemma all_wait_update:
  assumes "\<And>x. x \<noteq> q \<Longrightarrow> waits p (awaken ws (ps_act s x))" and "waits p a"
  shows "all_wait (update q a p ws s)" "all_wait ((update q a p ws s)\<lparr>ps_in := i\<rparr>)"
    "all_wait ((update q a p ws s)\<lparr>ps_out := u\<rparr>)"
  using assms by (auto simp: all_wait_def update_def)

lemma pipe_full_append:
  assumes "pipe_wf p" and "pipe_wf p'" and "contents p' = contents p @ x" and "pipe_full p"
  shows "pipe_full p'"
proof -
  have "pipe_len p' = pipe_len p + length x" using assms(3) length_contents by (metis length_append)
  then show ?thesis using assms by (simp add: pipe_full_len pipe_wf_def)
qed

lemma waits_writer_after:
  "write_end killed m j p ws r \<Longrightarrow> writeopen p \<Longrightarrow> waits p (writer_after addr n r)"
  by (cases r) (auto simp: waits_def write_end_def)

lemma pstep_waits:
  assumes "pstep False s s'" and "fifo s" and "all_wait s"
  shows "all_wait s'"
proof -
  have wf: "pipe_wf (ps_pipe s)" using assms(2) by (simp add: fifo_def)
  have w: "waits (ps_pipe s) (ps_act s x)" for x using assms(3) by (simp add: all_wait_def)
  from assms(1) show ?thesis
  proof cases
    case (call_write q addr n)
    then show ?thesis using w by (auto intro!: all_wait_update waits_awake simp: waits_def)
  next
    case (call_read q n)
    then show ?thesis using w by (auto intro!: all_wait_update waits_awake simp: waits_def)
  next
    case (write_pass q addr n i killed p ws r)
    have "i \<le> nat n" using assms(2) write_pass(2) unfolding fifo_def by blast
    then obtain j where j: "pipe_wf p" "contents p = contents (ps_pipe s) @ accepted addr i (ps_pipe s) p"
      "readopen p = readopen (ps_pipe s)" "writeopen p = writeopen (ps_pipe s)"
      "write_end killed (nat n) j p ws r"
      using pipewrite_pass [OF wf write_pass(4)] by blast
    have open_w: "writeopen (ps_pipe s)" using w [of q] write_pass(2) by (simp add: waits_def)
    have "waits p (awaken ws (ps_act s x))" for x
    proof (cases "r = WFail")
      case True
      then have "\<not> readopen p" using j(5) write_pass(3) by (simp add: write_end_def)
      then show ?thesis using w [of x] j pipe_full_append [OF wf j(1,2)]
        by (cases "ps_act s x") (auto simp: waits_def)
    next
      case False
      then have "NRead \<in> set ws" using j(5) by (auto simp: write_end_def split: wres.splits)
      then show ?thesis
        using w [of x] j pipe_full_append [OF wf j(1,2)] by (intro waits_NRead [of "ps_pipe s"]) auto
    qed
    then show ?thesis unfolding write_pass(1)
      using waits_writer_after [OF j(5)] open_w j(4) by (intro all_wait_update) auto
  next
    case (read_done q n killed p ws cs)
    then show ?thesis using piperead_pass [OF wf read_done(4)] w
      by (auto intro!: all_wait_update waits_NWrite [of "ps_pipe s"])
  next
    case (read_fail q n killed p ws)
    then show ?thesis using piperead_pass [OF wf read_fail(4)] by auto
  next
    case (read_sleep q n killed p ws)
    moreover have "readopen (ps_pipe s)" using w [of q] read_sleep(2) by (simp add: waits_def)
    ultimately show ?thesis using piperead_pass [OF wf read_sleep(4)] w
      by (auto intro!: all_wait_update waits_awake simp: waits_def)
  next
    case (close_write p ws b q)
    have "waits p (awaken ws (ps_act s x))" for x
      using close_write w [of x] spec [OF close_write(2), of x]
      by (cases "ps_act s x") (auto simp: waits_def pipeclose_cases)
    then show ?thesis unfolding close_write(1) by (auto intro: all_wait_update)
  next
    case (close_read p ws b q)
    have "waits p (awaken ws (ps_act s x))" for x
      using close_read w [of x] spec [OF close_read(2), of x]
      by (cases "ps_act s x") (auto simp: waits_def pipeclose_cases)
    then show ?thesis unfolding close_read(1) by (auto intro: all_wait_update)
  qed
qed

lemma preach_waits: "preach False s \<Longrightarrow> all_wait s"
proof (induction rule: preach.induct)
  case (start page)
  then show ?case by (simp add: all_wait_def)
next
  case (step s s')
  then show ?case by (blast intro: pstep_waits preach_fifo)
qed

section \<open>Properties\<close>

text \<open>
  C11. In every state reached by any interleaving of writers, readers and closes, killed
  processes included, the bytes delivered to readers followed by the bytes in the buffer are
  exactly the bytes accepted from writers, in order, and the buffer holds at most 512 of
  them: a pipe loses, duplicates and reorders nothing, also when its counters wrap.
\<close>

theorem pipe_fifo:
  assumes "preach kill s"
  shows "ps_in s = ps_out s @ contents (ps_pipe s) \<and> length (contents (ps_pipe s)) \<le> 512"
  using preach_fifo [OF assms] by (simp add: fifo_def pipe_wf_def PIPESIZE_def)

text \<open>
  C21. While no process using the pipe is killed, no wakeup is lost: a process asleep in
  \<open>piperead\<close> has an empty pipe whose write end is open, and a process asleep in
  \<open>pipewrite\<close> has a full pipe whose read end is open.
\<close>

theorem pipe_no_lost_wakeup:
  assumes "preach False s"
  shows "(\<forall>q n. ps_act s q = Reader n True \<longrightarrow> contents (ps_pipe s) = [] \<and> writeopen (ps_pipe s)) \<and>
    (\<forall>q addr n i. ps_act s q = Writer addr n i True \<longrightarrow>
       length (contents (ps_pipe s)) = 512 \<and> readopen (ps_pipe s))"
proof -
  have w: "waits (ps_pipe s) (ps_act s q)" for q
    using preach_waits [OF assms] by (simp add: all_wait_def)
  show ?thesis
  proof (intro conjI allI impI)
    fix q n assume "ps_act s q = Reader n True"
    with w [of q] show "contents (ps_pipe s) = []" "writeopen (ps_pipe s)" by (auto simp: waits_def)
  next
    fix q addr n i assume "ps_act s q = Writer addr n i True"
    with w [of q] show "length (contents (ps_pipe s)) = 512" "readopen (ps_pipe s)"
      by (auto simp: waits_def pipe_full_len PIPESIZE_def)
  qed
qed

text \<open>
  A small run: process 1 starts reading an empty pipe and falls asleep, process 2 writes
  two bytes and wakes it, process 1 reads one byte.
\<close>

definition ps0 :: psys where
  "ps0 = \<lparr>ps_pipe = pipe_init (replicate 512 0), ps_act = (\<lambda>q. Idle), ps_in = [], ps_out = []\<rparr>"

definition ps1 :: psys where
  "ps1 = update 1 (Reader 5 True) (ps_pipe ps0) [] (update 1 (Reader 5 False) (ps_pipe ps0) [] ps0)"

lemma preach_ps0: "preach kill ps0"
  unfolding ps0_def by (rule preach.start) (simp add: PIPESIZE_def)

lemma preach_ps1: "preach kill ps1"
  unfolding ps1_def
proof (rule preach.step [OF preach.step [OF preach_ps0]])
  show "pstep kill ps0 (update 1 (Reader 5 False) (ps_pipe ps0) [] ps0)"
    by (rule call_read) (simp_all add: ps0_def pipe_init_def)
  show "pstep kill (update 1 (Reader 5 False) (ps_pipe ps0) [] ps0)
      (update 1 (Reader 5 True) (ps_pipe ps0) [] (update 1 (Reader 5 False) (ps_pipe ps0) [] ps0))"
    by (rule read_sleep [where killed = False])
      (simp_all add: ps0_def update_def piperead_def pipe_init_def)
qed

theorem pipe_fifo_witness: "ps_in ps1 = ps_out ps1 @ contents (ps_pipe ps1)"
  using pipe_fifo [OF preach_ps1] by simp

theorem pipe_no_lost_wakeup_witness:
  "contents (ps_pipe ps1) = [] \<and> writeopen (ps_pipe ps1) \<and> ps_act ps1 1 = Reader 5 True"
proof -
  have "ps_act ps1 1 = Reader 5 True" by (simp add: ps1_def update_def)
  with pipe_no_lost_wakeup [OF preach_ps1] show ?thesis by blast
qed

text \<open>
  A writer that finds the pipe full after being killed returns without waking the readers,
  although it has put bytes into the pipe.
\<close>

lemma killed_writer_fails:
  assumes "pipe_wf p" and "pipewrite True addr 600 p 0 = (p', ws, r)"
  shows "r = WFail \<and> ws = [] \<and> pipe_full p'"
proof -
  obtain j where j: "pipe_wf p'" "contents p' = contents p @ map addr [0..<j]"
    "write_end True 600 j p' ws r"
    using pipewrite_loop_queue [of p True addr 600 0] assms by (auto simp: pipewrite_def)
  have "pipe_len p' = pipe_len p + j" using arg_cong [OF j(2), of length] by simp
  then have "j < 600" using j(1) by (simp add: pipe_wf_def PIPESIZE_def)
  with j(3) show ?thesis by (cases r) (auto simp: write_end_def)
qed

text \<open>
  C39. The condition on killed processes in the previous property is needed: a killed writer
  that fills the pipe returns -1 without a wakeup, and a reader that was asleep stays
  asleep in front of a pipe with 512 bytes in it.
\<close>

theorem pipe_killed_writer_strands_reader:
  "\<exists>s. preach True s \<and> ps_act s 1 = Reader 5 True \<and> length (contents (ps_pipe s)) = 512 \<and>
     writeopen (ps_pipe s)"
proof -
  let ?addr = "\<lambda>i. 7 :: uchar"
  let ?s1 = "update 2 (Writer ?addr 600 0 False) (ps_pipe ps1) [] ps1"
  obtain p ws r where w: "pipewrite True ?addr 600 (ps_pipe ps1) 0 = (p, ws, r)" by (metis prod_cases3)
  have wf: "pipe_wf (ps_pipe ps1)" using preach_fifo [OF preach_ps1] by (simp add: fifo_def)
  have r: "r = WFail" "ws = []" "pipe_full p" using killed_writer_fails [OF wf w] by auto
  have o: "writeopen (ps_pipe ps1)" by (simp add: ps1_def update_def ps0_def pipe_init_def)
  have "writeopen p" using pipewrite_pass [OF wf w] o by auto
  let ?s2 = "(update 2 (writer_after ?addr 600 r) p ws ?s1)
    \<lparr>ps_in := ps_in ?s1 @ accepted ?addr 0 (ps_pipe ?s1) p\<rparr>"
  have "pstep True ps1 ?s1"
    using o by (intro call_write) (auto simp: ps1_def update_def ps0_def)
  moreover have "pstep True ?s1 ?s2"
    using w by (intro write_pass) (auto simp: update_def)
  ultimately have "preach True ?s2" using preach_ps1 by (blast intro: preach.step)
  moreover have "ps_act ?s2 1 = Reader 5 True" using r by (simp add: update_def ps1_def)
  moreover have "length (contents (ps_pipe ?s2)) = 512"
    using r by (simp add: update_def pipe_full_len PIPESIZE_def)
  ultimately show ?thesis using \<open>writeopen p\<close> by (intro exI [of _ ?s2]) (simp add: update_def)
qed

end
