(* ===== verification/Sleeplock.thy ===== *)
theory Sleeplock
  imports Xv6_Prelude
begin

text \<open>
  Sleep locks (\<^verbatim>\<open>sleeplock.c\<close>). The spin lock inside makes each pass through its critical
  section one atomic step, so only the flag and the owner are state here.
  \<open>acquiresleep_pass\<close> is one turn of the waiting loop: it sleeps (\<open>None\<close>) while the lock is
  taken. The second part interleaves any number of processes.
\<close>

record sleeplock =
  sl_locked :: bool
  sl_pid :: int

definition initsleeplock :: sleeplock where
  "initsleeplock = \<lparr>sl_locked = False, sl_pid = 0\<rparr>"

definition acquiresleep_pass :: "int \<Rightarrow> sleeplock \<Rightarrow> sleeplock option" where
  "acquiresleep_pass pid lk = (if sl_locked lk then None else Some (lk\<lparr>sl_locked := True, sl_pid := pid\<rparr>))"

text \<open>The call as seen by one process while nobody else runs: it waits forever for a taken lock.\<close>

definition acquiresleep :: "int \<Rightarrow> sleeplock \<Rightarrow> sleeplock outcome" where
  "acquiresleep pid lk = (case acquiresleep_pass pid lk of None \<Rightarrow> Inl Hang | Some lk' \<Rightarrow> ok lk')"

text \<open>\<open>releasesleep\<close> also wakes everybody who sleeps on the lock.\<close>

definition releasesleep :: "sleeplock \<Rightarrow> sleeplock" where
  "releasesleep lk = lk\<lparr>sl_locked := False, sl_pid := 0\<rparr>"

definition holdingsleep :: "sleeplock \<Rightarrow> bool" where
  "holdingsleep lk = sl_locked lk"

lemma acquiresleep_free: "\<not> sl_locked lk \<Longrightarrow> acquiresleep pid lk = ok \<lparr>sl_locked = True, sl_pid = pid\<rparr>"
  by (cases lk) (simp add: acquiresleep_def acquiresleep_pass_def)

lemma acquiresleep_taken: "sl_locked lk \<Longrightarrow> acquiresleep pid lk = Inl Hang"
  by (simp add: acquiresleep_def acquiresleep_pass_def)

section \<open>Many processes\<close>

datatype sl_phase = SlOut | SlTrying | SlAsleep | SlHolding

record slsys =
  ss_lock :: sleeplock
  ss_phase :: "int \<Rightarrow> sl_phase"

fun sl_wake :: "sl_phase \<Rightarrow> sl_phase" where
  "sl_wake SlAsleep = SlTrying"
| "sl_wake ph = ph"

inductive sl_step :: "slsys \<Rightarrow> slsys \<Rightarrow> bool" where
  sl_call: "ss_phase s p = SlOut \<Longrightarrow> sl_step s (s\<lparr>ss_phase := (ss_phase s)(p := SlTrying)\<rparr>)"
| sl_sleep: "ss_phase s p = SlTrying \<Longrightarrow> acquiresleep_pass p (ss_lock s) = None \<Longrightarrow>
    sl_step s (s\<lparr>ss_phase := (ss_phase s)(p := SlAsleep)\<rparr>)"
| sl_take: "ss_phase s p = SlTrying \<Longrightarrow> acquiresleep_pass p (ss_lock s) = Some lk \<Longrightarrow>
    sl_step s (s\<lparr>ss_lock := lk, ss_phase := (ss_phase s)(p := SlHolding)\<rparr>)"
| sl_release: "ss_phase s p = SlHolding \<Longrightarrow>
    sl_step s (s\<lparr>ss_lock := releasesleep (ss_lock s), ss_phase := (\<lambda>q. sl_wake (((ss_phase s)(p := SlOut)) q))\<rparr>)"

inductive_cases sl_stepE: "sl_step s s'"

inductive sl_reachable :: "slsys \<Rightarrow> bool" where
  sl_start: "sl_reachable \<lparr>ss_lock = initsleeplock, ss_phase = (\<lambda>p. SlOut)\<rparr>"
| sl_next: "sl_reachable s \<Longrightarrow> sl_step s s' \<Longrightarrow> sl_reachable s'"

definition sl_inv :: "slsys \<Rightarrow> bool" where
  "sl_inv s \<longleftrightarrow> (\<forall>p. ss_phase s p = SlHolding \<longleftrightarrow> sl_locked (ss_lock s) \<and> sl_pid (ss_lock s) = p) \<and>
     ((\<exists>p. ss_phase s p = SlAsleep) \<longrightarrow> sl_locked (ss_lock s))"

lemma sl_wake_iff [simp]: "sl_wake a = SlHolding \<longleftrightarrow> a = SlHolding" "sl_wake a \<noteq> SlAsleep"
  by (cases a; simp)+

lemma sl_step_inv: "sl_step s s' \<Longrightarrow> sl_inv s \<Longrightarrow> sl_inv s'"
  by (erule sl_stepE)
    (auto simp: sl_inv_def acquiresleep_pass_def releasesleep_def split: if_splits,
      (metis sl_phase.distinct)+)

lemma sl_reachable_inv: "sl_reachable s \<Longrightarrow> sl_inv s"
proof (induction rule: sl_reachable.induct)
  case sl_start
  then show ?case by (simp add: sl_inv_def initsleeplock_def)
next
  case (sl_next s s')
  then show ?case by (blast intro: sl_step_inv)
qed

text \<open>
  C25. At most one process holds a sleep lock, its pid is the one recorded in the lock, and
  no process sleeps on a lock that is free, in every interleaving.
\<close>

theorem sleeplock_exclusive:
  assumes "sl_reachable s"
  shows "(\<forall>p q. ss_phase s p = SlHolding \<and> ss_phase s q = SlHolding \<longrightarrow> p = q) \<and>
    (\<forall>p. ss_phase s p = SlHolding \<longrightarrow> sl_pid (ss_lock s) = p) \<and>
    (\<forall>p. ss_phase s p = SlAsleep \<longrightarrow> holdingsleep (ss_lock s))"
  using sl_reachable_inv [OF assms] by (auto simp: sl_inv_def holdingsleep_def)

theorem sleeplock_exclusive_witness:
  "\<exists>s. sl_reachable s \<and> ss_phase s 7 = SlHolding \<and> sl_pid (ss_lock s) = 7"
proof -
  let ?s0 = "\<lparr>ss_lock = initsleeplock, ss_phase = (\<lambda>p. SlOut)\<rparr>"
  let ?s1 = "?s0\<lparr>ss_phase := (ss_phase ?s0)(7 := SlTrying)\<rparr>"
  let ?s2 = "?s1\<lparr>ss_lock := \<lparr>sl_locked = True, sl_pid = 7\<rparr>, ss_phase := (ss_phase ?s1)(7 := SlHolding)\<rparr>"
  have "sl_step ?s0 ?s1" by (rule sl_call) simp
  moreover have "sl_step ?s1 ?s2"
    by (rule sl_take) (simp_all add: acquiresleep_pass_def initsleeplock_def)
  ultimately have r: "sl_reachable ?s2" using sl_start by (blast intro: sl_next)
  moreover have h: "ss_phase ?s2 7 = SlHolding" by simp
  ultimately show ?thesis using sleeplock_exclusive [OF r] by blast
qed

end
