(* ===== verification/Blocks.thy ===== *)
theory Blocks
  imports Xv6_Prelude
begin

text \<open>
  Disk blocks of \<open>BSIZE\<close> bytes and the little-endian 16- and 32-bit fields that
  \<^verbatim>\<open>fs.h\<close> and \<^verbatim>\<open>log.c\<close> lay over them by casting a buffer's data.
\<close>

type_synonym block = "uchar list"

definition BSIZE :: nat where
  "BSIZE = 512"

definition get32 :: "uchar list \<Rightarrow> nat \<Rightarrow> u32" where
  "get32 d off = (ucast (d ! off) :: u32) OR push_bit 8 (ucast (d ! (off + 1))) OR
     push_bit 16 (ucast (d ! (off + 2))) OR push_bit 24 (ucast (d ! (off + 3)))"

definition put32 :: "uchar list \<Rightarrow> nat \<Rightarrow> u32 \<Rightarrow> uchar list" where
  "put32 d off v = d[off := ucast v, off + 1 := ucast (drop_bit 8 v),
     off + 2 := ucast (drop_bit 16 v), off + 3 := ucast (drop_bit 24 v)]"

definition get16 :: "uchar list \<Rightarrow> nat \<Rightarrow> ushort" where
  "get16 d off = (ucast (d ! off) :: ushort) OR push_bit 8 (ucast (d ! (off + 1)))"

definition put16 :: "uchar list \<Rightarrow> nat \<Rightarrow> ushort \<Rightarrow> uchar list" where
  "put16 d off v = d[off := ucast v, off + 1 := ucast (drop_bit 8 v)]"

lemma length_put32 [simp]: "length (put32 d off v) = length d"
  by (simp add: put32_def)

lemma length_put16 [simp]: "length (put16 d off v) = length d"
  by (simp add: put16_def)

lemma get32_put32_same [simp]: "off + 3 < length d \<Longrightarrow> get32 (put32 d off v) off = v"
  using bytes_of_word [of v] by (simp add: get32_def put32_def)

lemma get32_put32_other:
  "off + 3 < off' \<or> off' + 3 < off \<Longrightarrow> get32 (put32 d off v) off' = get32 d off'"
  by (auto simp: get32_def put32_def)

lemma nth_put32_other: "i < off \<or> off + 3 < i \<Longrightarrow> put32 d off v ! i = d ! i"
  by (auto simp: put32_def)

lemma bytes_of_ushort:
  "(ucast (ucast v :: uchar) :: ushort) OR push_bit 8 (ucast (ucast (drop_bit 8 v) :: uchar)) = v"
  for v :: ushort
  by (rule bit_word_eqI) (auto simp: bit_simps)

lemma get16_put16_same [simp]: "off + 1 < length d \<Longrightarrow> get16 (put16 d off v) off = v"
  using bytes_of_ushort [of v] by (simp add: get16_def put16_def)

lemma get16_put16_other:
  "off + 1 < off' \<or> off' + 1 < off \<Longrightarrow> get16 (put16 d off v) off' = get16 d off'"
  by (auto simp: get16_def put16_def)

end
