(* ===== verification/Bio.thy ===== *)
theory Bio
  imports Blocks Sleeplock
begin

text \<open>
  The buffer cache (\<^verbatim>\<open>bio.c\<close>) over the memory disk (\<^verbatim>\<open>memide.c\<close>). Buffers are numbered 0 to
  29; number 30 is \<open>bcache.head\<close>. The operations are those of one process running alone:
  waiting for a buffer somebody else holds is \<open>Hang\<close>. \<open>dwrites\<close> records the blocks written
  to the disk, oldest first; it plays no role in the code and is what a crash cuts short.
  The last part gives the cache's contract as a locale, in terms of what a read of each
  block returns, and shows that the code provides it.
\<close>

section \<open>State\<close>

definition NBUF :: nat where
  "NBUF = 30"

abbreviation (input) HEAD :: nat where "HEAD \<equiv> 30"

record buf =
  b_valid :: bool
  b_dirty :: bool
  b_dev :: u32
  b_blockno :: u32
  b_lock :: sleeplock
  b_refcnt :: u32
  b_prev :: nat
  b_next :: nat
  b_data :: block

record bstate =
  bufs :: "nat \<Rightarrow> buf"
  mdisk :: "u32 \<Rightarrow> block"
  disksize :: u32
  dwrites :: "(u32 \<times> block) list"
  bpid :: int

definition upd_buf :: "nat \<Rightarrow> (buf \<Rightarrow> buf) \<Rightarrow> 'a bstate_scheme \<Rightarrow> 'a bstate_scheme" where
  "upd_buf i f s = s\<lparr>bufs := (bufs s)(i := f (bufs s i))\<rparr>"

section \<open>Disk\<close>

definition iderw :: "'a bstate_scheme \<Rightarrow> nat \<Rightarrow> 'a bstate_scheme outcome" where
  "iderw s i =
     (let b = bufs s i in
      if \<not> holdingsleep (b_lock b) then panic ''iderw: buf not locked''
      else if b_valid b \<and> \<not> b_dirty b then panic ''iderw: nothing to do''
      else if b_dev b \<noteq> 1 then panic ''iderw: request not for disk 1''
      else if b_blockno b \<ge> disksize s then panic ''iderw: block out of range''
      else if b_dirty b then
        ok (upd_buf i (\<lambda>b. b\<lparr>b_dirty := False, b_valid := True\<rparr>)
          (s\<lparr>mdisk := (mdisk s)(b_blockno b := b_data b),
             dwrites := dwrites s @ [(b_blockno b, b_data b)]\<rparr>))
      else ok (upd_buf i (\<lambda>b. b\<lparr>b_data := mdisk s (b_blockno b), b_valid := True\<rparr>) s))"

section \<open>Operations\<close>

text \<open>Link \<open>b\<close> in as the most recently used buffer; the last four lines of \<open>brelse\<close>.\<close>

definition link_front :: "nat \<Rightarrow> 'a bstate_scheme \<Rightarrow> 'a bstate_scheme" where
  "link_front b s =
     (let s = upd_buf b (\<lambda>x. x\<lparr>b_next := b_next (bufs s HEAD)\<rparr>) s;
          s = upd_buf b (\<lambda>x. x\<lparr>b_prev := HEAD\<rparr>) s;
          s = upd_buf (b_next (bufs s HEAD)) (\<lambda>x. x\<lparr>b_prev := b\<rparr>) s
      in upd_buf HEAD (\<lambda>x. x\<lparr>b_next := b\<rparr>) s)"

definition unlink :: "nat \<Rightarrow> 'a bstate_scheme \<Rightarrow> 'a bstate_scheme" where
  "unlink b s =
     (let s = upd_buf (b_next (bufs s b)) (\<lambda>x. x\<lparr>b_prev := b_prev (bufs s b)\<rparr>) s
      in upd_buf (b_prev (bufs s b)) (\<lambda>x. x\<lparr>b_next := b_next (bufs s b)\<rparr>) s)"

fun binit_loop :: "nat list \<Rightarrow> 'a bstate_scheme \<Rightarrow> 'a bstate_scheme" where
  "binit_loop [] s = s"
| "binit_loop (b # bs) s =
     binit_loop bs (link_front b (upd_buf b (\<lambda>x. x\<lparr>b_lock := initsleeplock\<rparr>) s))"

definition binit :: "'a bstate_scheme \<Rightarrow> 'a bstate_scheme" where
  "binit s = binit_loop [0..<NBUF] (upd_buf HEAD (\<lambda>x. x\<lparr>b_prev := HEAD, b_next := HEAD\<rparr>) s)"

text \<open>
  The two scans of \<open>bget\<close>, along \<open>next\<close> from the most recently used buffer and along
  \<open>prev\<close> from the least recently used one. A list that does not lead back to the head would
  be followed forever; \<open>NBUF\<close> steps are enough for the lists that occur.
\<close>

fun find_cached :: "nat \<Rightarrow> (nat \<Rightarrow> buf) \<Rightarrow> u32 \<Rightarrow> u32 \<Rightarrow> nat \<Rightarrow> nat option outcome" where
  "find_cached fuel bs dev blockno b =
     (if b = HEAD then ok None
      else if b_dev (bs b) = dev \<and> b_blockno (bs b) = blockno then ok (Some b)
      else case fuel of 0 \<Rightarrow> Inl Hang | Suc k \<Rightarrow> find_cached k bs dev blockno (b_next (bs b)))"

fun find_unused :: "nat \<Rightarrow> (nat \<Rightarrow> buf) \<Rightarrow> nat \<Rightarrow> nat option outcome" where
  "find_unused fuel bs b =
     (if b = HEAD then ok None
      else if b_refcnt (bs b) = 0 \<and> \<not> b_dirty (bs b) then ok (Some b)
      else case fuel of 0 \<Rightarrow> Inl Hang | Suc k \<Rightarrow> find_unused k bs (b_prev (bs b)))"

definition lock_buf :: "nat \<Rightarrow> 'a bstate_scheme \<Rightarrow> ('a bstate_scheme \<times> nat) outcome" where
  "lock_buf b s =
     bnd (acquiresleep (bpid s) (b_lock (bufs s b))) (\<lambda>lk. ok (upd_buf b (\<lambda>x. x\<lparr>b_lock := lk\<rparr>) s, b))"

definition bget :: "'a bstate_scheme \<Rightarrow> u32 \<Rightarrow> u32 \<Rightarrow> ('a bstate_scheme \<times> nat) outcome" where
  "bget s dev blockno =
     bnd (find_cached NBUF (bufs s) dev blockno (b_next (bufs s HEAD))) (\<lambda>c.
     case c of
       Some b \<Rightarrow> lock_buf b (upd_buf b (\<lambda>x. x\<lparr>b_refcnt := b_refcnt x + 1\<rparr>) s)
     | None \<Rightarrow>
         bnd (find_unused NBUF (bufs s) (b_prev (bufs s HEAD))) (\<lambda>c.
         case c of
           Some b \<Rightarrow> lock_buf b (upd_buf b (\<lambda>x. x\<lparr>b_dev := dev, b_blockno := blockno,
               b_valid := False, b_dirty := False, b_refcnt := 1\<rparr>) s)
         | None \<Rightarrow> panic ''bget: no buffers''))"

definition bread :: "'a bstate_scheme \<Rightarrow> u32 \<Rightarrow> u32 \<Rightarrow> ('a bstate_scheme \<times> nat) outcome" where
  "bread s dev blockno =
     bnd (bget s dev blockno) (\<lambda>(s, b).
       if \<not> b_valid (bufs s b) then bnd (iderw s b) (\<lambda>s. ok (s, b)) else ok (s, b))"

definition bwrite :: "'a bstate_scheme \<Rightarrow> nat \<Rightarrow> 'a bstate_scheme outcome" where
  "bwrite s b =
     (if \<not> holdingsleep (b_lock (bufs s b)) then panic ''bwrite''
      else iderw (upd_buf b (\<lambda>x. x\<lparr>b_dirty := True\<rparr>) s) b)"

definition brelse :: "'a bstate_scheme \<Rightarrow> nat \<Rightarrow> 'a bstate_scheme outcome" where
  "brelse s b =
     (if \<not> holdingsleep (b_lock (bufs s b)) then panic ''brelse''
      else let s = upd_buf b (\<lambda>x. x\<lparr>b_lock := releasesleep (b_lock x)\<rparr>) s;
               s = upd_buf b (\<lambda>x. x\<lparr>b_refcnt := b_refcnt x - 1\<rparr>) s
        in if b_refcnt (bufs s b) = 0 then ok (link_front b (unlink b s)) else ok s)"

declare find_cached.simps [simp del] find_unused.simps [simp del]

section \<open>The list of buffers\<close>

text \<open>\<open>npath f a xs z\<close>: following \<open>f\<close> from \<open>a\<close> visits \<open>xs\<close> and then arrives at \<open>z\<close>.\<close>

fun npath :: "(nat \<Rightarrow> nat) \<Rightarrow> nat \<Rightarrow> nat list \<Rightarrow> nat \<Rightarrow> bool" where
  "npath f a [] z \<longleftrightarrow> f a = z"
| "npath f a (x # xs) z \<longleftrightarrow> f a = x \<and> npath f x xs z"

lemma npath_append: "npath f a (xs @ y # ys) z \<longleftrightarrow> npath f a xs y \<and> npath f y ys z"
  by (induction xs arbitrary: a) auto

lemma npath_cong:
  "f a = g b \<Longrightarrow> (\<And>x. x \<in> set xs \<Longrightarrow> f x = g x) \<Longrightarrow> npath f a xs z = npath g b xs z"
  by (induction xs arbitrary: a b) auto

lemma npath_redirect:
  "npath f a xs z \<Longrightarrow> distinct (a # xs) \<Longrightarrow> npath (f(last (a # xs) := w)) a xs w"
proof (induction xs arbitrary: a)
  case (Cons x xs)
  then have "last (x # xs) \<noteq> a" by (metis distinct.simps(2) last_in_set list.discI)
  with Cons show ?case by simp
qed simp

lemma npath_skip:
  assumes "npath f a (us @ b # vs) z" and "distinct (a # us @ b # vs)"
  shows "npath (f(last (a # us) := f b)) a (us @ vs) z"
  using assms
proof (induction us arbitrary: a)
  case Nil
  then have "npath (f(a := f b)) a vs z = npath f b vs z" by (intro npath_cong) auto
  moreover have "last [a] = a" by simp
  ultimately show ?case using Nil unfolding append_Nil by (simp only: npath.simps)
next
  case (Cons x us)
  then have "last (x # us) \<noteq> a" by (metis UnI1 distinct.simps(2) last_in_set list.discI set_append append_Cons)
  with Cons show ?case by simp
qed

lemma npath_hd: "npath f a xs z \<Longrightarrow> f a = (if xs = [] then z else hd xs)"
  by (cases xs) auto

abbreviation nx :: "'a bstate_scheme \<Rightarrow> nat \<Rightarrow> nat" where "nx s i \<equiv> b_next (bufs s i)"
abbreviation pv :: "'a bstate_scheme \<Rightarrow> nat \<Rightarrow> nat" where "pv s i \<equiv> b_prev (bufs s i)"

definition ring :: "'a bstate_scheme \<Rightarrow> nat list \<Rightarrow> bool" where
  "ring s xs \<longleftrightarrow> npath (nx s) HEAD xs HEAD \<and> npath (pv s) HEAD (rev xs) HEAD \<and> distinct (HEAD # xs)"

text \<open>Everything in a buffer but its links.\<close>

definition core :: "buf \<Rightarrow> bool \<times> bool \<times> u32 \<times> u32 \<times> sleeplock \<times> u32 \<times> block" where
  "core b = (b_valid b, b_dirty b, b_dev b, b_blockno b, b_lock b, b_refcnt b, b_data b)"

definition relinked :: "'a bstate_scheme \<Rightarrow> 'a bstate_scheme \<Rightarrow> bool" where
  "relinked s s' \<longleftrightarrow> (\<forall>i. core (bufs s' i) = core (bufs s i)) \<and> (\<exists>f. s' = s\<lparr>bufs := f\<rparr>)"

lemma relinkedD:
  assumes "relinked s s'"
  shows "b_valid (bufs s' i) = b_valid (bufs s i)" "b_dirty (bufs s' i) = b_dirty (bufs s i)"
    "b_dev (bufs s' i) = b_dev (bufs s i)" "b_blockno (bufs s' i) = b_blockno (bufs s i)"
    "b_lock (bufs s' i) = b_lock (bufs s i)" "b_refcnt (bufs s' i) = b_refcnt (bufs s i)"
    "b_data (bufs s' i) = b_data (bufs s i)" "mdisk s' = mdisk s" "disksize s' = disksize s"
    "dwrites s' = dwrites s" "bpid s' = bpid s"
  using assms by (auto simp: relinked_def core_def)

lemma link_front_links:
  assumes "b \<noteq> HEAD"
  shows "nx (link_front b s) = (nx s)(b := nx s HEAD, HEAD := b)"
    "nx s HEAD \<noteq> b \<Longrightarrow> pv (link_front b s) = (pv s)(b := HEAD, nx s HEAD := b)"
    "relinked s (link_front b s)"
  using assms by (auto simp: link_front_def upd_buf_def Let_def relinked_def core_def fun_eq_iff)

lemma unlink_links:
  assumes "nx s b \<noteq> b"
  shows "nx (unlink b s) = (nx s)(pv s b := nx s b)"
    "pv (unlink b s) = (pv s)(nx s b := pv s b)"
    "relinked s (unlink b s)"
  using assms by (auto simp: unlink_def upd_buf_def Let_def relinked_def core_def fun_eq_iff)

lemma last_rev_path: "npath f HEAD xs HEAD \<Longrightarrow> last (HEAD # rev xs) = f HEAD"
  using npath_hd [of f HEAD xs HEAD] by (simp add: last_rev)

lemma ring_link_front:
  assumes "ring s xs" and "b \<noteq> HEAD" and "b \<notin> set xs"
  shows "ring (link_front b s) (b # xs)"
proof -
  note r = assms(1) [unfolded ring_def]
  have hd: "nx s HEAD \<noteq> b" using npath_hd [of "nx s" HEAD xs HEAD] r assms(2,3)
    by (metis hd_in_set)
  note l = link_front_links(1) [OF assms(2), of s] link_front_links(2) [OF assms(2) hd]
  have "npath ((nx s)(b := nx s HEAD, HEAD := b)) b xs HEAD = npath (nx s) HEAD xs HEAD"
    using r assms(2,3) by (intro npath_cong) auto
  moreover have "npath ((pv s)(b := HEAD, nx s HEAD := b)) HEAD (rev xs) b"
  proof -
    have "npath ((pv s)(nx s HEAD := b)) HEAD (rev xs) b"
      using npath_redirect [of "pv s" HEAD "rev xs" HEAD b] r last_rev_path [of "nx s" xs] by simp
    moreover have "npath ((pv s)(b := HEAD, nx s HEAD := b)) HEAD (rev xs) b =
        npath ((pv s)(nx s HEAD := b)) HEAD (rev xs) b"
      using assms(2,3) by (intro npath_cong) auto
    ultimately show ?thesis by simp
  qed
  moreover have "((pv s)(b := HEAD, nx s HEAD := b)) b = HEAD" using hd by simp
  ultimately show ?thesis
    unfolding ring_def l using r assms(2,3) npath_append [of _ HEAD "rev xs" b "[]" HEAD] by auto
qed

lemma ring_unlink:
  assumes "ring s (us @ b # vs)"
  shows "ring (unlink b s) (us @ vs)"
proof -
  note r = assms [unfolded ring_def]
  have n: "npath (nx s) b vs HEAD" and p: "npath (pv s) b (rev us) HEAD"
    using r npath_append [of "nx s" HEAD us b vs HEAD] npath_append [of "pv s" HEAD "rev vs" b "rev us" HEAD]
    by auto
  have nb: "nx s b = last (HEAD # rev vs)" using npath_hd [OF n] by (simp add: last_rev)
  have pb: "pv s b = last (HEAD # us)" using npath_hd [OF p] by (simp add: hd_rev)
  have "nx s b \<noteq> b" using npath_hd [OF n] r by (auto dest: hd_in_set)
  note l = unlink_links(1,2) [OF this]
  have "npath ((nx s)(last (HEAD # us) := nx s b)) HEAD (us @ vs) HEAD"
    using r by (intro npath_skip) auto
  moreover have "npath ((pv s)(last (HEAD # rev vs) := pv s b)) HEAD (rev vs @ rev us) HEAD"
    using r by (intro npath_skip) auto
  ultimately show ?thesis using r by (simp add: ring_def l nb [symmetric] pb [symmetric] del: last.simps)
qed

lemma find_cached_ring:
  "npath (\<lambda>i. b_next (bs i)) a xs HEAD \<Longrightarrow> HEAD \<notin> set xs \<Longrightarrow> length xs \<le> fuel \<Longrightarrow>
    find_cached fuel bs dev blockno (b_next (bs a)) =
      ok (find (\<lambda>i. b_dev (bs i) = dev \<and> b_blockno (bs i) = blockno) xs)"
proof (induction xs arbitrary: a fuel)
  case Nil
  then show ?case by (simp add: find_cached.simps)
next
  case (Cons x xs)
  then obtain k where "fuel = Suc k" by (cases fuel) auto
  with Cons show ?case by (subst find_cached.simps) auto
qed

lemma find_unused_ring:
  "npath (\<lambda>i. b_prev (bs i)) a xs HEAD \<Longrightarrow> HEAD \<notin> set xs \<Longrightarrow> length xs \<le> fuel \<Longrightarrow>
    find_unused fuel bs (b_prev (bs a)) = ok (find (\<lambda>i. b_refcnt (bs i) = 0 \<and> \<not> b_dirty (bs i)) xs)"
proof (induction xs arbitrary: a fuel)
  case Nil
  then show ?case by (simp add: find_unused.simps)
next
  case (Cons x xs)
  then obtain k where "fuel = Suc k" by (cases fuel) auto
  with Cons show ?case by (subst find_unused.simps) auto
qed

section \<open>Invariant\<close>

text \<open>\<open>holds_blk s i b\<close>: buffer \<open>i\<close> is the buffer of block \<open>b\<close> of disk 1.\<close>

definition holds_blk :: "'a bstate_scheme \<Rightarrow> nat \<Rightarrow> u32 \<Rightarrow> bool" where
  "holds_blk s i b \<longleftrightarrow> i < NBUF \<and> b_dev (bufs s i) = 1 \<and> b_blockno (bufs s i) = b"

abbreviation locked_buf :: "'a bstate_scheme \<Rightarrow> nat \<Rightarrow> bool" where
  "locked_buf s i \<equiv> sl_locked (b_lock (bufs s i))"

text \<open>
  A buffer nobody holds is free to be recycled unless it is dirty; it then agrees with the
  disk, or it has never been used. No block is cached twice.
\<close>

definition buf_ok :: "'a bstate_scheme \<Rightarrow> nat \<Rightarrow> bool" where
  "buf_ok s i \<longleftrightarrow> b_refcnt (bufs s i) = (if locked_buf s i then 1 else 0) \<and>
     (b_dev (bufs s i) = 1 \<longrightarrow> b_valid (bufs s i) \<and> b_blockno (bufs s i) < disksize s \<and>
        length (b_data (bufs s i)) = BSIZE) \<and>
     ((b_dirty (bufs s i) \<or> locked_buf s i) \<longrightarrow> b_dev (bufs s i) = 1) \<and>
     (b_dev (bufs s i) = 1 \<and> \<not> b_dirty (bufs s i) \<and> \<not> locked_buf s i \<longrightarrow>
        b_data (bufs s i) = mdisk s (b_blockno (bufs s i)))"

definition uniq :: "'a bstate_scheme \<Rightarrow> bool" where
  "uniq s \<longleftrightarrow> (\<forall>i j b. holds_blk s i b \<and> holds_blk s j b \<longrightarrow> i = j)"

definition binv :: "'a bstate_scheme \<Rightarrow> bool" where
  "binv s \<longleftrightarrow> (\<exists>xs. ring s xs \<and> set xs = {0..<NBUF}) \<and> (\<forall>i < NBUF. buf_ok s i) \<and> uniq s \<and>
     (\<forall>b. length (mdisk s b) = BSIZE)"

text \<open>What a read of a block returns; the blocks that are dirty and those somebody holds.\<close>

definition cached :: "'a bstate_scheme \<Rightarrow> u32 \<Rightarrow> nat option" where
  "cached s b = find (\<lambda>i. b_dev (bufs s i) = 1 \<and> b_blockno (bufs s i) = b) [0..<NBUF]"

definition view :: "'a bstate_scheme \<Rightarrow> u32 \<Rightarrow> block" where
  "view s b = (case cached s b of Some i \<Rightarrow> b_data (bufs s i) | None \<Rightarrow> mdisk s b)"

definition dirty_blks :: "'a bstate_scheme \<Rightarrow> u32 set" where
  "dirty_blks s = {b. \<exists>i. holds_blk s i b \<and> b_dirty (bufs s i)}"

definition held_blks :: "'a bstate_scheme \<Rightarrow> u32 set" where
  "held_blks s = {b. \<exists>i. holds_blk s i b \<and> locked_buf s i}"

lemma cached_None: "cached s b = None \<longleftrightarrow> (\<forall>i. \<not> holds_blk s i b)"
  by (auto simp: cached_def find_None_iff holds_blk_def)

lemma cached_holds: "cached s b = Some i \<Longrightarrow> holds_blk s i b"
  by (auto simp: cached_def find_Some_iff holds_blk_def)

lemma uniqD: "uniq s \<Longrightarrow> holds_blk s i b \<Longrightarrow> holds_blk s j b \<Longrightarrow> i = j"
  by (auto simp: uniq_def)

lemma cached_Some: "uniq s \<Longrightarrow> holds_blk s i b \<Longrightarrow> cached s b = Some i"
  by (metis cached_None cached_holds uniqD not_None_eq)

lemma view_holds: "uniq s \<Longrightarrow> holds_blk s i b \<Longrightarrow> view s b = b_data (bufs s i)"
  by (simp add: view_def cached_Some)

lemma view_uncached: "(\<And>i. \<not> holds_blk s i b) \<Longrightarrow> view s b = mdisk s b"
  by (simp add: view_def cached_None [THEN iffD2])

lemma binvD:
  assumes "binv s"
  shows "i < NBUF \<Longrightarrow> buf_ok s i" "uniq s" "length (mdisk s b) = BSIZE"
    "\<exists>xs. ring s xs \<and> set xs = {0..<NBUF}"
  using assms by (auto simp: binv_def)

lemma length_view: "binv s \<Longrightarrow> length (view s b) = BSIZE"
  by (auto simp: view_def binv_def buf_ok_def holds_blk_def split: option.split dest!: cached_holds)

lemma clean_view:
  assumes "binv s" and "b \<notin> dirty_blks s" and "b \<notin> held_blks s"
  shows "view s b = mdisk s b"
proof (cases "cached s b")
  case None
  then show ?thesis by (simp add: view_def)
next
  case (Some i)
  then have h: "holds_blk s i b" by (rule cached_holds)
  then have "buf_ok s i" using binvD(1) [OF assms(1)] by (auto simp: holds_blk_def)
  with h assms(2,3) Some show ?thesis
    by (auto simp: buf_ok_def holds_blk_def view_def dirty_blks_def held_blks_def)
qed

section \<open>Reading a block\<close>

lemma ring_links:
  "(\<And>i. b_next (bufs s' i) = b_next (bufs s i)) \<Longrightarrow> (\<And>i. b_prev (bufs s' i) = b_prev (bufs s i)) \<Longrightarrow>
    ring s' xs = ring s xs"
  by (simp add: ring_def)

abbreviation busy_blks :: "'a bstate_scheme \<Rightarrow> u32 set" where
  "busy_blks s \<equiv> dirty_blks s \<union> held_blks s"

lemma some_unused:
  assumes "binv s" and "card (busy_blks s) < NBUF"
  shows "\<exists>i < NBUF. b_refcnt (bufs s i) = 0 \<and> \<not> b_dirty (bufs s i)"
proof (rule ccontr)
  assume "\<not> ?thesis"
  then have busy: "b_dirty (bufs s i) \<or> locked_buf s i" if "i < NBUF" for i
    using that binvD(1) [OF assms(1), of i] by (auto simp: buf_ok_def split: if_splits)
  let ?f = "\<lambda>i. b_blockno (bufs s i)"
  have h: "holds_blk s i (?f i)" if "i < NBUF" for i
    using busy [OF that] binvD(1) [OF assms(1) that] that by (auto simp: buf_ok_def holds_blk_def)
  have "inj_on ?f {0..<NBUF}"
    using h uniqD [OF binvD(2) [OF assms(1)]] by (intro inj_onI) (metis atLeastLessThan_iff)
  then have "card (?f ` {0..<NBUF}) = NBUF" by (simp add: card_image)
  moreover have "?f ` {0..<NBUF} = busy_blks s"
  proof (intro equalityI subsetI)
    fix b assume "b \<in> ?f ` {0..<NBUF}"
    then obtain i where "i < NBUF" "b = ?f i" by auto
    with busy [of i] h [of i] show "b \<in> busy_blks s" by (auto simp: dirty_blks_def held_blks_def)
  qed (auto simp: dirty_blks_def held_blks_def holds_blk_def)
  ultimately show False using assms(2) by simp
qed

text \<open>
  \<open>fetched s b i x\<close>: buffer \<open>i\<close>, with new contents \<open>x\<close>, can become the locked buffer of \<open>b\<close>.
\<close>

definition fetched :: "'a bstate_scheme \<Rightarrow> u32 \<Rightarrow> nat \<Rightarrow> buf \<Rightarrow> bool" where
  "fetched s b i x \<longleftrightarrow> i < NBUF \<and> b_next x = b_next (bufs s i) \<and> b_prev x = b_prev (bufs s i) \<and>
     b_valid x \<and> b_dev x = 1 \<and> b_blockno x = b \<and> b_refcnt x = 1 \<and> sl_locked (b_lock x) \<and>
     b_data x = view s b \<and> \<not> locked_buf s i \<and>
     (if holds_blk s i b then b_dirty x = b_dirty (bufs s i)
      else (\<forall>j. \<not> holds_blk s j b) \<and> \<not> b_dirty (bufs s i) \<and> \<not> b_dirty x)"

lemma find_in: "find P xs = Some i \<Longrightarrow> i \<in> set xs \<and> P i"
  by (metis find_Some_iff nth_mem)

lemma bread_fetches:
  assumes "binv s" and "b < disksize s" and "b \<notin> held_blks s"
    and "b \<in> dirty_blks s \<or> card (busy_blks s) < NBUF"
  shows "\<exists>i x. bread s 1 b = ok (s\<lparr>bufs := (bufs s)(i := x)\<rparr>, i) \<and> fetched s b i x"
proof -
  obtain xs where xs: "ring s xs" "set xs = {0..<NBUF}" using binvD(4) [OF assms(1)] by blast
  have len: "length xs = NBUF"
    using xs distinct_card [of xs] by (simp add: ring_def)
  have fc: "find_cached NBUF (bufs s) 1 b (b_next (bufs s HEAD)) =
      ok (find (\<lambda>i. b_dev (bufs s i) = 1 \<and> b_blockno (bufs s i) = b) xs)"
    using xs(1) len by (intro find_cached_ring) (auto simp: ring_def)
  have fu: "find_unused NBUF (bufs s) (b_prev (bufs s HEAD)) =
      ok (find (\<lambda>i. b_refcnt (bufs s i) = 0 \<and> \<not> b_dirty (bufs s i)) (rev xs))"
    using xs(1) len by (intro find_unused_ring) (auto simp: ring_def)
  show ?thesis
  proof (cases "find (\<lambda>i. b_dev (bufs s i) = 1 \<and> b_blockno (bufs s i) = b) xs")
    case (Some i)
    then have i: "i < NBUF" "holds_blk s i b" using find_in [OF Some] xs(2) by (auto simp: holds_blk_def)
    then have nl: "\<not> locked_buf s i" using assms(3) by (auto simp: held_blks_def)
    have ok_i: "buf_ok s i" using binvD(1) [OF assms(1) i(1)] .
    let ?x = "(bufs s i)\<lparr>b_refcnt := 1, b_lock := \<lparr>sl_locked = True, sl_pid = bpid s\<rparr>\<rparr>"
    have "bread s 1 b = ok (s\<lparr>bufs := (bufs s)(i := ?x)\<rparr>, i)"
      using Some fc nl ok_i i
      by (simp add: bread_def bget_def lock_buf_def upd_buf_def acquiresleep_free buf_ok_def holds_blk_def)
    moreover have "fetched s b i ?x"
      using i nl ok_i view_holds [OF binvD(2) [OF assms(1)] i(2)]
      by (simp add: fetched_def buf_ok_def holds_blk_def)
    ultimately show ?thesis by blast
  next
    case None
    then have nc: "\<not> holds_blk s j b" for j using xs(2) by (auto simp: find_None_iff holds_blk_def)
    have "b \<notin> dirty_blks s" using nc by (simp add: dirty_blks_def)
    then obtain k where "k < NBUF" "b_refcnt (bufs s k) = 0" "\<not> b_dirty (bufs s k)"
      using some_unused [OF assms(1)] assms(4) by blast
    then obtain i where f: "find (\<lambda>i. b_refcnt (bufs s i) = 0 \<and> \<not> b_dirty (bufs s i)) (rev xs) = Some i"
      using xs(2) by (cases "find (\<lambda>i. b_refcnt (bufs s i) = 0 \<and> \<not> b_dirty (bufs s i)) (rev xs)")
        (auto simp: find_None_iff)
    then have i: "i < NBUF" "b_refcnt (bufs s i) = 0" "\<not> b_dirty (bufs s i)"
      using find_in [OF f] xs(2) by auto
    have nl: "\<not> locked_buf s i" using binvD(1) [OF assms(1) i(1)] i(2) by (auto simp: buf_ok_def)
    let ?x = "(bufs s i)\<lparr>b_dev := 1, b_blockno := b, b_dirty := False, b_refcnt := 1,
      b_lock := \<lparr>sl_locked = True, sl_pid = bpid s\<rparr>, b_data := mdisk s b, b_valid := True\<rparr>"
    have "bread s 1 b = ok (s\<lparr>bufs := (bufs s)(i := ?x)\<rparr>, i)"
      using None fc f fu nl assms(2)
      by (simp add: bread_def bget_def lock_buf_def upd_buf_def acquiresleep_free iderw_def
          holdingsleep_def Let_def linorder_not_le [symmetric])
    moreover have "fetched s b i ?x"
      using i nl nc view_uncached [of s b] by (simp add: fetched_def)
    ultimately show ?thesis by blast
  qed
qed

lemma holds_upd:
  "holds_blk (s\<lparr>bufs := (bufs s)(i := x)\<rparr>) j b \<longleftrightarrow>
    (if j = i then i < NBUF \<and> b_dev x = 1 \<and> b_blockno x = b else holds_blk s j b)"
  by (auto simp: holds_blk_def)

text \<open>The two sets seen from one buffer \<open>i\<close> and the others.\<close>

definition others :: "'a bstate_scheme \<Rightarrow> (buf \<Rightarrow> bool) \<Rightarrow> nat \<Rightarrow> u32 \<Rightarrow> bool" where
  "others s P i c \<longleftrightarrow> (\<exists>j. j \<noteq> i \<and> holds_blk s j c \<and> P (bufs s j))"

lemma dirty_split: "c \<in> dirty_blks s \<longleftrightarrow> holds_blk s i c \<and> b_dirty (bufs s i) \<or> others s b_dirty i c"
  by (auto simp: dirty_blks_def others_def)

lemma held_split:
  "c \<in> held_blks s \<longleftrightarrow> holds_blk s i c \<and> locked_buf s i \<or> others s (\<lambda>x. sl_locked (b_lock x)) i c"
  by (auto simp: held_blks_def others_def)

lemma others_upd [simp]: "others (s\<lparr>bufs := (bufs s)(i := x)\<rparr>) P i c = others s P i c"
  by (auto simp: others_def holds_upd)

lemma fetched_binv:
  assumes "binv s" and "fetched s b i x" and "b < disksize s"
  shows "binv (s\<lparr>bufs := (bufs s)(i := x)\<rparr>)" (is "binv ?s'")
proof -
  note f = assms(2) [unfolded fetched_def]
  obtain xs where xs: "ring s xs" "set xs = {0..<NBUF}" using binvD(4) [OF assms(1)] by blast
  have "ring ?s' xs" using xs(1) f by (subst ring_links [of ?s' s]) auto
  moreover have "buf_ok ?s' j" if "j < NBUF" for j
    using binvD(1) [OF assms(1) that] f assms(3) length_view [OF assms(1)]
    by (auto simp: buf_ok_def)
  moreover have "uniq ?s'"
    unfolding uniq_def holds_upd
    using f binvD(2) [OF assms(1)] by (auto split: if_splits dest: uniqD)
  ultimately show ?thesis using xs(2) binvD(3) [OF assms(1)] by (auto simp: binv_def)
qed

lemma fetched_view:
  assumes "binv s" and "fetched s b i x" and "b < disksize s"
  shows "view (s\<lparr>bufs := (bufs s)(i := x)\<rparr>) = view s" (is "view ?s' = _")
proof
  fix c
  note f = assms(2) [unfolded fetched_def] and u = binvD(2) [OF assms(1)]
  have u': "uniq ?s'" using binvD(2) [OF fetched_binv [OF assms]] .
  show "view ?s' c = view s c"
  proof (cases "c = b")
    case True
    have "holds_blk ?s' i b" using f by (simp add: holds_upd)
    then show ?thesis using view_holds [OF u'] f True by simp
  next
    case ne: False
    show ?thesis
    proof (cases "\<exists>j. j \<noteq> i \<and> holds_blk s j c")
      case True
      then obtain j where "j \<noteq> i" "holds_blk s j c" by blast
      then show ?thesis using view_holds [OF u] view_holds [OF u', of j c] by (simp add: holds_upd)
    next
      case False
      then have "\<not> holds_blk ?s' j c" for j using f ne by (auto simp: holds_upd)
      then have "view ?s' c = mdisk s c" by (subst view_uncached) auto
      moreover have "view s c = mdisk s c"
      proof (cases "holds_blk s i c")
        case True
        then have "\<not> holds_blk s i b" using ne by (auto simp: holds_blk_def)
        then have "c \<notin> dirty_blks s" "c \<notin> held_blks s"
          using f True u by (auto simp: dirty_blks_def held_blks_def dest: uniqD)
        then show ?thesis by (rule clean_view [OF assms(1)])
      next
        case no: False
        with False show ?thesis by (intro view_uncached) metis
      qed
      ultimately show ?thesis by simp
    qed
  qed
qed

lemma fetched_sets:
  assumes "binv s" and "fetched s b i x"
  shows "dirty_blks (s\<lparr>bufs := (bufs s)(i := x)\<rparr>) = dirty_blks s"
    "held_blks (s\<lparr>bufs := (bufs s)(i := x)\<rparr>) = insert b (held_blks s)"
proof -
  note f = assms(2) [unfolded fetched_def] and u = binvD(2) [OF assms(1)]
  have d: "holds_blk s i c \<and> b_dirty (bufs s i) \<longleftrightarrow> c = b \<and> b_dirty x" for c
    using f by (auto simp: holds_blk_def split: if_splits)
  show "dirty_blks (s\<lparr>bufs := (bufs s)(i := x)\<rparr>) = dirty_blks s"
    unfolding set_eq_iff dirty_split [of _ _ i] using f d by (auto simp: holds_upd)
  have l: "\<not> (holds_blk s i c \<and> locked_buf s i)" for c using f by simp
  show "held_blks (s\<lparr>bufs := (bufs s)(i := x)\<rparr>) = insert b (held_blks s)"
    unfolding set_eq_iff insert_iff held_split [of _ _ i] using f l by (auto simp: holds_upd)
qed

section \<open>Changing a buffer that is held\<close>

definition handle :: "'a bstate_scheme \<Rightarrow> nat \<Rightarrow> u32 \<Rightarrow> bool" where
  "handle s i b \<longleftrightarrow> holds_blk s i b \<and> locked_buf s i"

text \<open>
  The buffer \<open>i\<close> of block \<open>b\<close> becomes \<open>x\<close> and the block on disk becomes \<open>d\<close>.
\<close>

definition changed :: "'a bstate_scheme \<Rightarrow> nat \<Rightarrow> buf \<Rightarrow> u32 \<Rightarrow> block \<Rightarrow> (u32 \<times> block) list \<Rightarrow> 'a bstate_scheme" where
  "changed s i x b d w = s\<lparr>bufs := (bufs s)(i := x), mdisk := (mdisk s)(b := d), dwrites := w\<rparr>"

definition change_ok :: "'a bstate_scheme \<Rightarrow> nat \<Rightarrow> buf \<Rightarrow> u32 \<Rightarrow> block \<Rightarrow> bool" where
  "change_ok s i x b d \<longleftrightarrow> holds_blk s i b \<and> b_next x = b_next (bufs s i) \<and> b_prev x = b_prev (bufs s i) \<and>
     b_valid x \<and> b_dev x = 1 \<and> b_blockno x = b \<and> length (b_data x) = BSIZE \<and> length d = BSIZE \<and>
     b_refcnt x = (if sl_locked (b_lock x) then 1 else 0) \<and>
     (\<not> b_dirty x \<and> \<not> sl_locked (b_lock x) \<longrightarrow> b_data x = d)"

lemma holds_changed:
  "change_ok s i x b d \<Longrightarrow> holds_blk (changed s i x b d w) j c = holds_blk s j c"
  by (auto simp: changed_def change_ok_def holds_blk_def)

lemma bufs_changed: "bufs (changed s i x b d w) j = (if j = i then x else bufs s j)"
  by (simp add: changed_def)

lemma changed_binv:
  assumes "binv s" and c: "change_ok s i x b d"
  shows "binv (changed s i x b d w)" (is "binv ?s'")
proof -
  note h = c [unfolded change_ok_def]
  obtain xs where xs: "ring s xs" "set xs = {0..<NBUF}" using binvD(4) [OF assms(1)] by blast
  have "ring ?s' xs" using xs(1) h by (subst ring_links [of ?s' s]) (auto simp: bufs_changed)
  moreover have "buf_ok ?s' j" if "j < NBUF" for j
  proof (cases "j = i")
    case True
    have "buf_ok s i" using binvD(1) [OF assms(1), of i] h by (simp add: holds_blk_def)
    then show ?thesis using h True by (auto simp: buf_ok_def changed_def holds_blk_def)
  next
    case False
    then have "\<not> holds_blk s j b" using h uniqD [OF binvD(2) [OF assms(1)]] by blast
    then show ?thesis
      using binvD(1) [OF assms(1) that] False that by (auto simp: buf_ok_def changed_def holds_blk_def)
  qed
  moreover have "uniq ?s'"
    using binvD(2) [OF assms(1)] by (simp add: uniq_def holds_changed [OF c])
  ultimately show ?thesis using xs(2) binvD(3) [OF assms(1)] h by (auto simp: binv_def changed_def)
qed

lemma changed_view:
  assumes "binv s" and c: "change_ok s i x b d"
  shows "view (changed s i x b d w) = (view s)(b := b_data x)" (is "view ?s' = _")
proof
  fix a
  note h = c [unfolded change_ok_def] and u = binvD(2) [OF assms(1)]
  have u': "uniq ?s'" using binvD(2) [OF changed_binv [OF assms]] .
  show "view ?s' a = ((view s)(b := b_data x)) a"
  proof (cases "a = b")
    case True
    then show ?thesis
      using view_holds [OF u', of i b] holds_changed [OF c] h by (simp add: bufs_changed)
  next
    case False
    show ?thesis
    proof (cases "\<exists>j. holds_blk s j a")
      case True
      then obtain j where j: "holds_blk s j a" by blast
      with h False have "j \<noteq> i" by (auto simp: holds_blk_def)
      with j False show ?thesis
        using view_holds [OF u j] view_holds [OF u', of j a] holds_changed [OF c] by (simp add: bufs_changed)
    next
      case no: False
      then have "view s a = mdisk s a" by (intro view_uncached) blast
      moreover have "view ?s' a = mdisk ?s' a"
        using no holds_changed [OF c] by (intro view_uncached) blast
      ultimately show ?thesis using False by (simp add: changed_def)
    qed
  qed
qed

lemma changed_sets:
  assumes "binv s" and c: "change_ok s i x b d"
  shows "dirty_blks (changed s i x b d w) = (if b_dirty x then insert b (dirty_blks s) else dirty_blks s - {b})"
    "held_blks (changed s i x b d w) =
      (if sl_locked (b_lock x) then insert b (held_blks s) else held_blks s - {b})"
proof -
  have hb: "holds_blk s i b" using c by (simp add: change_ok_def)
  then have ib: "holds_blk s i a \<longleftrightarrow> a = b" for a by (auto simp: holds_blk_def)
  have ob: "\<not> others s P i b" for P
    unfolding others_def using hb uniqD [OF binvD(2) [OF assms(1)]] by blast
  have oc: "others (changed s i x b d w) P i a = others s P i a" for P a
    unfolding others_def holds_changed [OF c] bufs_changed by auto
  show "dirty_blks (changed s i x b d w) = (if b_dirty x then insert b (dirty_blks s) else dirty_blks s - {b})"
    by (rule set_eqI) (use ob [of b_dirty] in \<open>auto simp: dirty_split [of _ _ i] holds_changed [OF c] bufs_changed ib oc\<close>)
  show "held_blks (changed s i x b d w) =
      (if sl_locked (b_lock x) then insert b (held_blks s) else held_blks s - {b})"
    by (rule set_eqI) (use ob [of "\<lambda>x. sl_locked (b_lock x)"] in
        \<open>auto simp: held_split [of _ _ i] holds_changed [OF c] bufs_changed ib oc\<close>)
qed

lemma changed_handle:
  assumes "change_ok s i x b d"
  shows "handle (changed s i x b d w) j c \<longleftrightarrow>
    (if j = i then c = b \<and> sl_locked (b_lock x) else handle s j c)"
  using assms holds_changed [OF assms]
  by (auto simp: handle_def bufs_changed change_ok_def holds_blk_def)

lemma changed_id: "s\<lparr>bufs := f\<rparr> = s\<lparr>bufs := f, mdisk := (mdisk s)(b := mdisk s b), dwrites := dwrites s\<rparr>"
  by (cases s) simp

section \<open>Relinking\<close>

lemma relinked_holds: "relinked s s' \<Longrightarrow> holds_blk s' i b = holds_blk s i b"
  by (simp add: holds_blk_def relinkedD)

lemma relinked_view: "relinked s s' \<Longrightarrow> view s' = view s"
  by (rule ext) (simp add: view_def cached_def relinkedD split: option.split)

lemma relinked_sets:
  "relinked s s' \<Longrightarrow> dirty_blks s' = dirty_blks s" "relinked s s' \<Longrightarrow> held_blks s' = held_blks s"
  by (simp_all add: dirty_blks_def held_blks_def relinked_holds relinkedD)

lemma relinked_binv:
  assumes "binv s" and "relinked s s'" and "ring s' xs" and "set xs = {0..<NBUF}"
  shows "binv s'"
  using assms by (auto simp: binv_def buf_ok_def uniq_def relinked_holds relinkedD)

lemma relinked_trans: "relinked s t \<Longrightarrow> relinked t u \<Longrightarrow> relinked s u"
  by (auto simp: relinked_def)

lemma relinked_handle: "relinked s s' \<Longrightarrow> handle s' i b = handle s i b"
  by (simp add: handle_def relinked_holds relinkedD)

lemma move_front:
  assumes "binv s" and "i < NBUF"
  shows "binv (link_front i (unlink i s))" "relinked s (link_front i (unlink i s))"
proof -
  obtain xs where xs: "ring s xs" "set xs = {0..<NBUF}" using binvD(4) [OF assms(1)] by blast
  then have "i \<in> set xs" using assms(2) by simp
  then obtain us vs where e: "xs = us @ i # vs" by (auto dest: split_list)
  have d: "distinct (HEAD # xs)" using xs(1) by (simp add: ring_def)
  have i: "i \<noteq> HEAD" "i \<notin> set (us @ vs)" using d e by auto
  have "npath (nx s) i vs HEAD"
    using xs(1) e npath_append [of "nx s" HEAD us i vs HEAD] by (simp add: ring_def)
  then have "nx s i \<noteq> i" using npath_hd i d e by (metis UnI2 hd_in_set set_append)
  then have r: "relinked s (link_front i (unlink i s))"
    using unlink_links(3) link_front_links(3) [OF i(1)] by (blast intro: relinked_trans)
  have "ring (unlink i s) (us @ vs)" using ring_unlink xs(1) e by blast
  then have "ring (link_front i (unlink i s)) (i # us @ vs)" using ring_link_front i by blast
  moreover have "set (i # us @ vs) = {0..<NBUF}" using xs(2) e by auto
  ultimately show "binv (link_front i (unlink i s))" using relinked_binv [OF assms(1) r] by blast
  show "relinked s (link_front i (unlink i s))" by (rule r)
qed

section \<open>What the cache promises\<close>

text \<open>
  The contract in terms of \<open>view\<close>, what a read of a block returns; \<open>disk\<close>, what is on the
  disk; and \<open>trace\<close>, the writes the disk has seen. A block somebody holds has a handle.
\<close>

locale block_cache =
  fixes read :: "'s \<Rightarrow> u32 \<Rightarrow> ('s \<times> 'h) outcome"
    and commit_buf :: "'s \<Rightarrow> 'h \<Rightarrow> 's outcome"
    and release_buf :: "'s \<Rightarrow> 'h \<Rightarrow> 's outcome"
    and store :: "'s \<Rightarrow> 'h \<Rightarrow> block \<Rightarrow> 's"
    and mark :: "'s \<Rightarrow> 'h \<Rightarrow> 's"
    and load :: "'s \<Rightarrow> 'h \<Rightarrow> block"
    and inv :: "'s \<Rightarrow> bool"
    and vw :: "'s \<Rightarrow> u32 \<Rightarrow> block"
    and dirty :: "'s \<Rightarrow> u32 set"
    and held :: "'s \<Rightarrow> u32 set"
    and hnd :: "'s \<Rightarrow> 'h \<Rightarrow> u32 \<Rightarrow> bool"
    and disk :: "'s \<Rightarrow> u32 \<Rightarrow> block"
    and trace :: "'s \<Rightarrow> (u32 \<times> block) list"
    and rest :: "'s \<Rightarrow> 'r"
    and blocks :: "'s \<Rightarrow> u32"
    and cap :: nat
  assumes blocks_rest: "rest s = rest s' \<Longrightarrow> blocks s = blocks s'"
    and clean: "inv s \<Longrightarrow> b \<notin> dirty s \<Longrightarrow> b \<notin> held s \<Longrightarrow> vw s b = disk s b"
    and lengths: "inv s \<Longrightarrow> length (vw s b) = BSIZE \<and> length (disk s b) = BSIZE"
    and load_ok: "inv s \<Longrightarrow> hnd s h b \<Longrightarrow> load s h = vw s b \<and> b \<in> held s"
    and read_ok: "inv s \<Longrightarrow> b < blocks s \<Longrightarrow> b \<notin> held s \<Longrightarrow>
      b \<in> dirty s \<or> card (dirty s \<union> held s) < cap \<Longrightarrow>
      \<exists>s' h. read s b = ok (s', h) \<and> inv s' \<and> hnd s' h b \<and> vw s' = vw s \<and> dirty s' = dirty s \<and>
        held s' = insert b (held s) \<and> disk s' = disk s \<and> trace s' = trace s \<and> rest s' = rest s \<and>
        (\<forall>h' b'. hnd s h' b' \<longrightarrow> hnd s' h' b')"
    and store_ok: "inv s \<Longrightarrow> hnd s h b \<Longrightarrow> length d = BSIZE \<Longrightarrow>
      inv (store s h d) \<and> vw (store s h d) = (vw s)(b := d) \<and> dirty (store s h d) = dirty s \<and>
        held (store s h d) = held s \<and> disk (store s h d) = disk s \<and> trace (store s h d) = trace s \<and>
        rest (store s h d) = rest s \<and> hnd (store s h d) = hnd s"
    and mark_ok: "inv s \<Longrightarrow> hnd s h b \<Longrightarrow>
      inv (mark s h) \<and> vw (mark s h) = vw s \<and> dirty (mark s h) = insert b (dirty s) \<and>
        held (mark s h) = held s \<and> disk (mark s h) = disk s \<and> trace (mark s h) = trace s \<and>
        rest (mark s h) = rest s \<and> hnd (mark s h) = hnd s"
    and commit_buf_ok: "inv s \<Longrightarrow> hnd s h b \<Longrightarrow>
      \<exists>s'. commit_buf s h = ok s' \<and> inv s' \<and> vw s' = vw s \<and> dirty s' = dirty s - {b} \<and> held s' = held s \<and>
        disk s' = (disk s)(b := vw s b) \<and> trace s' = trace s @ [(b, vw s b)] \<and> rest s' = rest s \<and>
        hnd s' = hnd s"
    and release_buf_ok: "inv s \<Longrightarrow> hnd s h b \<Longrightarrow> b \<in> dirty s \<or> vw s b = disk s b \<Longrightarrow>
      \<exists>s'. release_buf s h = ok s' \<and> inv s' \<and> vw s' = vw s \<and> dirty s' = dirty s \<and> held s' = held s - {b} \<and>
        disk s' = disk s \<and> trace s' = trace s \<and> rest s' = rest s \<and>
        (\<forall>h' b'. b' \<noteq> b \<longrightarrow> hnd s h' b' \<longrightarrow> hnd s' h' b')"
begin

text \<open>
  Copying block \<open>a\<close> over block \<open>b\<close> on disk, with the two orders of taking the buffers.
\<close>

definition copy_to :: "u32 \<Rightarrow> u32 \<Rightarrow> 's \<Rightarrow> 's outcome" where
  "copy_to a b s =
     bnd (read s b) (\<lambda>(s, hb). bnd (read s a) (\<lambda>(s, ha).
     bnd (commit_buf (store s hb (load s ha)) hb) (\<lambda>s.
     bnd (release_buf s ha) (\<lambda>s. release_buf s hb))))"

definition copy_from :: "u32 \<Rightarrow> u32 \<Rightarrow> 's \<Rightarrow> 's outcome" where
  "copy_from a b s =
     bnd (read s a) (\<lambda>(s, ha). bnd (read s b) (\<lambda>(s, hb).
     bnd (commit_buf (store s hb (load s ha)) hb) (\<lambda>s.
     bnd (release_buf s ha) (\<lambda>s. release_buf s hb))))"

text \<open>The state after a copy.\<close>

definition copied :: "u32 \<Rightarrow> u32 \<Rightarrow> 's \<Rightarrow> 's \<Rightarrow> bool" where
  "copied a b s s' \<longleftrightarrow> inv s' \<and> vw s' = (vw s)(b := vw s a) \<and> dirty s' = dirty s - {b} \<and>
     held s' = held s \<and> disk s' = (disk s)(b := vw s a) \<and> trace s' = trace s @ [(b, vw s a)] \<and>
     rest s' = rest s"

lemma copy_tail:
  assumes "inv s" and "hnd s ha a" and "hnd s hb b" and "a \<noteq> b"
    and "a \<in> dirty s \<or> vw s a = disk s a"
  shows "\<exists>s'. bnd (commit_buf (store s hb (load s ha)) hb) (\<lambda>s. bnd (release_buf s ha) (\<lambda>s. release_buf s hb))
      = ok s' \<and> inv s' \<and> vw s' = (vw s)(b := vw s a) \<and> dirty s' = dirty s - {b} \<and>
        held s' = held s - {a, b} \<and> disk s' = (disk s)(b := vw s a) \<and> trace s' = trace s @ [(b, vw s a)] \<and>
        rest s' = rest s"
proof -
  let ?s1 = "store s hb (load s ha)"
  have l: "load s ha = vw s a" using load_ok assms(1,2) by blast
  have 1: "inv ?s1" "vw ?s1 = (vw s)(b := vw s a)" "dirty ?s1 = dirty s" "held ?s1 = held s"
    "disk ?s1 = disk s" "trace ?s1 = trace s" "rest ?s1 = rest s" "hnd ?s1 = hnd s"
    using store_ok [OF assms(1,3), of "load s ha"] lengths [OF assms(1)] l by auto
  obtain s2 where 2: "commit_buf ?s1 hb = ok s2" "inv s2" "vw s2 = vw ?s1" "dirty s2 = dirty s - {b}"
    "held s2 = held s" "disk s2 = (disk s)(b := vw s a)" "trace s2 = trace s @ [(b, vw s a)]"
    "rest s2 = rest s" "hnd s2 = hnd s"
    using commit_buf_ok [OF 1(1), of hb b] 1 assms(3) by auto
  have "a \<in> dirty s2 \<or> vw s2 a = disk s2 a" using 1 2 assms(4,5) by auto
  then obtain s3 where 3: "release_buf s2 ha = ok s3" "inv s3" "vw s3 = vw s2" "dirty s3 = dirty s2"
    "held s3 = held s - {a}" "disk s3 = disk s2" "trace s3 = trace s2" "rest s3 = rest s" "hnd s3 hb b"
    using release_buf_ok [OF 2(2), of ha a] 2 assms by auto
  have "vw s3 b = disk s3 b" using 1 2 3 by simp
  then obtain s4 where "release_buf s3 hb = ok s4" "inv s4" "vw s4 = vw s3" "dirty s4 = dirty s3"
    "held s4 = held s3 - {b}" "disk s4 = disk s3" "trace s4 = trace s3" "rest s4 = rest s"
    using release_buf_ok [OF 3(2,9)] 3 by auto
  with 1 2 3 show ?thesis by auto
qed

lemma copy_to_ok:
  assumes "inv s" and "a \<noteq> b" and "a < blocks s" and "b < blocks s" and "a \<notin> held s" and "b \<notin> held s"
    and "a \<in> dirty s" and "card (dirty s \<union> held s) < cap"
  shows "\<exists>s'. copy_to a b s = ok s' \<and> copied a b s s'"
proof -
  obtain s1 hb where 1: "read s b = ok (s1, hb)" "inv s1" "hnd s1 hb b" "vw s1 = vw s" "dirty s1 = dirty s"
    "held s1 = insert b (held s)" "disk s1 = disk s" "trace s1 = trace s" "rest s1 = rest s"
    using read_ok [OF assms(1,4,6)] assms(8) by blast
  have "a < blocks s1" "a \<notin> held s1" "a \<in> dirty s1"
    using 1 assms blocks_rest [of s1 s] by auto
  then obtain s2 ha where 2: "read s1 a = ok (s2, ha)" "inv s2" "hnd s2 ha a" "vw s2 = vw s" "dirty s2 = dirty s"
    "held s2 = insert a (insert b (held s))" "disk s2 = disk s" "trace s2 = trace s" "rest s2 = rest s"
    "hnd s2 hb b"
    using read_ok [OF 1(2)] 1 by (metis (no_types, lifting))
  have "a \<in> dirty s2 \<or> vw s2 a = disk s2 a" using 2 assms(7) by simp
  from copy_tail [OF 2(2,3,10) assms(2) this] show ?thesis
    using 1(1) 2 assms(5,6) by (auto simp: copy_to_def copied_def)
qed

lemma copy_from_ok:
  assumes "inv s" and "a \<noteq> b" and "a < blocks s" and "b < blocks s" and "a \<notin> held s" and "b \<notin> held s"
    and "a \<notin> dirty s" and "card (dirty s \<union> held s) < cap"
    and "b \<in> dirty s \<or> card (insert a (dirty s \<union> held s)) < cap"
  shows "\<exists>s'. copy_from a b s = ok s' \<and> copied a b s s'"
proof -
  obtain s1 ha where 1: "read s a = ok (s1, ha)" "inv s1" "hnd s1 ha a" "vw s1 = vw s" "dirty s1 = dirty s"
    "held s1 = insert a (held s)" "disk s1 = disk s" "trace s1 = trace s" "rest s1 = rest s"
    using read_ok [OF assms(1,3,5)] assms(8) by blast
  have "b < blocks s1" "b \<notin> held s1" "b \<in> dirty s1 \<or> card (dirty s1 \<union> held s1) < cap"
    using 1 assms blocks_rest [of s1 s] by auto
  then obtain s2 hb where 2: "read s1 b = ok (s2, hb)" "inv s2" "hnd s2 hb b" "vw s2 = vw s" "dirty s2 = dirty s"
    "held s2 = insert b (insert a (held s))" "disk s2 = disk s" "trace s2 = trace s" "rest s2 = rest s"
    "hnd s2 ha a"
    using read_ok [OF 1(2)] 1 by (metis (no_types, lifting))
  have "vw s a = disk s a" using clean assms(1,5,7) by blast
  then have "a \<in> dirty s2 \<or> vw s2 a = disk s2 a" using 2 by simp
  from copy_tail [OF 2(2,10,3) assms(2) this] show ?thesis
    using 1(1) 2 assms(5,6) by (auto simp: copy_from_def copied_def)
qed

text \<open>Reading a block, changing it, and writing it to disk at once.\<close>

lemma read_store_commit:
  assumes "inv s" and "b < blocks s" and "b \<notin> held s" and "b \<notin> dirty s" and "card (dirty s \<union> held s) < cap"
    and f: "\<And>d. length d = BSIZE \<Longrightarrow> length (f d) = BSIZE"
  shows "\<exists>s' s1 h. read s b = ok (s1, h) \<and> load s1 h = vw s b \<and> rest s1 = rest s \<and>
    bnd (commit_buf (store s1 h (f (load s1 h))) h) (\<lambda>s. release_buf s h) = ok s' \<and>
    inv s' \<and> vw s' = (vw s)(b := f (vw s b)) \<and> dirty s' = dirty s \<and> held s' = held s \<and>
    disk s' = (disk s)(b := f (vw s b)) \<and> trace s' = trace s @ [(b, f (vw s b))] \<and> rest s' = rest s"
proof -
  obtain s1 h where 1: "read s b = ok (s1, h)" "inv s1" "hnd s1 h b" "vw s1 = vw s" "dirty s1 = dirty s"
    "held s1 = insert b (held s)" "disk s1 = disk s" "trace s1 = trace s" "rest s1 = rest s"
    using read_ok [OF assms(1-3)] assms(5) by blast
  let ?s2 = "store s1 h (f (load s1 h))"
  have l: "load s1 h = vw s b" using load_ok [OF 1(2,3)] 1(4) by simp
  have 2: "inv ?s2" "vw ?s2 = (vw s)(b := f (vw s b))" "dirty ?s2 = dirty s" "held ?s2 = held s1"
    "disk ?s2 = disk s" "trace ?s2 = trace s" "rest ?s2 = rest s" "hnd ?s2 = hnd s1"
    using store_ok [OF 1(2,3), of "f (load s1 h)"] f lengths [OF assms(1)] l 1 by auto
  obtain s3 where 3: "commit_buf ?s2 h = ok s3" "inv s3" "vw s3 = vw ?s2" "dirty s3 = dirty s"
    "held s3 = held s1" "disk s3 = (disk s)(b := f (vw s b))" "trace s3 = trace s @ [(b, f (vw s b))]"
    "rest s3 = rest s" "hnd s3 h b"
    using commit_buf_ok [OF 2(1), of h b] 2 1(3) assms(4) by auto
  have "vw s3 b = disk s3 b" using 2 3 by simp
  then obtain s4 where "release_buf s3 h = ok s4" "inv s4" "vw s4 = vw s3" "dirty s4 = dirty s"
    "held s4 = held s3 - {b}" "disk s4 = disk s3" "trace s4 = trace s3" "rest s4 = rest s"
    using release_buf_ok [OF 3(2,9)] 3 by auto
  with 1 2 3 l assms(3) show ?thesis by auto
qed

text \<open>Reading a block, changing it, and marking it dirty.\<close>

lemma read_store_mark:
  assumes "inv s" and "b < blocks s" and "b \<notin> held s" and "b \<in> dirty s \<or> card (dirty s \<union> held s) < cap"
    and f: "\<And>d. length d = BSIZE \<Longrightarrow> length (f d) = BSIZE"
  shows "\<exists>s'. bnd (read s b) (\<lambda>(s, h). release_buf (mark (store s h (f (load s h))) h) h) = ok s' \<and>
    inv s' \<and> vw s' = (vw s)(b := f (vw s b)) \<and> dirty s' = insert b (dirty s) \<and> held s' = held s \<and>
    disk s' = disk s \<and> trace s' = trace s \<and> rest s' = rest s"
proof -
  obtain s1 h where 1: "read s b = ok (s1, h)" "inv s1" "hnd s1 h b" "vw s1 = vw s" "dirty s1 = dirty s"
    "held s1 = insert b (held s)" "disk s1 = disk s" "trace s1 = trace s" "rest s1 = rest s"
    using read_ok [OF assms(1-4)] by blast
  let ?s2 = "store s1 h (f (load s1 h))"
  have l: "load s1 h = vw s b" using load_ok [OF 1(2,3)] 1(4) by simp
  have 2: "inv ?s2" "vw ?s2 = (vw s)(b := f (vw s b))" "dirty ?s2 = dirty s" "held ?s2 = held s1"
    "disk ?s2 = disk s" "trace ?s2 = trace s" "rest ?s2 = rest s" "hnd ?s2 = hnd s1"
    using store_ok [OF 1(2,3), of "f (load s1 h)"] f lengths [OF assms(1)] l 1 by auto
  let ?s3 = "mark ?s2 h"
  have 3: "inv ?s3" "vw ?s3 = vw ?s2" "dirty ?s3 = insert b (dirty s)" "held ?s3 = held s1"
    "disk ?s3 = disk s" "trace ?s3 = trace s" "rest ?s3 = rest s" "hnd ?s3 = hnd s1"
    using mark_ok [OF 2(1), of h b] 2 1(3) by auto
  then obtain s4 where "release_buf ?s3 h = ok s4" "inv s4" "vw s4 = vw ?s3" "dirty s4 = dirty ?s3"
    "held s4 = held ?s3 - {b}" "disk s4 = disk s" "trace s4 = trace s" "rest s4 = rest s"
    using release_buf_ok [OF 3(1), of h b] 1(3) by auto
  with 1 2 3 assms(3) show ?thesis by auto
qed

end

section \<open>The code keeps the promise\<close>

definition set_data :: "'a bstate_scheme \<Rightarrow> nat \<Rightarrow> block \<Rightarrow> 'a bstate_scheme" where
  "set_data s i d = upd_buf i (\<lambda>x. x\<lparr>b_data := d\<rparr>) s"

definition set_dirty :: "'a bstate_scheme \<Rightarrow> nat \<Rightarrow> 'a bstate_scheme" where
  "set_dirty s i = upd_buf i (\<lambda>x. x\<lparr>b_dirty := True\<rparr>) s"

definition get_data :: "'a bstate_scheme \<Rightarrow> nat \<Rightarrow> block" where
  "get_data s i = b_data (bufs s i)"

definition brest :: "'a bstate_scheme \<Rightarrow> u32 \<times> int \<times> 'a" where
  "brest s = (disksize s, bpid s, bstate.more s)"

lemma set_data_changed:
  "holds_blk s i b \<Longrightarrow> set_data s i d = changed s i ((bufs s i)\<lparr>b_data := d\<rparr>) b (mdisk s b) (dwrites s)"
  unfolding set_data_def upd_buf_def changed_def by (subst changed_id [where b = b]) simp

lemma set_dirty_changed:
  "holds_blk s i b \<Longrightarrow> set_dirty s i = changed s i ((bufs s i)\<lparr>b_dirty := True\<rparr>) b (mdisk s b) (dwrites s)"
  unfolding set_dirty_def upd_buf_def changed_def by (subst changed_id [where b = b]) simp

lemma handle_buf_ok: "binv s \<Longrightarrow> handle s i b \<Longrightarrow> buf_ok s i"
  by (auto simp: handle_def holds_blk_def dest: binvD(1))

lemma handle_change_ok:
  assumes "binv s" and "handle s i b" and "length d = BSIZE"
  shows "change_ok s i ((bufs s i)\<lparr>b_data := d\<rparr>) b (mdisk s b)"
    "change_ok s i ((bufs s i)\<lparr>b_dirty := True\<rparr>) b (mdisk s b)"
    "change_ok s i ((bufs s i)\<lparr>b_dirty := False\<rparr>) b (b_data (bufs s i))"
  using handle_buf_ok [OF assms(1,2)] assms binvD(3) [OF assms(1)]
  by (auto simp: change_ok_def buf_ok_def handle_def holds_blk_def)

lemma rest_changed [simp]:
  "brest (changed s i x b d w) = brest s" "mdisk (changed s i x b d w) = (mdisk s)(b := d)"
  "dwrites (changed s i x b d w) = w"
  by (simp_all add: brest_def changed_def)

lemma handle_dirty: "binv s \<Longrightarrow> handle s i b \<Longrightarrow> b_dirty (bufs s i) \<longleftrightarrow> b \<in> dirty_blks s"
  unfolding dirty_blks_def handle_def by (blast dest: binvD(2) uniqD)

lemma buf_valid_same: "b_valid x \<Longrightarrow> x\<lparr>b_dirty := False, b_valid := True\<rparr> = x\<lparr>b_dirty := False\<rparr>"
  by (cases x) simp

lemma bwrite_eq:
  assumes "binv s" and "handle s i b"
  shows "bwrite s i = ok (changed s i ((bufs s i)\<lparr>b_dirty := False\<rparr>) b (b_data (bufs s i))
    (dwrites s @ [(b, b_data (bufs s i))]))"
  using handle_buf_ok [OF assms] assms(2)
  by (simp add: buf_valid_same bwrite_def iderw_def upd_buf_def changed_def holdingsleep_def handle_def holds_blk_def
      buf_ok_def Let_def linorder_not_le [symmetric])

definition released :: "'a bstate_scheme \<Rightarrow> nat \<Rightarrow> u32 \<Rightarrow> 'a bstate_scheme" where
  "released s i b = changed s i ((bufs s i)\<lparr>b_lock := releasesleep (b_lock (bufs s i)), b_refcnt := 0\<rparr>)
     b (mdisk s b) (dwrites s)"

lemma brelse_eq:
  assumes "binv s" and "handle s i b"
  shows "brelse s i = ok (link_front i (unlink i (released s i b)))"
  using handle_buf_ok [OF assms] assms(2) changed_id [where s = s and b = b]
  by (simp add: brelse_def upd_buf_def holdingsleep_def handle_def buf_ok_def released_def changed_def)

lemma released_ok:
  assumes "binv s" and "handle s i b" and "b \<in> dirty_blks s \<or> view s b = mdisk s b"
  shows "change_ok s i ((bufs s i)\<lparr>b_lock := releasesleep (b_lock (bufs s i)), b_refcnt := 0\<rparr>) b (mdisk s b)"
proof -
  have h: "holds_blk s i b" and u: "uniq s" using assms(1,2) binvD(2) by (auto simp: handle_def)
  have "b_dirty (bufs s i)" if "b \<in> dirty_blks s"
    using that h uniqD [OF u] by (auto simp: dirty_blks_def)
  then have "b_dirty (bufs s i) \<or> b_data (bufs s i) = mdisk s b"
    using assms(3) view_holds [OF u h] by auto
  with handle_buf_ok [OF assms(1,2)] h binvD(3) [OF assms(1)] show ?thesis
    by (auto simp: change_ok_def buf_ok_def holds_blk_def releasesleep_def)
qed

interpretation bc: block_cache "\<lambda>s b. bread s 1 b" bwrite brelse set_data set_dirty get_data
  binv view dirty_blks held_blks handle mdisk dwrites brest disksize NBUF
proof (unfold_locales, goal_cases)
  case (1 s s')
  then show ?case by (simp add: brest_def)
next
  case (2 s b)
  then show ?case by (rule clean_view)
next
  case (3 s b)
  then show ?case by (simp add: length_view binvD(3))
next
  case (4 s h b)
  then show ?case using view_holds [OF binvD(2), of s h b] by (auto simp: get_data_def handle_def held_blks_def)
next
  case (5 s b)
  then obtain i x where ix: "bread s 1 b = ok (s\<lparr>bufs := (bufs s)(i := x)\<rparr>, i)" "fetched s b i x"
    using bread_fetches by blast
  have "handle (s\<lparr>bufs := (bufs s)(i := x)\<rparr>) i b"
    using ix(2) by (simp add: handle_def holds_upd fetched_def)
  moreover have "handle (s\<lparr>bufs := (bufs s)(i := x)\<rparr>) h' b'" if "handle s h' b'" for h' b'
    using that ix(2) by (auto simp: handle_def holds_upd fetched_def)
  ultimately show ?case
    using ix fetched_binv [OF 5(1) ix(2) 5(2)] fetched_view [OF 5(1) ix(2) 5(2)] fetched_sets [OF 5(1) ix(2)]
    by (auto simp: brest_def)
next
  case (6 s h b d)
  note c = handle_change_ok(1) [OF 6]
  have e: "set_data s h d = changed s h ((bufs s h)\<lparr>b_data := d\<rparr>) b (mdisk s b) (dwrites s)"
    using 6(2) by (intro set_data_changed) (simp add: handle_def)
  have l: "b_dirty (bufs s h) \<longleftrightarrow> b \<in> dirty_blks s" "b \<in> held_blks s"
    using 6(1,2) uniqD [OF binvD(2) [OF 6(1)]] by (auto simp: dirty_blks_def held_blks_def handle_def)
  have "handle (set_data s h d) = handle s"
    unfolding e using changed_handle [OF c] 6(2) by (auto simp: fun_eq_iff handle_def holds_blk_def)
  then show ?case
    using changed_binv [OF 6(1) c] changed_view [OF 6(1) c] changed_sets [OF 6(1) c] l 6(2)
    unfolding e by (auto simp: handle_def)
next
  case (7 s h b)
  note c = handle_change_ok(2) [OF 7 length_view [OF 7(1)]]
  have e: "set_dirty s h = changed s h ((bufs s h)\<lparr>b_dirty := True\<rparr>) b (mdisk s b) (dwrites s)"
    using 7(2) by (intro set_dirty_changed) (simp add: handle_def)
  have v: "view s b = b_data (bufs s h)" "b \<in> held_blks s"
    using 7 view_holds [OF binvD(2) [OF 7(1)]] by (auto simp: handle_def held_blks_def)
  have "handle (set_dirty s h) = handle s"
    unfolding e using changed_handle [OF c] 7(2) by (auto simp: fun_eq_iff handle_def holds_blk_def)
  then show ?case
    using changed_binv [OF 7(1) c] changed_view [OF 7(1) c] changed_sets [OF 7(1) c] v 7(2)
    unfolding e by (auto simp: handle_def)
next
  case (8 s h b)
  note c = handle_change_ok(3) [OF 8 length_view [OF 8(1)]]
  have v: "view s b = b_data (bufs s h)" "b \<in> held_blks s"
    using 8 view_holds [OF binvD(2) [OF 8(1)]] by (auto simp: handle_def held_blks_def)
  let ?s' = "changed s h ((bufs s h)\<lparr>b_dirty := False\<rparr>) b (b_data (bufs s h)) (dwrites s @ [(b, b_data (bufs s h))])"
  have "handle ?s' = handle s"
    using changed_handle [OF c] 8(2) by (auto simp: fun_eq_iff handle_def holds_blk_def)
  then show ?case
    using bwrite_eq [OF 8] changed_binv [OF 8(1) c] changed_view [OF 8(1) c] changed_sets [OF 8(1) c] v 8(2)
    by (auto simp: handle_def)
next
  case (9 s h b)
  note c = released_ok [OF 9]
  let ?s1 = "released s h b" and ?s' = "link_front h (unlink h (released s h b))"
  have i1: "binv ?s1" unfolding released_def by (rule changed_binv [OF 9(1) c])
  have "h < NBUF" using 9(2) by (simp add: handle_def holds_blk_def)
  note m = move_front [OF i1 this]
  have v: "view s b = b_data (bufs s h)" "b \<in> held_blks s" "b_dirty (bufs s h) \<longleftrightarrow> b \<in> dirty_blks s"
    using 9 view_holds [OF binvD(2) [OF 9(1)]] handle_dirty [OF 9(1,2)]
    by (auto simp: handle_def held_blks_def)
  have "view ?s' = view s" "dirty_blks ?s' = dirty_blks s" "held_blks ?s' = held_blks s - {b}"
    using relinked_view [OF m(2)] relinked_sets [OF m(2)] changed_view [OF 9(1) c] changed_sets [OF 9(1) c] v
    by (auto simp: released_def releasesleep_def)
  moreover have "mdisk ?s' = mdisk s" "dwrites ?s' = dwrites s" "brest ?s' = brest s"
    using m(2) by (auto simp: relinkedD released_def) (auto simp: relinked_def brest_def changed_def)
  moreover have "handle ?s' h' b'" if "b' \<noteq> b" "handle s h' b'" for h' b'
  proof -
    have "h' \<noteq> h" using that 9(2) by (auto simp: handle_def holds_blk_def)
    then have "handle ?s1 h' b'" using that unfolding released_def changed_handle [OF c] by simp
    then show ?thesis using relinked_handle [OF m(2)] by simp
  qed
  ultimately show ?case using brelse_eq [OF 9(1,2)] m(1) by auto
qed

section \<open>Start-up\<close>

text \<open>The cache before \<open>binit\<close> is zeroed memory.\<close>

definition zero_buf :: buf where
  "zero_buf = \<lparr>b_valid = False, b_dirty = False, b_dev = 0, b_blockno = 0, b_lock = initsleeplock,
     b_refcnt = 0, b_prev = 0, b_next = 0, b_data = replicate BSIZE 0\<rparr>"

lemma link_front_core: "core (bufs (link_front b s) i) = core (bufs s i)"
  by (simp add: link_front_def upd_buf_def Let_def core_def)

lemma link_front_more: "\<exists>f. link_front b s = s\<lparr>bufs := f\<rparr>"
  unfolding link_front_def upd_buf_def Let_def by (rule exI) simp

lemma binit_loop_ring:
  assumes "ring s xs" and "\<And>b. b \<in> set bs \<Longrightarrow> b \<noteq> HEAD \<and> b \<notin> set xs" and "distinct bs"
    and "\<And>i. core (bufs s i) = core zero_buf"
  shows "ring (binit_loop bs s) (rev bs @ xs) \<and> (\<forall>i. core (bufs (binit_loop bs s) i) = core zero_buf) \<and>
    (\<exists>f. binit_loop bs s = s\<lparr>bufs := f\<rparr>)"
  using assms
proof (induction bs arbitrary: s xs)
  case Nil
  have "\<exists>f. s = s\<lparr>bufs := f\<rparr>" by (rule exI [of _ "bufs s"]) simp
  with Nil show ?case by simp
next
  case (Cons b bs)
  let ?s1 = "upd_buf b (\<lambda>x. x\<lparr>b_lock := initsleeplock\<rparr>) s"
  let ?s2 = "link_front b ?s1"
  have "ring ?s1 xs = ring s xs" by (rule ring_links) (auto simp: upd_buf_def)
  then have r: "ring ?s2 (b # xs)" using Cons.prems(1,2) by (intro ring_link_front) auto
  have c: "core (bufs ?s2 i) = core zero_buf" for i
    unfolding link_front_core using Cons.prems(4) [of i] by (auto simp: upd_buf_def core_def zero_buf_def)
  have "ring (binit_loop bs ?s2) (rev bs @ b # xs) \<and>
    (\<forall>i. core (bufs (binit_loop bs ?s2) i) = core zero_buf) \<and> (\<exists>f. binit_loop bs ?s2 = ?s2\<lparr>bufs := f\<rparr>)"
    using Cons.prems(2,3) r c by (intro Cons.IH) auto
  moreover obtain g where "?s2 = ?s1\<lparr>bufs := g\<rparr>" using link_front_more by blast
  ultimately show ?case by (auto simp: upd_buf_def)
qed

lemma binit_inv:
  assumes "\<And>i. bufs s i = zero_buf" and "\<And>b. length (mdisk s b) = BSIZE"
  shows "binv (binit s)" "view (binit s) = mdisk s" "dirty_blks (binit s) = {}" "held_blks (binit s) = {}"
    "mdisk (binit s) = mdisk s" "dwrites (binit s) = dwrites s" "brest (binit s) = brest s"
proof -
  let ?s0 = "upd_buf HEAD (\<lambda>x. x\<lparr>b_prev := HEAD, b_next := HEAD\<rparr>) s"
  have 0: "ring ?s0 []" by (simp add: ring_def upd_buf_def)
  have c0: "core (bufs ?s0 i) = core zero_buf" for i using assms(1) by (simp add: upd_buf_def core_def)
  have b: "b \<noteq> HEAD \<and> b \<notin> set []" if "b \<in> set [0..<NBUF]" for b using that by (auto simp: NBUF_def)
  note l = binit_loop_ring [OF 0 b distinct_upt c0]
  then have r: "ring (binit s) (rev [0..<NBUF])" and c: "\<And>i. core (bufs (binit s) i) = core zero_buf"
    and m: "\<exists>f. binit s = ?s0\<lparr>bufs := f\<rparr>"
    by (auto simp: binit_def)
  then have d: "b_dev (bufs (binit s) i) = 0" "\<not> b_dirty (bufs (binit s) i)" "\<not> locked_buf (binit s) i"
    "b_refcnt (bufs (binit s) i) = 0" for i
    using c [of i] by (auto simp: core_def zero_buf_def initsleeplock_def)
  have nh: "\<not> holds_blk (binit s) i b" for i b by (simp add: holds_blk_def d)
  show md: "mdisk (binit s) = mdisk s" "dwrites (binit s) = dwrites s" "brest (binit s) = brest s"
    using m by (auto simp: upd_buf_def brest_def)
  have "set (rev [0..<NBUF]) = {0..<NBUF}" by simp
  with r show "binv (binit s)"
    unfolding binv_def using d nh md assms(2) by (auto simp: buf_ok_def uniq_def)
  show "view (binit s) = mdisk s" using nh md view_uncached by (metis ext)
  show "dirty_blks (binit s) = {}" "held_blks (binit s) = {}"
    using nh by (auto simp: dirty_blks_def held_blks_def)
qed

section \<open>Properties\<close>

text \<open>
  C26. \<open>bread\<close> of a block of the disk that nobody holds, with a buffer to spare or the block
  already dirty in the cache, returns a locked buffer of that block whose data is what the
  last writer left there. It changes no block, on disk or as others see it.
\<close>

theorem bread_returns_view:
  assumes "binv s" and "b < disksize s" and "b \<notin> held_blks s"
    and "b \<in> dirty_blks s \<or> card (dirty_blks s \<union> held_blks s) < NBUF"
  shows "\<exists>s' i. bread s 1 b = ok (s', i) \<and> binv s' \<and> i < NBUF \<and> b_dev (bufs s' i) = 1 \<and>
    b_blockno (bufs s' i) = b \<and> holdingsleep (b_lock (bufs s' i)) \<and> b_data (bufs s' i) = view s b \<and>
    view s' = view s \<and> mdisk s' = mdisk s"
proof -
  obtain s' i where s': "bread s 1 b = ok (s', i)" "binv s'" "handle s' i b" "view s' = view s" "mdisk s' = mdisk s"
    using bc.read_ok [OF assms] by blast
  then have "b_data (bufs s' i) = view s b"
    using view_holds [OF binvD(2) [OF s'(2)], of i b] by (simp add: handle_def)
  with s' show ?thesis by (auto simp: handle_def holds_blk_def holdingsleep_def)
qed

definition bs0 :: bstate where
  "bs0 = binit \<lparr>bufs = (\<lambda>i. zero_buf), mdisk = (\<lambda>b. replicate BSIZE (ucast b)), disksize = 1000,
     dwrites = [], bpid = 1\<rparr>"

lemma bs0_inv: "binv bs0" "view bs0 = (\<lambda>b. replicate BSIZE (ucast b))" "dirty_blks bs0 = {}"
  "held_blks bs0 = {}" "disksize bs0 = 1000"
  unfolding bs0_def
  using binit_inv [of "\<lparr>bufs = (\<lambda>i. zero_buf), mdisk = (\<lambda>b. replicate BSIZE (ucast b)), disksize = 1000,
     dwrites = [], bpid = 1\<rparr> :: bstate"]
  by (simp_all add: brest_def)

theorem bread_returns_view_witness:
  "\<exists>s' i. bread bs0 1 7 = ok (s', i) \<and> b_data (bufs s' i) = replicate BSIZE 7"
  using bread_returns_view [of bs0 7] bs0_inv by (auto simp: NBUF_def)

text \<open>
  C27. A read-modify-write through the cache (\<open>bread\<close>, assign the data, mark dirty,
  \<open>brelse\<close>) changes what later reads of that block return, of no other block, and leaves
  the disk alone; the buffer then cannot be recycled before it has been written.
\<close>

theorem cache_update:
  assumes "binv s" and "b < disksize s" and "b \<notin> held_blks s"
    and "b \<in> dirty_blks s \<or> card (dirty_blks s \<union> held_blks s) < NBUF" and "length d = BSIZE"
  shows "\<exists>s'. bnd (bread s 1 b) (\<lambda>(s, i). brelse (set_dirty (set_data s i d) i) i) = ok s' \<and> binv s' \<and>
    view s' = (view s)(b := d) \<and> mdisk s' = mdisk s \<and> dirty_blks s' = insert b (dirty_blks s) \<and>
    held_blks s' = held_blks s"
  using bc.read_store_mark [OF assms(1-4), of "\<lambda>_. d"] assms(5) by auto

theorem cache_update_witness:
  "\<exists>s'. bnd (bread bs0 1 7) (\<lambda>(s, i). brelse (set_dirty (set_data s i (replicate BSIZE 0)) i) i) = ok s' \<and>
     view s' 7 = replicate BSIZE 0"
  using cache_update [of bs0 7 "replicate BSIZE 0"] bs0_inv by (auto simp: NBUF_def)

end
