(* ===== verification/Log.thy ===== *)
theory Log
  imports Bio
begin

text \<open>
  The redo log (\<^verbatim>\<open>log.c\<close>) on top of the buffer cache. A crash can happen between any two
  disk writes; since the cache records its writes in order, the disks a crash can leave are
  the starting disk with a prefix of the writes applied. A block write is atomic. The first
  part models the code; the second shows which writes a commit and a recovery make; the
  third that every crash recovers to the state before or after the transaction; the last
  one treats the admission of concurrent operations by \<open>begin_op\<close>.
\<close>

section \<open>State\<close>

definition LOGSIZE :: nat where
  "LOGSIZE = 30"

definition MAXOPBLOCKS :: int where
  "MAXOPBLOCKS = 10"

record log =
  log_start :: u32
  log_size :: int
  outstanding :: int
  committing :: bool
  log_dev :: u32
  lh_n :: int
  lh_block :: "u32 list"

record lstate = bstate +
  lg :: log

record superblock =
  sb_size :: u32
  sb_nblocks :: u32
  sb_ninodes :: u32
  sb_nlog :: u32
  sb_logstart :: u32
  sb_inodestart :: u32
  sb_bmapstart :: u32

abbreviation upd_lg :: "(log \<Rightarrow> log) \<Rightarrow> lstate \<Rightarrow> lstate" where
  "upd_lg f s \<equiv> s\<lparr>lg := f (lg s)\<rparr>"

section \<open>Commit and recovery\<close>

text \<open>\<open>memmove(sb, bp->data, sizeof(*sb))\<close>: the seven words at the start of block 1.\<close>

definition sb_of_block :: "block \<Rightarrow> superblock" where
  "sb_of_block d = \<lparr>sb_size = get32 d 0, sb_nblocks = get32 d 4, sb_ninodes = get32 d 8,
     sb_nlog = get32 d 12, sb_logstart = get32 d 16, sb_inodestart = get32 d 20, sb_bmapstart = get32 d 24\<rparr>"

definition readsb :: "lstate \<Rightarrow> u32 \<Rightarrow> (lstate \<times> superblock) outcome" where
  "readsb s dev =
     bnd (bread s dev 1) (\<lambda>(s, bp).
       let sb = sb_of_block (get_data s bp) in bnd (brelse s bp) (\<lambda>s. ok (s, sb)))"

text \<open>\<open>log.start + tail + 1\<close>\<close>

definition log_blk :: "log \<Rightarrow> nat \<Rightarrow> u32" where
  "log_blk l tail = log_start l + of_nat tail + 1"

fun install_loop :: "nat list \<Rightarrow> lstate \<Rightarrow> lstate outcome" where
  "install_loop [] s = ok s"
| "install_loop (tail # ts) s =
     bnd (bread s (log_dev (lg s)) (log_blk (lg s) tail)) (\<lambda>(s, lbuf).
     bnd (bread s (log_dev (lg s)) (lh_block (lg s) ! tail)) (\<lambda>(s, dbuf).
     bnd (bwrite (set_data s dbuf (get_data s lbuf)) dbuf) (\<lambda>s.
     bnd (brelse s lbuf) (\<lambda>s.
     bnd (brelse s dbuf) (\<lambda>s. install_loop ts s)))))"

definition install_trans :: "lstate \<Rightarrow> lstate outcome" where
  "install_trans s = install_loop [0..<nat (lh_n (lg s))] s"

text \<open>The loops of \<open>read_head\<close> and \<open>write_head\<close> over the entries of the header.\<close>

fun head_in :: "block \<Rightarrow> nat \<Rightarrow> u32 list \<Rightarrow> u32 list" where
  "head_in d 0 bl = bl"
| "head_in d (Suc i) bl = (head_in d i bl)[i := get32 d (4 + 4 * i)]"

fun head_out :: "u32 list \<Rightarrow> nat \<Rightarrow> block \<Rightarrow> block" where
  "head_out bl 0 d = d"
| "head_out bl (Suc i) d = put32 (head_out bl i d) (4 + 4 * i) (bl ! i)"

text \<open>A header with more than \<open>LOGSIZE\<close> entries would overrun \<open>log.lh.block\<close>.\<close>

definition read_head :: "lstate \<Rightarrow> lstate outcome" where
  "read_head s =
     bnd (bread s (log_dev (lg s)) (log_start (lg s))) (\<lambda>(s, bp).
       let d = get_data s bp; n = sint (get32 d 0);
           s = upd_lg (\<lambda>l. l\<lparr>lh_n := n\<rparr>) s in
       if n > int LOGSIZE then Inl Fault
       else brelse (upd_lg (\<lambda>l. l\<lparr>lh_block := head_in d (nat n) (lh_block l)\<rparr>) s) bp)"

definition write_head :: "lstate \<Rightarrow> lstate outcome" where
  "write_head s =
     bnd (bread s (log_dev (lg s)) (log_start (lg s))) (\<lambda>(s, bp).
       let n = lh_n (lg s);
           d = head_out (lh_block (lg s)) (nat n) (put32 (get_data s bp) 0 (word_of_int n)) in
       bnd (bwrite (set_data s bp d) bp) (\<lambda>s. brelse s bp))"

definition recover_from_log :: "lstate \<Rightarrow> lstate outcome" where
  "recover_from_log s =
     bnd (read_head s) (\<lambda>s. bnd (install_trans s) (\<lambda>s. write_head (upd_lg (\<lambda>l. l\<lparr>lh_n := 0\<rparr>) s)))"

definition initlog :: "lstate \<Rightarrow> u32 \<Rightarrow> lstate outcome" where
  "initlog s dev =
     (if 4 + 4 * LOGSIZE \<ge> BSIZE then panic ''initlog: too big logheader''
      else bnd (readsb s dev) (\<lambda>(s, sb).
        recover_from_log (upd_lg (\<lambda>l. l\<lparr>log_start := sb_logstart sb, log_size := sint (sb_nlog sb),
          log_dev := dev\<rparr>) s)))"

fun write_log_loop :: "nat list \<Rightarrow> lstate \<Rightarrow> lstate outcome" where
  "write_log_loop [] s = ok s"
| "write_log_loop (tail # ts) s =
     bnd (bread s (log_dev (lg s)) (log_blk (lg s) tail)) (\<lambda>(s, to).
     bnd (bread s (log_dev (lg s)) (lh_block (lg s) ! tail)) (\<lambda>(s, from).
     bnd (bwrite (set_data s to (get_data s from)) to) (\<lambda>s.
     bnd (brelse s from) (\<lambda>s.
     bnd (brelse s to) (\<lambda>s. write_log_loop ts s)))))"

definition write_log :: "lstate \<Rightarrow> lstate outcome" where
  "write_log s = write_log_loop [0..<nat (lh_n (lg s))] s"

definition commit :: "lstate \<Rightarrow> lstate outcome" where
  "commit s =
     (if lh_n (lg s) > 0 then
        bnd (write_log s) (\<lambda>s. bnd (write_head s) (\<lambda>s. bnd (install_trans s) (\<lambda>s.
          write_head (upd_lg (\<lambda>l. l\<lparr>lh_n := 0\<rparr>) s))))
      else ok s)"

section \<open>Operations\<close>

text \<open>
  One turn of the loop of \<open>begin_op\<close>, on the log's own state: \<open>None\<close> when it has to sleep.
\<close>

definition begin_op_pass :: "log \<Rightarrow> log option" where
  "begin_op_pass l =
     (if committing l then None
      else if lh_n l + (outstanding l + 1) * MAXOPBLOCKS > int LOGSIZE then None
      else Some (l\<lparr>outstanding := outstanding l + 1\<rparr>))"

definition begin_op :: "lstate \<Rightarrow> lstate outcome" where
  "begin_op s = (case begin_op_pass (lg s) of None \<Rightarrow> Inl Hang | Some l \<Rightarrow> ok (s\<lparr>lg := l\<rparr>))"

text \<open>The first critical section of \<open>end_op\<close>: whether this call is to commit.\<close>

definition end_op_enter :: "log \<Rightarrow> (log \<times> bool) outcome" where
  "end_op_enter l =
     (let l = l\<lparr>outstanding := outstanding l - 1\<rparr> in
      if committing l then panic ''log.committing''
      else if outstanding l = 0 then ok (l\<lparr>committing := True\<rparr>, True)
      else ok (l, False))"

definition end_op :: "lstate \<Rightarrow> lstate outcome" where
  "end_op s =
     bnd (end_op_enter (lg s)) (\<lambda>(l, do_commit).
       let s = s\<lparr>lg := l\<rparr> in
       if do_commit then bnd (commit s) (\<lambda>s. ok (upd_lg (\<lambda>l. l\<lparr>committing := False\<rparr>) s))
       else ok s)"

text \<open>The scan of \<open>log_write\<close>: the index of the block in the log, or the length.\<close>

function absorb :: "u32 list \<Rightarrow> nat \<Rightarrow> u32 \<Rightarrow> nat \<Rightarrow> nat" where
  "absorb bl n b i = (if i < n \<and> bl ! i \<noteq> b then absorb bl n b (i + 1) else i)"
  by pat_completeness auto
termination by (relation "measure (\<lambda>(bl, n, b, i). n - i)") auto

declare absorb.simps [simp del]

definition log_add :: "log \<Rightarrow> u32 \<Rightarrow> log outcome" where
  "log_add l b =
     (if lh_n l \<ge> int LOGSIZE \<or> lh_n l \<ge> log_size l - 1 then panic ''too big a transaction''
      else if outstanding l < 1 then panic ''log_write outside of trans''
      else let n = nat (lh_n l); i = absorb (lh_block l) n b 0;
               l = l\<lparr>lh_block := (lh_block l)[i := b]\<rparr> in
        ok (if i = n then l\<lparr>lh_n := lh_n l + 1\<rparr> else l))"

definition log_write :: "lstate \<Rightarrow> nat \<Rightarrow> lstate outcome" where
  "log_write s b =
     bnd (log_add (lg s) (b_blockno (bufs s b))) (\<lambda>l. ok (set_dirty (s\<lparr>lg := l\<rparr>) b))"

section \<open>Writes in order\<close>

text \<open>A disk after a list of block writes.\<close>

fun applyw :: "(u32 \<times> block) list \<Rightarrow> (u32 \<Rightarrow> block) \<Rightarrow> u32 \<Rightarrow> block" where
  "applyw [] d = d"
| "applyw ((b, v) # ws) d = applyw ws (d(b := v))"

lemma applyw_append [simp]: "applyw (ws @ ws') d = applyw ws' (applyw ws d)"
  by (induction ws arbitrary: d) auto

lemma applyw_other: "b \<notin> fst ` set ws \<Longrightarrow> applyw ws d b = d b"
  by (induction ws arbitrary: d) auto

lemma applyw_map:
  "distinct (map f ts) \<Longrightarrow> t \<in> set ts \<Longrightarrow> applyw (map (\<lambda>t. (f t, g t)) ts) d (f t) = g t"
proof (induction ts arbitrary: d)
  case (Cons u ts)
  show ?case
  proof (cases "t \<in> set ts")
    case True
    with Cons show ?thesis by simp
  next
    case False
    with Cons.prems have "t = u" by simp
    moreover have "f u \<notin> fst ` set (map (\<lambda>t. (f t, g t)) ts)" using Cons.prems(1) by auto
    ultimately show ?thesis by (simp add: applyw_other)
  qed
qed simp

section \<open>Layout\<close>

text \<open>
  \<open>in_log l b\<close>: the block is one of the \<open>log_size\<close> blocks of the log. A well-formed log
  holds \<open>n\<close> different blocks of the disk, none of them its own, and has room for them.
\<close>

definition in_log :: "log \<Rightarrow> u32 \<Rightarrow> bool" where
  "in_log l b \<longleftrightarrow> unat (b - log_start l) < nat (log_size l)"

definition log_fits :: "log \<Rightarrow> u32 \<Rightarrow> bool" where
  "log_fits l dsz \<longleftrightarrow> log_dev l = 1 \<and> length (lh_block l) = LOGSIZE \<and> 0 < log_size l \<and>
     unat (log_start l) + nat (log_size l) \<le> unat dsz"

definition entries_ok :: "log \<Rightarrow> u32 \<Rightarrow> u32 list \<Rightarrow> bool" where
  "entries_ok l dsz bs \<longleftrightarrow> distinct bs \<and> length bs < nat (log_size l) \<and> length bs < LOGSIZE \<and>
     (\<forall>b \<in> set bs. b < dsz \<and> \<not> in_log l b)"

lemma log_blk_props:
  assumes "log_fits l dsz" and "Suc k < nat (log_size l)"
  shows "unat (log_blk l k) = unat (log_start l) + Suc k" "log_blk l k < dsz" "in_log l (log_blk l k)"
    "log_blk l k \<noteq> log_start l"
proof -
  have b: "unat (log_start l) + Suc k < 4294967296"
    using assms u32_bound [of dsz] by (simp add: log_fits_def)
  have e: "log_blk l k = log_start l + of_nat (Suc k)" by (simp add: log_blk_def)
  show u: "unat (log_blk l k) = unat (log_start l) + Suc k"
    using b by (simp only: e) (simp add: unat_word_ariths unat_of_nat_u32 del: of_nat_Suc)
  show "log_blk l k < dsz" using u assms by (simp add: word_less_nat_alt log_fits_def)
  show "in_log l (log_blk l k)" using assms(2) b by (simp add: in_log_def e unat_of_nat_u32 del: of_nat_Suc)
  show "log_blk l k \<noteq> log_start l" using u by auto
qed

lemma log_blk_inj:
  assumes "log_fits l dsz" and "Suc j < nat (log_size l)" and "Suc k < nat (log_size l)"
  shows "log_blk l j = log_blk l k \<longleftrightarrow> j = k"
  using log_blk_props(1) [OF assms(1,2)] log_blk_props(1) [OF assms(1,3)]
  by (metis add_left_cancel nat.inject)

lemma start_in_log: "log_fits l dsz \<Longrightarrow> in_log l (log_start l) \<and> log_start l < dsz"
  by (auto simp: in_log_def log_fits_def word_less_nat_alt)

lemma lg_rest:
  fixes s s' :: lstate
  assumes "brest s' = brest s"
  shows "lg s' = lg s" "disksize s' = disksize s"
  using assms by (cases s; cases s'; auto simp: brest_def)+

lemma lg_frame [simp]:
  fixes s :: lstate
  shows "binv (s\<lparr>lg := l\<rparr>) = binv s" "view (s\<lparr>lg := l\<rparr>) = view s" "dirty_blks (s\<lparr>lg := l\<rparr>) = dirty_blks s"
    "held_blks (s\<lparr>lg := l\<rparr>) = held_blks s" "handle (s\<lparr>lg := l\<rparr>) = handle s"
proof -
  have h: "holds_blk (s\<lparr>lg := l\<rparr>) i b = holds_blk s i b" for i b by (simp add: holds_blk_def)
  show "binv (s\<lparr>lg := l\<rparr>) = binv s" by (simp add: binv_def ring_def buf_ok_def uniq_def h)
  show "view (s\<lparr>lg := l\<rparr>) = view s" by (rule ext) (simp add: view_def cached_def split: option.split)
  show "dirty_blks (s\<lparr>lg := l\<rparr>) = dirty_blks s" by (simp add: dirty_blks_def h)
  show "held_blks (s\<lparr>lg := l\<rparr>) = held_blks s" by (simp add: held_blks_def h)
  show "handle (s\<lparr>lg := l\<rparr>) = handle s" by (intro ext) (simp add: handle_def h)
qed

text \<open>A quiet state: nobody holds a buffer, and exactly the blocks \<open>D\<close> are dirty.\<close>

definition quiet :: "lstate \<Rightarrow> u32 set \<Rightarrow> bool" where
  "quiet s D \<longleftrightarrow> binv s \<and> held_blks s = {} \<and> dirty_blks s = D \<and> log_fits (lg s) (disksize s)"

lemma quiet_step:
  assumes "quiet s D" and "binv s'" and "held_blks s' = {}" and "brest s' = brest s"
  shows "quiet s' (dirty_blks s')" "lg s' = lg s" "disksize s' = disksize s"
  using assms lg_rest [OF assms(4)] by (simp_all add: quiet_def)

section \<open>The writes of a commit\<close>

lemma brest_upd_buf [simp]: "brest (upd_buf i f s) = brest s"
  by (simp add: upd_buf_def brest_def)

lemma iderw_rest: "iderw s i = ok s' \<Longrightarrow> brest s' = brest s"
  by (auto simp: iderw_def Let_def brest_def upd_buf_def split: if_splits)

lemma lock_buf_rest: "lock_buf b s = ok (s', i) \<Longrightarrow> brest s' = brest s"
  by (auto simp: lock_buf_def bnd_eq_Inr)

lemma bget_rest: "bget s dev b = ok (s', i) \<Longrightarrow> brest s' = brest s"
  unfolding bget_def bnd_eq_Inr by (auto split: option.splits simp: bnd_eq_Inr dest!: lock_buf_rest)

lemma bread_lg:
  fixes s :: lstate
  assumes "bread s dev b = ok (s', i)"
  shows "lg s' = lg s"
proof -
  obtain s1 where "bget s dev b = ok (s1, i)" "s' = s1 \<or> iderw s1 i = ok s'"
    using assms by (auto simp: bread_def bnd_eq_Inr split: if_splits)
  then have "brest s' = brest s" using bget_rest iderw_rest by metis
  then show ?thesis by (rule lg_rest)
qed

lemma write_log_copy:
  assumes "log_dev (lg s) = 1"
  shows "write_log_loop (t # ts) s =
    bnd (bc.copy_to (lh_block (lg s) ! t) (log_blk (lg s) t) s) (write_log_loop ts)"
proof (cases "bread s 1 (log_blk (lg s) t)")
  case (Inr r)
  obtain s1 h where r: "r = (s1, h)" by fastforce
  then have "lg s1 = lg s" using bread_lg Inr by blast
  with Inr r assms show ?thesis
    by (cases "bread s1 1 (lh_block (lg s) ! t)") (auto simp: bc.copy_to_def bnd_assoc case_prod_beta)
qed (simp add: assms bc.copy_to_def)

lemma install_copy:
  assumes "log_dev (lg s) = 1"
  shows "install_loop (t # ts) s =
    bnd (bc.copy_from (log_blk (lg s) t) (lh_block (lg s) ! t) s) (install_loop ts)"
proof (cases "bread s 1 (log_blk (lg s) t)")
  case (Inr r)
  obtain s1 h where r: "r = (s1, h)" by fastforce
  then have "lg s1 = lg s" using bread_lg Inr by blast
  with Inr r assms show ?thesis
    by (cases "bread s1 1 (lh_block (lg s) ! t)") (auto simp: bc.copy_from_def bnd_assoc case_prod_beta)
qed (simp add: assms bc.copy_from_def)

declare write_log_loop.simps(2) [simp del] install_loop.simps(2) [simp del]

text \<open>
  The entries \<open>bs\<close> of the log in use; \<open>log_ok s bs D\<close> is what holds while a transaction is
  being written out, with \<open>D\<close> the blocks still dirty.
\<close>

definition log_ok :: "lstate \<Rightarrow> u32 list \<Rightarrow> u32 set \<Rightarrow> bool" where
  "log_ok s bs D \<longleftrightarrow> quiet s D \<and> entries_ok (lg s) (disksize s) bs \<and> D \<subseteq> set bs \<and>
     (\<forall>t < length bs. lh_block (lg s) ! t = bs ! t)"

lemma log_okD:
  assumes "log_ok s bs D"
  shows "binv s" "held_blks s = {}" "dirty_blks s = D" "log_fits (lg s) (disksize s)" "log_dev (lg s) = 1"
    "entries_ok (lg s) (disksize s) bs" "D \<subseteq> set bs" "distinct bs"
    "t < length bs \<Longrightarrow> lh_block (lg s) ! t = bs ! t"
    "t < length bs \<Longrightarrow> Suc t < nat (log_size (lg s))"
    "b \<in> set bs \<Longrightarrow> b < disksize s \<and> \<not> in_log (lg s) b"
    "card D < NBUF" "finite D"
proof -
  show "finite D" using assms finite_subset by (auto simp: log_ok_def)
  have "card D \<le> card (set bs)" using assms by (intro card_mono) (auto simp: log_ok_def)
  also have "\<dots> \<le> length bs" by (rule card_length)
  also have "\<dots> < NBUF" using assms by (simp add: log_ok_def entries_ok_def LOGSIZE_def NBUF_def)
  finally show "card D < NBUF" .
qed (use assms in \<open>auto simp: log_ok_def quiet_def log_fits_def entries_ok_def\<close>)

lemma log_ok_copied:
  assumes "log_ok s bs D" and "bc.copied a b s s'"
  shows "log_ok s' bs (D - {b})" "lg s' = lg s"
proof -
  have c: "binv s'" "held_blks s' = {}" "dirty_blks s' = D - {b}" "brest s' = brest s"
    using assms log_okD(2,3) [OF assms(1)] by (auto simp: bc.copied_def)
  show l: "lg s' = lg s" using lg_rest(1) [OF c(4)] .
  have "disksize s' = disksize s" using lg_rest(2) [OF c(4)] .
  with l c assms(1) show "log_ok s' bs (D - {b})" by (auto simp: log_ok_def quiet_def)
qed

text \<open>What a list of copies leaves behind.\<close>

definition wrote :: "(u32 \<times> block) list \<Rightarrow> lstate \<Rightarrow> lstate \<Rightarrow> bool" where
  "wrote ws s s' \<longleftrightarrow> view s' = applyw ws (view s) \<and> mdisk s' = applyw ws (mdisk s) \<and>
     dwrites s' = dwrites s @ ws \<and> brest s' = brest s"

lemma wrote_Nil [simp]: "wrote [] s s"
  by (simp add: wrote_def)

lemma wrote_copied: "bc.copied a b s s1 \<Longrightarrow> wrote ws s1 s' \<Longrightarrow> wrote ((b, view s a) # ws) s s'"
  by (simp add: wrote_def bc.copied_def)

lemma wrote_trans: "wrote ws s s1 \<Longrightarrow> wrote ws' s1 s2 \<Longrightarrow> wrote (ws @ ws') s s2"
  by (simp add: wrote_def)

lemma write_log_loop_ok:
  assumes "log_ok s bs (set bs)" and "set ts \<subseteq> {..<length bs}"
  shows "\<exists>s'. write_log_loop ts s = ok s' \<and> log_ok s' bs (set bs) \<and>
    wrote (map (\<lambda>t. (log_blk (lg s) t, view s (bs ! t))) ts) s s'"
  using assms
proof (induction ts arbitrary: s)
  case (Cons t ts)
  note l = log_okD [OF Cons.prems(1)]
  let ?a = "bs ! t" and ?b = "log_blk (lg s) t"
  have t: "t < length bs" using Cons.prems(2) by simp
  note p = log_blk_props [OF l(4) l(10) [OF t]]
  have "?a \<in> set bs" using t by simp
  note a = l(11) [OF this]
  have nb: "?b \<notin> set bs" using p(3) l(11) by blast
  then have "?a \<noteq> ?b" using \<open>?a \<in> set bs\<close> by metis
  then obtain s1 where s1: "bc.copy_to ?a ?b s = ok s1" "bc.copied ?a ?b s s1"
    using bc.copy_to_ok [OF l(1), of ?a ?b] a p(2) l(2,3,12) \<open>?a \<in> set bs\<close> by auto
  have ok1: "log_ok s1 bs (set bs)" and lg1: "lg s1 = lg s"
    using log_ok_copied [OF Cons.prems(1) s1(2)] nb by simp_all
  have v1: "view s1 (bs ! u) = view s (bs ! u)" if "u \<in> set ts" for u
  proof -
    have "bs ! u \<in> set bs" using that Cons.prems(2) by auto
    then have "bs ! u \<noteq> ?b" using nb by metis
    then show ?thesis using s1(2) by (simp add: bc.copied_def)
  qed
  have ts: "set ts \<subseteq> {..<length bs}" using Cons.prems(2) by simp
  obtain s' where s': "write_log_loop ts s1 = ok s'" "log_ok s' bs (set bs)"
    "wrote (map (\<lambda>t. (log_blk (lg s1) t, view s1 (bs ! t))) ts) s1 s'"
    using Cons.IH [OF ok1 ts] by blast
  have "map (\<lambda>t. (log_blk (lg s1) t, view s1 (bs ! t))) ts = map (\<lambda>t. (log_blk (lg s) t, view s (bs ! t))) ts"
    using v1 by (simp add: lg1)
  with s' s1 wrote_copied [OF s1(2)] show ?case
    by (auto simp: write_log_copy [OF l(5)] l(9) [OF t])
qed simp

lemma install_loop_ok:
  assumes "log_ok s bs D" and "set ts \<subseteq> {..<length bs}" and "distinct ts"
    and "D = {} \<or> (\<forall>t \<in> set ts. bs ! t \<in> D)"
  shows "\<exists>s'. install_loop ts s = ok s' \<and> log_ok s' bs (D - (!) bs ` set ts) \<and>
    wrote (map (\<lambda>t. (bs ! t, view s (log_blk (lg s) t))) ts) s s'"
  using assms
proof (induction ts arbitrary: s D)
  case (Cons t ts)
  note l = log_okD [OF Cons.prems(1)]
  let ?a = "log_blk (lg s) t" and ?b = "bs ! t"
  have t: "t < length bs" using Cons.prems(2) by simp
  note p = log_blk_props [OF l(4) l(10) [OF t]]
  have b: "?b \<in> set bs" using t by simp
  have na: "?a \<notin> set bs" using p(3) l(11) by blast
  then have "?a \<noteq> ?b" using b by metis
  moreover have "?a \<notin> D" using na l(7) by blast
  moreover have "?b \<in> D \<or> card (insert ?a D) < NBUF" using Cons.prems(4) by (auto simp: NBUF_def)
  ultimately obtain s1 where s1: "bc.copy_from ?a ?b s = ok s1" "bc.copied ?a ?b s s1"
    using bc.copy_from_ok [OF l(1), of ?a ?b] l(11) [OF b] p(2) l(2,3,12) by auto
  note ok1 = log_ok_copied [OF Cons.prems(1) s1(2)]
  have v1: "view s1 (log_blk (lg s) u) = view s (log_blk (lg s) u)" if "u \<in> set ts" for u
  proof -
    have "u < length bs" using that Cons.prems(2) by auto
    then have "in_log (lg s) (log_blk (lg s) u)" using log_blk_props(3) [OF l(4) l(10)] by blast
    then have "log_blk (lg s) u \<noteq> ?b" using l(11) [OF b] by metis
    then show ?thesis using s1(2) by (simp add: bc.copied_def)
  qed
  have ne: "bs ! u \<noteq> ?b" if "u \<in> set ts" for u
    using that Cons.prems(2,3) t nth_eq_iff_index_eq [OF l(8)] by force
  have "set ts \<subseteq> {..<length bs}" "distinct ts" "D - {?b} = {} \<or> (\<forall>u \<in> set ts. bs ! u \<in> D - {?b})"
    using Cons.prems ne by auto
  then obtain s' where s': "install_loop ts s1 = ok s'" "log_ok s' bs (D - {?b} - (!) bs ` set ts)"
    "wrote (map (\<lambda>t. (bs ! t, view s1 (log_blk (lg s1) t))) ts) s1 s'"
    using Cons.IH [OF ok1(1)] by blast
  have "map (\<lambda>t. (bs ! t, view s1 (log_blk (lg s1) t))) ts = map (\<lambda>t. (bs ! t, view s (log_blk (lg s) t))) ts"
    using v1 by (simp add: ok1(2))
  then have "wrote (map (\<lambda>t. (bs ! t, view s (log_blk (lg s) t))) ts) s1 s'" using s'(3) by (simp only:)
  moreover have "D - {?b} - (!) bs ` set ts = D - (!) bs ` set (t # ts)" by auto
  ultimately show ?case using s' s1 wrote_copied [OF s1(2)]
    by (simp add: install_copy [OF l(5)] l(9) [OF t])
qed simp

section \<open>The header\<close>

definition hdr :: "nat \<Rightarrow> u32 list \<Rightarrow> block \<Rightarrow> block" where
  "hdr n bl d = head_out bl n (put32 d 0 (of_nat n))"

lemma length_head_out [simp]: "length (head_out bl n d) = length d"
  by (induction n) auto

lemma length_hdr [simp]: "length (hdr n bl d) = length d"
  by (simp add: hdr_def)

lemma head_out_low: "off + 3 < 4 \<Longrightarrow> get32 (head_out bl n d) off = get32 d off"
  by (induction n) (auto simp: get32_put32_other)

lemma hdr_n: "length d = BSIZE \<Longrightarrow> get32 (hdr n bl d) 0 = of_nat n"
  by (simp add: hdr_def head_out_low BSIZE_def)

lemma head_out_entry:
  "i < n \<Longrightarrow> n \<le> LOGSIZE \<Longrightarrow> length d = BSIZE \<Longrightarrow> get32 (head_out bl n d) (4 + 4 * i) = bl ! i"
proof (induction n)
  case (Suc n)
  then show ?case
    by (cases "i = n") (auto simp: get32_put32_other LOGSIZE_def BSIZE_def)
qed simp

lemma hdr_entry: "i < n \<Longrightarrow> n \<le> LOGSIZE \<Longrightarrow> length d = BSIZE \<Longrightarrow> get32 (hdr n bl d) (4 + 4 * i) = bl ! i"
  by (simp add: hdr_def head_out_entry)

lemma length_head_in [simp]: "length (head_in d n bl) = length bl"
  by (induction n) auto

lemma head_in_nth:
  "n \<le> length bl \<Longrightarrow> head_in d n bl ! i = (if i < n then get32 d (4 + 4 * i) else bl ! i)"
  by (induction n) (auto simp: nth_list_update)

lemma sint_small: "n \<le> LOGSIZE \<Longrightarrow> sint (of_nat n :: u32) = int n"
  by (simp add: LOGSIZE_def signed_of_nat signed_take_bit_eq_if_positive take_bit_int_eq_self bit_nat_iff
      signed_take_bit_int_eq_self)

lemma write_head_ok:
  assumes "log_ok s bs D" and "lh_n (lg s) = int n"
  shows "\<exists>s'. write_head s = ok s' \<and> log_ok s' bs D \<and>
    wrote [(log_start (lg s), hdr n (lh_block (lg s)) (view s (log_start (lg s))))] s s'"
proof -
  note l = log_okD [OF assms(1)]
  let ?b = "log_start (lg s)"
  have b: "in_log (lg s) ?b" "?b < disksize s" using start_in_log [OF l(4)] by auto
  have nd: "?b \<notin> dirty_blks s" using b l(3,7,11) by blast
  have h: "?b \<notin> held_blks s" "card (dirty_blks s \<union> held_blks s) < NBUF" using l(2,3,12) by auto
  obtain s' s1 h where w: "bread s 1 ?b = ok (s1, h)" "get_data s1 h = view s ?b" "brest s1 = brest s"
    "bnd (bwrite (set_data s1 h (hdr n (lh_block (lg s)) (get_data s1 h))) h) (\<lambda>s. brelse s h) = ok s'"
    "binv s'" "view s' = (view s)(?b := hdr n (lh_block (lg s)) (view s ?b))" "dirty_blks s' = D"
    "held_blks s' = {}" "mdisk s' = (mdisk s)(?b := hdr n (lh_block (lg s)) (view s ?b))"
    "dwrites s' = dwrites s @ [(?b, hdr n (lh_block (lg s)) (view s ?b))]" "brest s' = brest s"
    using bc.read_store_commit [OF l(1) b(2) h(1) nd h(2), of "hdr n (lh_block (lg s))"] l(2,3) by auto
  have lg1: "lg s1 = lg s" using lg_rest(1) [OF w(3)] .
  have "write_head s = ok s'"
    using w(1,4) assms(2) l(5) by (simp add: write_head_def lg1 hdr_def Let_def)
  moreover have "log_ok s' bs D"
    using assms(1) w lg_rest [OF w(11)] by (auto simp: log_ok_def quiet_def)
  ultimately show ?thesis using w by (auto simp: wrote_def)
qed

section \<open>Commit\<close>

definition log_writes :: "lstate \<Rightarrow> u32 list \<Rightarrow> (u32 \<times> block) list" where
  "log_writes s bs = map (\<lambda>t. (log_blk (lg s) t, view s (bs ! t))) [0..<length bs]"

definition home_writes :: "lstate \<Rightarrow> u32 list \<Rightarrow> (u32 \<times> block) list" where
  "home_writes s bs = map (\<lambda>t. (bs ! t, view s (bs ! t))) [0..<length bs]"

abbreviation old_head :: "lstate \<Rightarrow> block" where
  "old_head s \<equiv> view s (log_start (lg s))"

definition commit_head :: "lstate \<Rightarrow> u32 list \<Rightarrow> block" where
  "commit_head s bs = hdr (length bs) (lh_block (lg s)) (old_head s)"

definition commit_writes :: "lstate \<Rightarrow> u32 list \<Rightarrow> (u32 \<times> block) list" where
  "commit_writes s bs = log_writes s bs @ [(log_start (lg s), commit_head s bs)] @ home_writes s bs @
     [(log_start (lg s), hdr 0 (lh_block (lg s)) (commit_head s bs))]"

lemma log_ok_lg_n: "log_ok (s\<lparr>lg := (lg s)\<lparr>lh_n := n\<rparr>\<rparr>) bs D = log_ok s bs D"
  by (simp add: log_ok_def quiet_def log_fits_def entries_ok_def in_log_def)

lemma log_blks_distinct:
  assumes "log_fits l dsz" and "n < nat (log_size l)"
  shows "distinct (map (log_blk l) [0..<n])" "log_start l \<notin> log_blk l ` {0..<n}"
    "\<And>b. b \<in> log_blk l ` {0..<n} \<Longrightarrow> in_log l b"
proof -
  have k: "Suc k < nat (log_size l)" if "k < n" for k using that assms(2) by simp
  show "distinct (map (log_blk l) [0..<n])"
    using log_blk_inj [OF assms(1) k k] by (auto simp: distinct_map intro!: inj_onI)
  show "log_start l \<notin> log_blk l ` {0..<n}" using log_blk_props(4) [OF assms(1) k] by force
  show "in_log l b" if "b \<in> log_blk l ` {0..<n}" for b using that log_blk_props(3) [OF assms(1) k] by auto
qed

lemma log_writes_at:
  assumes "log_ok s bs D" and "t < length bs"
  shows "applyw (log_writes s bs) d (log_blk (lg s) t) = view s (bs ! t)"
proof -
  note l = log_okD [OF assms(1)]
  have "length bs < nat (log_size (lg s))" using l(6) by (simp add: entries_ok_def)
  then show ?thesis
    unfolding log_writes_def using log_blks_distinct(1) [OF l(4)] assms(2) by (intro applyw_map) auto
qed

lemma log_writes_other:
  assumes "log_ok s bs D" and "\<not> in_log (lg s) b \<or> b = log_start (lg s)"
  shows "applyw (take k (log_writes s bs)) d b = d b"
proof (rule applyw_other)
  note l = log_okD [OF assms(1)]
  have "length bs < nat (log_size (lg s))" using l(6) by (simp add: entries_ok_def)
  note p = log_blks_distinct(2,3) [OF l(4) this]
  have "fst ` set (take k (log_writes s bs)) \<subseteq> log_blk (lg s) ` {0..<length bs}"
    using set_take_subset [of k "log_writes s bs"] by (fastforce simp: log_writes_def)
  moreover have "b \<notin> log_blk (lg s) ` {0..<length bs}" using p(1) p(2) [of b] assms(2) by metis
  ultimately show "b \<notin> fst ` set (take k (log_writes s bs))" by (rule contra_subsetD)
qed

lemma commit_ok:
  assumes "log_ok s bs (set bs)" and "lh_n (lg s) = int (length bs)" and "bs \<noteq> []"
  shows "\<exists>s'. commit s = ok s' \<and> binv s' \<and> held_blks s' = {} \<and> dirty_blks s' = {} \<and>
    lg s' = (lg s)\<lparr>lh_n := 0\<rparr> \<and> disksize s' = disksize s \<and>
    view s' = applyw (commit_writes s bs) (view s) \<and> mdisk s' = applyw (commit_writes s bs) (mdisk s) \<and>
    dwrites s' = dwrites s @ commit_writes s bs"
proof -
  let ?n = "length bs" and ?l = "lg s"
  have sub: "set [0..<?n] \<subseteq> {..<?n}" by auto
  obtain s1 where 1: "write_log s = ok s1" "log_ok s1 bs (set bs)" "wrote (log_writes s bs) s s1"
    using write_log_loop_ok [OF assms(1) sub] assms(2)
    by (auto simp: write_log_def log_writes_def)
  have r1: "lg s1 = ?l" "disksize s1 = disksize s" "view s1 = applyw (log_writes s bs) (view s)"
    using 1(3) lg_rest [of s1 s] by (auto simp: wrote_def)
  have h1: "view s1 (log_start ?l) = old_head s"
    using log_writes_other [OF assms(1), of "log_start ?l" "length (log_writes s bs)" "view s"] r1(3) by simp
  obtain s2 where 2: "write_head s1 = ok s2" "log_ok s2 bs (set bs)"
    "wrote [(log_start ?l, commit_head s bs)] s1 s2"
    using write_head_ok [OF 1(2), of ?n] assms(2) r1(1) h1 by (auto simp: commit_head_def)
  have r2: "lg s2 = ?l" "disksize s2 = disksize s" using 2(3) lg_rest [of s2 s1] r1 by (auto simp: wrote_def)
  have v2: "view s2 (log_blk ?l t) = view s (bs ! t)" if "t < ?n" for t
    using log_writes_at [OF assms(1) that] log_blk_props(4) [OF log_okD(4) [OF assms(1)] log_okD(10) [OF assms(1) that]]
      2(3) r1(3)
    by (simp add: wrote_def)
  have hw: "map (\<lambda>t. (bs ! t, view s2 (log_blk (lg s2) t))) [0..<?n] = home_writes s bs"
    using v2 by (simp add: home_writes_def r2)
  have em: "set bs - (!) bs ` set [0..<?n] = {}" by (auto simp: in_set_conv_nth)
  have "set bs = {} \<or> (\<forall>t \<in> set [0..<?n]. bs ! t \<in> set bs)" by simp
  note inst = install_loop_ok [OF 2(2) sub distinct_upt this, unfolded hw em]
  have nn: "nat (lh_n (lg s2)) = ?n" using r2(1) assms(2) by simp
  obtain s3 where 3: "install_trans s2 = ok s3" "log_ok s3 bs {}" "wrote (home_writes s bs) s2 s3"
    unfolding install_trans_def nn by (rule exE [OF inst]) blast
  have r3: "lg s3 = ?l" "disksize s3 = disksize s" using 3(3) lg_rest [of s3 s2] r2 by (auto simp: wrote_def)
  let ?s3 = "s3\<lparr>lg := (lg s3)\<lparr>lh_n := 0\<rparr>\<rparr>"
  have ws: "wrote (log_writes s bs @ [(log_start ?l, commit_head s bs)] @ home_writes s bs) s s3"
    using wrote_trans [OF 1(3) wrote_trans [OF 2(3) 3(3)]] by simp
  have h3: "view s3 (log_start ?l) = commit_head s bs"
  proof -
    have "log_start ?l \<notin> fst ` set (home_writes s bs)"
      using log_okD(4,11) [OF assms(1)] start_in_log by (fastforce simp: home_writes_def)
    then show ?thesis using 2(3) 3(3) by (simp add: wrote_def applyw_other)
  qed
  have "log_ok ?s3 bs {}" using 3(2) log_ok_lg_n by blast
  then obtain s4 where 4: "write_head ?s3 = ok s4" "log_ok s4 bs {}"
    "wrote [(log_start ?l, hdr 0 (lh_block ?l) (commit_head s bs))] ?s3 s4"
    using write_head_ok [of ?s3 bs "{}" 0] r3(1) h3 by auto
  have "lg s4 = ?l\<lparr>lh_n := 0\<rparr>" "disksize s4 = disksize s"
    using 4(3) lg_rest [of s4 ?s3] r3 by (auto simp: wrote_def)
  moreover have "commit s = ok s4"
    using 1(1) 2(1) 3(1) 4(1) assms(2,3) by (simp add: commit_def)
  ultimately show ?thesis
    using log_okD(1-3) [OF 4(2)] ws 4(3) by (auto simp: wrote_def commit_writes_def)
qed

section \<open>Recovery\<close>

text \<open>A disk whose log header names the blocks \<open>bs\<close>.\<close>

definition good_head :: "log \<Rightarrow> u32 \<Rightarrow> (u32 \<Rightarrow> block) \<Rightarrow> u32 list \<Rightarrow> bool" where
  "good_head l dsz d bs \<longleftrightarrow> sint (get32 (d (log_start l)) 0) = int (length bs) \<and>
     (\<forall>t < length bs. get32 (d (log_start l)) (4 + 4 * t) = bs ! t) \<and> entries_ok l dsz bs"

definition rec_writes :: "log \<Rightarrow> u32 list \<Rightarrow> (u32 \<Rightarrow> block) \<Rightarrow> (u32 \<times> block) list" where
  "rec_writes l bs d = map (\<lambda>t. (bs ! t, d (log_blk l t))) [0..<length bs] @
     [(log_start l, put32 (d (log_start l)) 0 0)]"

text \<open>Same place on disk, whatever the contents of the header.\<close>

definition same_log :: "log \<Rightarrow> log \<Rightarrow> bool" where
  "same_log l l' \<longleftrightarrow> log_start l' = log_start l \<and> log_size l' = log_size l \<and> log_dev l' = log_dev l \<and>
     length (lh_block l') = length (lh_block l)"

lemma same_logD:
  assumes "same_log l l'"
  shows "log_fits l' dsz = log_fits l dsz" "entries_ok l' dsz bs = entries_ok l dsz bs"
    "log_blk l' t = log_blk l t" "in_log l' b = in_log l b" "good_head l' dsz d bs = good_head l dsz d bs"
    "rec_writes l' bs d = rec_writes l bs d" "log_start l' = log_start l"
  using assms
  by (simp_all add: same_log_def log_fits_def entries_ok_def log_blk_def in_log_def good_head_def rec_writes_def)

lemma quiet_view: "quiet s {} \<Longrightarrow> view s b = mdisk s b"
  by (auto simp: quiet_def intro: clean_view)

lemma handle_lg_upd: "handle s h b \<Longrightarrow> binv s \<Longrightarrow> handle (s\<lparr>lg := l\<rparr>) h b \<and> binv (s\<lparr>lg := l\<rparr>)" for s :: lstate
  by simp

lemma read_head_ok:
  assumes "quiet s {}" and "good_head (lg s) (disksize s) (mdisk s) bs"
  shows "\<exists>s'. read_head s = ok s' \<and> log_ok s' bs {} \<and> same_log (lg s) (lg s') \<and>
    lh_n (lg s') = int (length bs) \<and> disksize s' = disksize s \<and> mdisk s' = mdisk s \<and> dwrites s' = dwrites s"
proof -
  let ?l = "lg s" and ?b = "log_start (lg s)" and ?n = "length bs"
  have q: "binv s" "held_blks s = {}" "dirty_blks s = {}" "log_fits ?l (disksize s)"
    using assms(1) by (auto simp: quiet_def)
  have b: "?b < disksize s" using start_in_log [OF q(4)] by blast
  have n: "?n \<le> LOGSIZE" "length (lh_block ?l) = LOGSIZE" "log_dev ?l = 1"
    using assms(2) q(4) by (auto simp: good_head_def entries_ok_def log_fits_def)
  have "?b \<in> dirty_blks s \<or> card (dirty_blks s \<union> held_blks s) < NBUF" using q by (simp add: NBUF_def)
  then obtain s1 h where 1: "bread s 1 ?b = ok (s1, h)" "binv s1" "handle s1 h ?b" "view s1 = view s"
    "dirty_blks s1 = {}" "held_blks s1 = {?b}" "mdisk s1 = mdisk s" "dwrites s1 = dwrites s" "brest s1 = brest s"
    using bc.read_ok [OF q(1) b] q by auto
  have lg1: "lg s1 = ?l" "disksize s1 = disksize s" using lg_rest [OF 1(9)] by auto
  have d: "get_data s1 h = mdisk s ?b" using bc.load_ok [OF 1(2,3)] 1(4) quiet_view [OF assms(1)] by simp
  let ?l' = "?l\<lparr>lh_n := int ?n, lh_block := head_in (mdisk s ?b) ?n (lh_block ?l)\<rparr>"
  let ?s1 = "s1\<lparr>lg := ?l'\<rparr>"
  have h1: "handle ?s1 h ?b" "binv ?s1" using 1(2,3) by simp_all
  have "view ?s1 ?b = mdisk ?s1 ?b" using 1(4,7) quiet_view [OF assms(1)] by simp
  then obtain s2 where 2: "brelse ?s1 h = ok s2" "binv s2" "dirty_blks s2 = {}" "held_blks s2 = {}"
    "mdisk s2 = mdisk s" "dwrites s2 = dwrites s" "brest s2 = brest ?s1"
    using bc.release_buf_ok [OF h1(2,1)] 1 by auto
  have lg2: "lg s2 = ?l'" "disksize s2 = disksize s" using lg_rest [OF 2(7)] lg1 by auto
  have "read_head s = ok s2"
    using 1(1) 2(1) d n lg1(1) assms(2) by (simp add: read_head_def good_head_def Let_def)
  moreover have "same_log ?l (lg s2)" by (simp add: lg2 same_log_def)
  moreover have "log_ok s2 bs {}"
    unfolding log_ok_def quiet_def
    using 2 lg2(2) assms(2) q(4) same_logD(1,2) [OF \<open>same_log ?l (lg s2)\<close>] n
    by (simp add: lg2(1) head_in_nth good_head_def)
  ultimately show ?thesis using 2 lg2 by simp
qed

lemma hdr_0: "hdr 0 bl d = put32 d 0 0"
  by (simp add: hdr_def)

text \<open>A quiet, clean state over disk \<open>d\<close> that has seen the writes \<open>w\<close>.\<close>

definition clean_state :: "log \<Rightarrow> u32 \<Rightarrow> (u32 \<Rightarrow> block) \<Rightarrow> (u32 \<times> block) list \<Rightarrow> lstate \<Rightarrow> bool" where
  "clean_state l dsz d w s \<longleftrightarrow> quiet s {} \<and> same_log l (lg s) \<and> disksize s = dsz \<and> mdisk s = d \<and> dwrites s = w"

lemma recover_ok:
  assumes "clean_state l dsz d w s" and "good_head l dsz d bs"
  shows "\<exists>s'. recover_from_log s = ok s' \<and> lh_n (lg s') = 0 \<and>
    clean_state l dsz (applyw (rec_writes l bs d) d) (w @ rec_writes l bs d) s'"
proof -
  let ?n = "length bs"
  note c = assms(1) [unfolded clean_state_def]
  have sl: "same_log l (lg s)" using c by simp
  have gh: "good_head (lg s) (disksize s) (mdisk s) bs" using assms(2) c same_logD(5) [OF sl] by simp
  obtain s1 where 1: "read_head s = ok s1" "log_ok s1 bs {}" "same_log (lg s) (lg s1)"
    "lh_n (lg s1) = int ?n" "disksize s1 = dsz" "mdisk s1 = d" "dwrites s1 = w"
    using read_head_ok [OF conjunct1 [OF c] gh] c by auto
  have sub: "set [0..<?n] \<subseteq> {..<?n}" by auto
  have d0: "({} :: u32 set) = {} \<or> (\<forall>t \<in> set [0..<?n]. bs ! t \<in> {})" by simp
  have q1: "quiet s1 {}" using 1(2) by (simp add: log_ok_def)
  obtain s2 where 2: "install_loop [0..<?n] s1 = ok s2" "log_ok s2 bs {}"
    "wrote (map (\<lambda>t. (bs ! t, d (log_blk l t))) [0..<?n]) s1 s2"
    using install_loop_ok [OF 1(2) sub distinct_upt d0] quiet_view [OF q1] 1(6)
      same_logD(3) [OF 1(3)] same_logD(3) [OF sl] by auto
  have lg2: "lg s2 = lg s1" "disksize s2 = dsz" using 2(3) lg_rest [of s2 s1] 1(5) by (auto simp: wrote_def)
  let ?s2 = "s2\<lparr>lg := (lg s2)\<lparr>lh_n := 0\<rparr>\<rparr>"
  have ok2: "log_ok ?s2 bs {}" using 2(2) log_ok_lg_n by blast
  then have q2: "quiet ?s2 {}" by (simp add: log_ok_def)
  have st: "log_start (lg s2) = log_start l" using lg2(1) same_logD(7) [OF 1(3)] same_logD(7) [OF sl] by simp
  have "log_start l \<notin> set bs"
    using log_okD(11) [OF 2(2)] start_in_log [OF log_okD(4) [OF 2(2)]] st by metis
  then have "log_start l \<notin> fst ` set (map (\<lambda>t. (bs ! t, d (log_blk l t))) [0..<?n])" by auto
  then have hd: "view ?s2 (log_start l) = d (log_start l)"
    using quiet_view [OF q2] 2(3) 1(6) applyw_other by (simp add: wrote_def)
  obtain s3 where 3: "write_head ?s2 = ok s3" "log_ok s3 bs {}"
    "wrote [(log_start l, put32 (d (log_start l)) 0 0)] ?s2 s3"
    using write_head_ok [OF ok2, of 0] st hd by (auto simp: hdr_0)
  have lg3: "lg s3 = (lg s1)\<lparr>lh_n := 0\<rparr>" "disksize s3 = dsz"
    using 3(3) lg_rest [of s3 ?s2] lg2 by (auto simp: wrote_def)
  have "recover_from_log s = ok s3"
    using 1(1,4) 2(1) 3(1) by (simp add: recover_from_log_def install_trans_def)
  moreover have "same_log l (lg s3)" using sl 1(3) by (simp add: lg3 same_log_def)
  ultimately show ?thesis
    using 3 2(3) 1(6,7) lg3 by (auto simp: clean_state_def log_ok_def wrote_def rec_writes_def)
qed

section \<open>Rebooting\<close>

text \<open>
  After a crash the memory is gone: the cache and the log start zeroed, \<open>binit\<close> links the
  buffers and \<open>initlog\<close> recovers.
\<close>

definition zero_log :: log where
  "zero_log = \<lparr>log_start = 0, log_size = 0, outstanding = 0, committing = False, log_dev = 0, lh_n = 0,
     lh_block = replicate LOGSIZE 0\<rparr>"

definition cold :: "(u32 \<Rightarrow> block) \<Rightarrow> u32 \<Rightarrow> lstate" where
  "cold d dsz = \<lparr>bufs = (\<lambda>i. zero_buf), mdisk = d, disksize = dsz, dwrites = [], bpid = 1, lg = zero_log\<rparr>"

definition boot :: "(u32 \<Rightarrow> block) \<Rightarrow> u32 \<Rightarrow> lstate outcome" where
  "boot d dsz = initlog (binit (cold d dsz)) 1"

text \<open>The disk says where its log is.\<close>

definition sb_says :: "(u32 \<Rightarrow> block) \<Rightarrow> u32 \<Rightarrow> log \<Rightarrow> bool" where
  "sb_says d dsz l \<longleftrightarrow> sb_logstart (sb_of_block (d 1)) = log_start l \<and>
     sint (sb_nlog (sb_of_block (d 1))) = log_size l \<and> 1 < dsz \<and> \<not> in_log l 1"

lemma boot_ok:
  assumes sb: "sb_says d dsz l" and fit: "log_fits l dsz" and len: "\<And>b. length (d b) = BSIZE"
    and gh: "good_head l dsz d bs"
  shows "\<exists>s'. boot d dsz = ok s' \<and> lh_n (lg s') = 0 \<and>
    clean_state l dsz (applyw (rec_writes l bs d) d) (rec_writes l bs d) s'"
proof -
  let ?s0 = "binit (cold d dsz)"
  have b0: "binv ?s0" "view ?s0 = d" "dirty_blks ?s0 = {}" "held_blks ?s0 = {}" "mdisk ?s0 = d"
    "dwrites ?s0 = []" "brest ?s0 = brest (cold d dsz)"
    using binit_inv [of "cold d dsz"] len by (simp_all add: cold_def)
  have lg0: "lg ?s0 = zero_log" "disksize ?s0 = dsz" using lg_rest [OF b0(7)] by (simp_all add: cold_def)
  have "1 < disksize ?s0" "1 \<in> dirty_blks ?s0 \<or> card (dirty_blks ?s0 \<union> held_blks ?s0) < NBUF"
    using sb lg0(2) b0(3,4) by (auto simp: sb_says_def NBUF_def)
  then obtain s1 h where 1: "bread ?s0 1 1 = ok (s1, h)" "binv s1" "handle s1 h 1" "view s1 = d"
    "dirty_blks s1 = {}" "held_blks s1 = {1}" "mdisk s1 = d" "dwrites s1 = []" "brest s1 = brest ?s0"
    using bc.read_ok [OF b0(1), of 1] b0 by auto
  have g: "get_data s1 h = d 1" using bc.load_ok [OF 1(2,3)] 1(4) by simp
  obtain s2 where 2: "brelse s1 h = ok s2" "binv s2" "dirty_blks s2 = {}" "held_blks s2 = {}"
    "mdisk s2 = d" "dwrites s2 = []" "brest s2 = brest s1"
    using bc.release_buf_ok [OF 1(2,3)] 1 by auto
  have lg2: "lg s2 = zero_log" "disksize s2 = dsz" using lg_rest [of s2 ?s0] 1(9) 2(7) lg0 by auto
  let ?l = "zero_log\<lparr>log_start := log_start l, log_size := log_size l, log_dev := 1\<rparr>"
  let ?s2 = "s2\<lparr>lg := ?l\<rparr>"
  have sl: "same_log l ?l" using fit by (simp add: same_log_def zero_log_def log_fits_def)
  then have cs: "clean_state l dsz d [] ?s2"
    using 2 lg2 fit same_logD(1) [OF sl] by (simp add: clean_state_def quiet_def)
  obtain s3 where 3: "recover_from_log ?s2 = ok s3" "lh_n (lg s3) = 0"
    "clean_state l dsz (applyw (rec_writes l bs d) d) (rec_writes l bs d) s3"
    using recover_ok [OF cs gh] by auto
  have "boot d dsz = ok s3"
    using 1(1) 2(1) 3(1) g sb lg2(1)
    by (simp add: boot_def initlog_def readsb_def sb_says_def LOGSIZE_def BSIZE_def)
  with 3 show ?thesis by blast
qed

section \<open>Crashes\<close>

lemma applyw_length:
  "(\<And>b. length (d b) = BSIZE) \<Longrightarrow> (\<And>b v. (b, v) \<in> set ws \<Longrightarrow> length v = BSIZE) \<Longrightarrow> length (applyw ws d b) = BSIZE"
proof (induction ws arbitrary: d)
  case (Cons w ws)
  obtain a v where w: "w = (a, v)" by fastforce
  have "length ((d(a := v)) c) = BSIZE" for c using Cons.prems w by auto
  moreover have "length u = BSIZE" if "(c, u) \<in> set ws" for c u using that Cons.prems(2) [of c u] by simp
  ultimately have "length (applyw ws (d(a := v)) b) = BSIZE" by (rule Cons.IH)
  then show ?case by (simp add: w del: fun_upd_apply)
qed simp

lemma rec_at:
  assumes "log_fits l dsz" and "entries_ok l dsz bs"
  shows "t < length bs \<Longrightarrow> applyw (rec_writes l bs d) d (bs ! t) = d (log_blk l t)"
    "b \<notin> set bs \<Longrightarrow> b \<noteq> log_start l \<Longrightarrow> applyw (rec_writes l bs d) d b = d b"
proof -
  have ns: "log_start l \<notin> set bs" using assms start_in_log [OF assms(1)] by (auto simp: entries_ok_def)
  have dist: "distinct (map ((!) bs) [0..<length bs])" using assms(2) by (simp add: map_nth entries_ok_def)
  show "applyw (rec_writes l bs d) d (bs ! t) = d (log_blk l t)" if "t < length bs"
  proof -
    have "bs ! t \<noteq> log_start l" using ns nth_mem [OF that] by metis
    then show ?thesis
      using that applyw_map [OF dist, of t "\<lambda>t. d (log_blk l t)" d] by (simp add: rec_writes_def)
  qed
  show "applyw (rec_writes l bs d) d b = d b" if "b \<notin> set bs" "b \<noteq> log_start l"
    using that by (intro applyw_other) (auto simp: rec_writes_def)
qed

text \<open>A prefix of writes to home blocks changes neither the header nor the log.\<close>

lemma home_prefix:
  assumes "log_fits l dsz" and "entries_ok l dsz bs" and "fst ` set ws \<subseteq> set bs"
  shows "applyw ws d (log_start l) = d (log_start l)"
    "t < length bs \<Longrightarrow> applyw ws d (log_blk l t) = d (log_blk l t)"
    "good_head l dsz (applyw ws d) bs' = good_head l dsz d bs'"
    "b \<notin> set bs \<Longrightarrow> applyw ws d b = d b"
proof -
  have n: "\<not> in_log l b" if "b \<in> set bs" for b using assms(2) that by (simp add: entries_ok_def)
  show s: "applyw ws d (log_start l) = d (log_start l)"
    using assms(3) n start_in_log [OF assms(1)] by (intro applyw_other) blast
  show "applyw ws d (log_blk l t) = d (log_blk l t)" if "t < length bs"
  proof (rule applyw_other)
    have "in_log l (log_blk l t)"
      using that assms(2) log_blk_props(3) [OF assms(1)] by (simp add: entries_ok_def)
    then show "log_blk l t \<notin> fst ` set ws" using n assms(3) by blast
  qed
  show "good_head l dsz (applyw ws d) bs' = good_head l dsz d bs'" by (simp add: good_head_def s)
  show "applyw ws d b = d b" if "b \<notin> set bs" using that assms(3) by (intro applyw_other) blast
qed

lemma take_rec_writes:
  assumes "k \<le> length bs"
  shows "fst ` set (take k (rec_writes l bs d)) \<subseteq> set bs"
    "take k (rec_writes l bs d) = take k (map (\<lambda>t. (bs ! t, d (log_blk l t))) [0..<length bs])"
proof -
  show e: "take k (rec_writes l bs d) = take k (map (\<lambda>t. (bs ! t, d (log_blk l t))) [0..<length bs])"
    using assms by (simp add: rec_writes_def)
  have "set (take k (map (\<lambda>t. (bs ! t, d (log_blk l t))) [0..<length bs]))
      \<subseteq> set (map (\<lambda>t. (bs ! t, d (log_blk l t))) [0..<length bs])" by (rule set_take_subset)
  then show "fst ` set (take k (rec_writes l bs d)) \<subseteq> set bs" unfolding e by fastforce
qed

lemma put32_zero_head: "length d = BSIZE \<Longrightarrow> sint (get32 (put32 d 0 0) 0) = 0"
  by (simp add: BSIZE_def)

lemma rec_writes_length:
  "(\<And>b. length (d b) = BSIZE) \<Longrightarrow> (b, v) \<in> set (rec_writes l bs d) \<Longrightarrow> length v = BSIZE"
  by (auto simp: rec_writes_def)

lemma good_head_empty:
  "log_fits l dsz \<Longrightarrow> good_head l dsz d [] \<longleftrightarrow> sint (get32 (d (log_start l)) 0) = 0"
  by (auto simp: good_head_def entries_ok_def log_fits_def LOGSIZE_def)

text \<open>
  The data a reboot finds: the blocks outside the log after recovery. \<open>recovers\<close> says that
  booting from a disk succeeds and finds \<open>e\<close>.
\<close>

definition recovers :: "log \<Rightarrow> u32 \<Rightarrow> (u32 \<Rightarrow> block) \<Rightarrow> (u32 \<Rightarrow> block) \<Rightarrow> bool" where
  "recovers l dsz d e \<longleftrightarrow> (\<exists>s'. boot d dsz = ok s' \<and> (\<forall>b. \<not> in_log l b \<longrightarrow> mdisk s' b = e b))"

lemma recoversI:
  assumes "sb_says d dsz l" and "log_fits l dsz" and "\<And>b. length (d b) = BSIZE" and "good_head l dsz d bs"
    and "\<And>t. t < length bs \<Longrightarrow> d (log_blk l t) = e (bs ! t)"
    and "\<And>b. b \<notin> set bs \<Longrightarrow> \<not> in_log l b \<Longrightarrow> d b = e b"
  shows "recovers l dsz d e"
proof -
  obtain s' where s': "boot d dsz = ok s'" "clean_state l dsz (applyw (rec_writes l bs d) d) (rec_writes l bs d) s'"
    using boot_ok [OF assms(1-4)] by blast
  have en: "entries_ok l dsz bs" using assms(4) by (simp add: good_head_def)
  have "mdisk s' b = e b" if nl: "\<not> in_log l b" for b
  proof (cases "b \<in> set bs")
    case True
    then obtain t where "t < length bs" "b = bs ! t" by (auto simp: in_set_conv_nth)
    then show ?thesis using s'(2) rec_at(1) [OF assms(2) en] assms(5) by (simp add: clean_state_def)
  next
    case False
    moreover have "b \<noteq> log_start l" using nl start_in_log [OF assms(2)] by auto
    ultimately show ?thesis using s'(2) rec_at(2) [OF assms(2) en] assms(6) nl by (simp add: clean_state_def)
  qed
  with s'(1) show ?thesis unfolding recovers_def by blast
qed

lemma sb_says_cong: "d' 1 = d 1 \<Longrightarrow> sb_says d' dsz l = sb_says d dsz l"
  by (simp add: sb_says_def)

lemma log_size_blk: "entries_ok l dsz bs \<Longrightarrow> t < length bs \<Longrightarrow> Suc t < nat (log_size l)"
  by (simp add: entries_ok_def)

lemma recovery_crash:
  assumes sb: "sb_says d dsz l" and fit: "log_fits l dsz" and len: "\<And>b. length (d b) = BSIZE"
    and gh: "good_head l dsz d bs" and one: "1 \<notin> set bs"
  shows "recovers l dsz (applyw (take k (rec_writes l bs d)) d) (applyw (rec_writes l bs d) d)"
proof -
  have en: "entries_ok l dsz bs" using gh by (simp add: good_head_def)
  let ?R = "rec_writes l bs d" and ?d = "applyw (take k (rec_writes l bs d)) d"
  have ns: "1 \<noteq> log_start l" using sb start_in_log [OF fit] by (auto simp: sb_says_def)
  have "1 \<notin> fst ` set (take k ?R)"
    using one ns set_take_subset [of k ?R] by (fastforce simp: rec_writes_def in_set_conv_nth)
  then have sb': "sb_says ?d dsz l" using sb sb_says_cong applyw_other by metis
  have len': "length (?d b) = BSIZE" for b
    using len rec_writes_length [OF len] set_take_subset [of k ?R] by (intro applyw_length) auto
  show ?thesis
  proof (cases "k \<le> length bs")
    case True
    note hp = home_prefix [OF fit en take_rec_writes(1) [OF True]]
    show ?thesis
    proof (rule recoversI [OF sb' fit len'])
      show "good_head l dsz ?d bs" using hp(3) gh by blast
      show "?d (log_blk l t) = applyw ?R d (bs ! t)" if "t < length bs" for t
        using hp(2) [OF that] rec_at(1) [OF fit en that] by simp
      show "?d b = applyw ?R d b" if "b \<notin> set bs" "\<not> in_log l b" for b
      proof -
        have "b \<noteq> log_start l" using start_in_log [OF fit] that(2) by auto
        then show ?thesis using hp(4) [OF that(1)] rec_at(2) [OF fit en that(1)] by simp
      qed
    qed
  next
    case False
    then have "take k ?R = ?R" by (simp add: rec_writes_def)
    moreover have "good_head l dsz (applyw ?R d) []"
      using put32_zero_head [OF len] by (simp add: good_head_empty [OF fit]) (simp add: rec_writes_def)
    ultimately show ?thesis using recoversI [OF sb' fit len', of "[]"] by simp
  qed
qed

text \<open>The three kinds of prefixes of the writes of a commit.\<close>

lemma commit_prefix_cases:
  obtains "k \<le> length bs" "take k (commit_writes s bs) = take k (log_writes s bs)"
  | j where "length bs < k" "take k (commit_writes s bs) =
      log_writes s bs @ [(log_start (lg s), commit_head s bs)] @ take j (home_writes s bs)"
  | "length bs < k" "take k (commit_writes s bs) = commit_writes s bs"
proof -
  let ?n = "length bs"
  have l: "length (log_writes s bs) = ?n" "length (home_writes s bs) = ?n"
    by (simp_all add: log_writes_def home_writes_def)
  consider "k \<le> ?n" | "?n < k" "k \<le> 2 * ?n + 1" | "2 * ?n + 1 < k" by linarith
  then show ?thesis
  proof cases
    case 1
    then have "take k (commit_writes s bs) = take k (log_writes s bs)"
      using l by (simp add: commit_writes_def)
    with 1 show ?thesis by (rule that(1))
  next
    case 2
    then obtain j where "k = Suc (?n + j)" "j \<le> ?n"
      by (metis add_Suc_shift less_imp_Suc_add add_le_cancel_left mult_2 Suc_eq_plus1 add.assoc Suc_le_mono)
    then have "take k (commit_writes s bs) =
        log_writes s bs @ [(log_start (lg s), commit_head s bs)] @ take j (home_writes s bs)"
      using l by (simp add: commit_writes_def)
    with 2(1) show ?thesis by (rule that(2))
  next
    case 3
    then have "take k (commit_writes s bs) = commit_writes s bs" using l by (simp add: commit_writes_def)
    moreover have "?n < k" using 3 by simp
    ultimately show ?thesis by (intro that(3))
  qed
qed

text \<open>What a transaction needs to be committed: its blocks are the dirty ones, the log on disk is empty.\<close>

definition committable :: "lstate \<Rightarrow> u32 list \<Rightarrow> bool" where
  "committable s bs \<longleftrightarrow> log_ok s bs (set bs) \<and> lh_n (lg s) = int (length bs) \<and> bs \<noteq> [] \<and> 1 \<notin> set bs \<and>
     sb_says (mdisk s) (disksize s) (lg s) \<and> good_head (lg s) (disksize s) (mdisk s) []"

lemma commit_data:
  assumes "log_ok s bs (set bs)"
  shows "\<not> in_log (lg s) b \<Longrightarrow> b \<notin> set bs \<Longrightarrow> view s b = mdisk s b"
    "length (commit_head s bs) = BSIZE" "length (mdisk s b) = BSIZE" "length (view s b) = BSIZE"
  using log_okD(1-3) [OF assms] clean_view [of s b] length_view binvD(3)
  by (auto simp: commit_head_def)

lemma commit_head_good:
  assumes "log_ok s bs (set bs)" and "lh_n (lg s) = int (length bs)"
    and "d (log_start (lg s)) = commit_head s bs"
  shows "good_head (lg s) (disksize s) d bs"
proof -
  note l = log_okD [OF assms(1)]
  have n: "length bs \<le> LOGSIZE" using l(6) by (simp add: entries_ok_def)
  have len: "length (old_head s) = BSIZE" using length_view [OF l(1)] .
  show ?thesis
    unfolding good_head_def assms(3) commit_head_def
    using l(6,9) n hdr_n [OF len] hdr_entry [OF _ n len] sint_small [OF n] by simp
qed

lemma commit_writes_length:
  assumes "log_ok s bs (set bs)" and "(b, v) \<in> set (commit_writes s bs)"
  shows "length v = BSIZE"
  using assms(2) commit_data(2,4) [OF assms(1)]
  by (auto simp: commit_writes_def log_writes_def home_writes_def)

lemma commit_writes_one:
  assumes "committable s bs" and "fst ` set ws \<subseteq> fst ` set (commit_writes s bs)"
  shows "applyw ws d 1 = d 1"
proof (rule applyw_other)
  have ok: "log_ok s bs (set bs)" and nl: "\<not> in_log (lg s) 1" and nb: "1 \<notin> set bs"
    using assms(1) by (auto simp: committable_def sb_says_def)
  note l = log_okD [OF ok]
  have i1: "in_log (lg s) b" if "b \<in> log_blk (lg s) ` {0..<length bs}" for b
    using log_blks_distinct(3) [OF l(4) _ that] l(6) by (simp add: entries_ok_def)
  have i2: "in_log (lg s) (log_start (lg s))" using start_in_log [OF l(4)] by blast
  have i3: "fst ` set (commit_writes s bs) \<subseteq> log_blk (lg s) ` {0..<length bs} \<union> {log_start (lg s)} \<union> set bs"
    by (auto simp: commit_writes_def log_writes_def home_writes_def)
  have "1 \<notin> log_blk (lg s) ` {0..<length bs} \<union> {log_start (lg s)} \<union> set bs"
    using i1 [of 1] i2 nl nb by (metis Un_iff singletonD)
  then have "1 \<notin> fst ` set (commit_writes s bs)" using i3 by (rule contra_subsetD [rotated])
  then show "1 \<notin> fst ` set ws" using assms(2) by (rule contra_subsetD [rotated])
qed

lemma commit_writes_data:
  assumes "log_ok s bs (set bs)" and "\<not> in_log (lg s) b"
  shows "applyw (commit_writes s bs) (mdisk s) b = view s b"
proof -
  note l = log_okD [OF assms(1)]
  have ns: "b \<noteq> log_start (lg s)" using assms(2) start_in_log [OF l(4)] by auto
  have lw: "applyw (log_writes s bs) d b = d b" for d
    using log_writes_other [OF assms(1), of b "length (log_writes s bs)"] assms(2) by simp
  show ?thesis
  proof (cases "b \<in> set bs")
    case True
    then obtain u where u: "u < length bs" "b = bs ! u" by (auto simp: in_set_conv_nth)
    have "distinct (map ((!) bs) [0..<length bs])" using l(8) by (simp add: map_nth)
    from applyw_map [OF this, of u "\<lambda>t. view s (bs ! t)"] show ?thesis
      using u ns by (simp add: commit_writes_def home_writes_def)
  next
    case False
    then have "applyw (home_writes s bs) e b = e b" for e
      by (intro applyw_other) (auto simp: home_writes_def)
    then show ?thesis using ns lw commit_data(1) [OF assms(1,2) False] by (simp add: commit_writes_def)
  qed
qed

lemma commit_crash:
  assumes "committable s bs"
  shows "recovers (lg s) (disksize s) (applyw (take k (commit_writes s bs)) (mdisk s))
    (if k \<le> length bs then mdisk s else view s)"
proof -
  have ok: "log_ok s bs (set bs)" and n: "lh_n (lg s) = int (length bs)"
    and sb: "sb_says (mdisk s) (disksize s) (lg s)" and gh: "good_head (lg s) (disksize s) (mdisk s) []"
    using assms by (auto simp: committable_def)
  note l = log_okD [OF ok] and cd = commit_data [OF ok]
  let ?d = "applyw (take k (commit_writes s bs)) (mdisk s)"
  have "?d 1 = mdisk s 1"
    using set_take_subset [of k "commit_writes s bs"] by (intro commit_writes_one [OF assms] image_mono)
  then have sb': "sb_says ?d (disksize s) (lg s)" using sb sb_says_cong by blast
  have len': "length (?d b) = BSIZE" for b
    using cd(3) commit_writes_length [OF ok] set_take_subset [of k "commit_writes s bs"]
    by (intro applyw_length) auto
  note R = recoversI [OF sb' l(4) len']
  have lw: "applyw (log_writes s bs) d b = d b" if "\<not> in_log (lg s) b \<or> b = log_start (lg s)" for d b
    using log_writes_other [OF ok that, of "length (log_writes s bs)"] by simp
  show ?thesis
  proof (rule commit_prefix_cases [of k bs s])
    assume k: "k \<le> length bs" and t: "take k (commit_writes s bs) = take k (log_writes s bs)"
    note o = log_writes_other [OF ok, of _ k "mdisk s"]
    have "good_head (lg s) (disksize s) ?d []"
      using gh o [of "log_start (lg s)"] unfolding t by (simp add: good_head_empty [OF l(4)])
    then show ?thesis using k o unfolding t [symmetric] by (intro R) auto
  next
    fix j
    assume k: "length bs < k" and t: "take k (commit_writes s bs) =
      log_writes s bs @ [(log_start (lg s), commit_head s bs)] @ take j (home_writes s bs)"
    let ?d1 = "(applyw (log_writes s bs) (mdisk s))(log_start (lg s) := commit_head s bs)"
    let ?h = "take j (home_writes s bs)"
    have d: "?d = applyw ?h ?d1" by (simp add: t)
    have "fst ` set ?h \<subseteq> set bs"
      using set_take_subset [of j "home_writes s bs"] by (fastforce simp: home_writes_def)
    note hp = home_prefix [OF l(4,6) this]
    have 1: "good_head (lg s) (disksize s) ?d bs"
      unfolding d hp(3) using commit_head_good [OF ok n] by simp
    have 2: "?d (log_blk (lg s) u) = view s (bs ! u)" if "u < length bs" for u
      unfolding d hp(2) [OF that]
      using log_writes_at [OF ok that] log_blk_props(4) [OF l(4) l(10) [OF that]] by simp
    have 3: "?d b = view s b" if "b \<notin> set bs" "\<not> in_log (lg s) b" for b
    proof -
      have "b \<noteq> log_start (lg s)" using that(2) start_in_log [OF l(4)] by auto
      then show ?thesis unfolding d hp(4) [OF that(1)] using lw that cd(1) by simp
    qed
    show ?thesis using k 1 2 3 by (intro R) auto
  next
    assume k: "length bs < k" and t: "take k (commit_writes s bs) = commit_writes s bs"
    have hd: "?d (log_start (lg s)) = put32 (commit_head s bs) 0 0"
      unfolding t by (simp add: commit_writes_def hdr_0)
    have "good_head (lg s) (disksize s) ?d []"
      using put32_zero_head [OF cd(2)] by (simp add: good_head_empty [OF l(4)] hd)
    moreover have "?d b = view s b" if "\<not> in_log (lg s) b" for b
      unfolding t using commit_writes_data [OF ok that] .
    ultimately show ?thesis using k by (intro R [of "[]"]) auto
  qed
qed

section \<open>Transactions\<close>

lemma absorb_result:
  "i \<le> n \<Longrightarrow> i \<le> absorb bl n b i \<and> absorb bl n b i \<le> n \<and>
    (\<forall>k. i \<le> k \<and> k < absorb bl n b i \<longrightarrow> bl ! k \<noteq> b) \<and> (absorb bl n b i < n \<longrightarrow> bl ! absorb bl n b i = b)"
proof (induction bl n b i rule: absorb.induct)
  case (1 bl n b i)
  show ?case
  proof (cases "i < n \<and> bl ! i \<noteq> b")
    case True
    then have e: "absorb bl n b i = absorb bl n b (i + 1)" by (subst absorb.simps) simp
    have IH: "i + 1 \<le> absorb bl n b (i + 1)" "absorb bl n b (i + 1) \<le> n"
      "\<And>k. i + 1 \<le> k \<Longrightarrow> k < absorb bl n b (i + 1) \<Longrightarrow> bl ! k \<noteq> b"
      "absorb bl n b (i + 1) < n \<Longrightarrow> bl ! absorb bl n b (i + 1) = b"
      using 1 True by auto
    have "bl ! k \<noteq> b" if "i \<le> k" "k < absorb bl n b (i + 1)" for k
      using IH(3) [of k] that True by (cases "k = i") auto
    then show ?thesis unfolding e using IH by auto
  next
    case False
    have "absorb bl n b i = i" by (subst absorb.simps) (simp only: False if_False)
    with 1 False show ?thesis by auto
  qed
qed

definition logged :: "u32 list \<Rightarrow> u32 \<Rightarrow> u32 list" where
  "logged bs b = (if b \<in> set bs then bs else bs @ [b])"

text \<open>The log inside a transaction that has changed the blocks \<open>bs\<close>.\<close>

definition log_has :: "log \<Rightarrow> u32 \<Rightarrow> u32 list \<Rightarrow> bool" where
  "log_has l dsz bs \<longleftrightarrow> log_fits l dsz \<and> entries_ok l dsz bs \<and> lh_n l = int (length bs) \<and>
     (\<forall>t < length bs. lh_block l ! t = bs ! t)"

lemma log_add_ok:
  assumes "log_has l dsz bs" and "0 < outstanding l" and "Suc (length bs) < nat (log_size l)"
    and "Suc (length bs) < LOGSIZE" and "b < dsz" and "\<not> in_log l b"
  shows "\<exists>l'. log_add l b = ok l' \<and> log_has l' dsz (logged bs b) \<and> same_log l l' \<and>
    outstanding l' = outstanding l \<and> committing l' = committing l"
proof -
  let ?n = "length bs"
  let ?i = "absorb (lh_block l) ?n b 0"
  let ?l = "l\<lparr>lh_block := (lh_block l)[?i := b]\<rparr>"
  let ?l' = "if ?i = ?n then ?l\<lparr>lh_n := int ?n + 1\<rparr> else ?l"
  have h: "lh_n l = int ?n" "\<And>t. t < ?n \<Longrightarrow> lh_block l ! t = bs ! t" "length (lh_block l) = LOGSIZE"
    "distinct bs" "entries_ok l dsz bs" "log_fits l dsz"
    using assms(1) by (auto simp: log_has_def log_fits_def entries_ok_def)
  have a: "?i \<le> ?n" "\<And>k. k < ?i \<Longrightarrow> lh_block l ! k \<noteq> b" "?i < ?n \<Longrightarrow> lh_block l ! ?i = b"
    using absorb_result [of 0 ?n "lh_block l" b] by auto
  have add: "log_add l b = ok ?l'" using assms(2-4) h(1) by (simp add: log_add_def Let_def)
  have sl: "same_log l ?l'" by (simp add: same_log_def)
  have lh: "log_has ?l' dsz (logged bs b)"
  proof (cases "?i = ?n")
    case True
    then have nb: "b \<notin> set bs" using a(2) h(2) by (auto simp: in_set_conv_nth)
    have "(lh_block l)[?n := b] ! t = (bs @ [b]) ! t" if "t < Suc ?n" for t
      using that h(2,3) assms(4) by (cases "t = ?n") (auto simp: nth_append)
    then show ?thesis
      using True nb h(5,6) assms(3-6) same_logD(1,2) [OF sl]
      by (auto simp: log_has_def logged_def entries_ok_def in_log_def log_fits_def)
  next
    case False
    then have i: "?i < ?n" "bs ! ?i = b" using a h(2) by auto
    then have "b \<in> set bs" by (metis nth_mem)
    moreover have "(lh_block l)[?i := b] = lh_block l" using a(3) i(1) by (metis list_update_id)
    ultimately show ?thesis using False assms(1) by (simp add: logged_def)
  qed
  have "outstanding ?l' = outstanding l" "committing ?l' = committing l" by simp_all
  with add sl lh show ?thesis by blast
qed

definition tx :: "lstate \<Rightarrow> u32 list \<Rightarrow> bool" where
  "tx s bs \<longleftrightarrow> binv s \<and> held_blks s = {} \<and> dirty_blks s = set bs \<and> log_has (lg s) (disksize s) bs \<and>
     outstanding (lg s) = 1 \<and> \<not> committing (lg s)"

text \<open>The typical use of \<open>log_write\<close> that \<^verbatim>\<open>log.c\<close> describes.\<close>

definition tx_write :: "lstate \<Rightarrow> u32 \<Rightarrow> block \<Rightarrow> lstate outcome" where
  "tx_write s b d =
     bnd (bread s 1 b) (\<lambda>(s, bp). bnd (log_write (set_data s bp d) bp) (\<lambda>s. brelse s bp))"

fun tx_writes :: "(u32 \<times> block) list \<Rightarrow> lstate \<Rightarrow> lstate outcome" where
  "tx_writes [] s = ok s"
| "tx_writes ((b, d) # us) s = bnd (tx_write s b d) (tx_writes us)"

definition transaction :: "(u32 \<times> block) list \<Rightarrow> lstate \<Rightarrow> lstate outcome" where
  "transaction us s = bnd (begin_op s) (\<lambda>s. bnd (tx_writes us s) end_op)"

lemma tx_write_ok:
  assumes "tx s bs" and "Suc (length bs) < nat (log_size (lg s))" and "Suc (length bs) < LOGSIZE"
    and "b < disksize s" and "\<not> in_log (lg s) b" and "length d = BSIZE"
  shows "\<exists>s'. tx_write s b d = ok s' \<and> tx s' (logged bs b) \<and> same_log (lg s) (lg s') \<and>
    view s' = (view s)(b := d) \<and> mdisk s' = mdisk s \<and> dwrites s' = dwrites s \<and> disksize s' = disksize s"
proof -
  note t = assms(1) [unfolded tx_def]
  have "card (set bs) \<le> length bs" by (rule card_length)
  then have cap: "card (dirty_blks s \<union> held_blks s) < NBUF" using t assms(3) by (simp add: LOGSIZE_def NBUF_def)
  obtain s1 h where 1: "bread s 1 b = ok (s1, h)" "binv s1" "handle s1 h b" "view s1 = view s"
    "dirty_blks s1 = set bs" "held_blks s1 = {b}" "mdisk s1 = mdisk s" "dwrites s1 = dwrites s" "brest s1 = brest s"
    using bc.read_ok [of s b] t assms(4) cap by auto
  let ?s2 = "set_data s1 h d"
  have 2: "binv ?s2" "view ?s2 = (view s)(b := d)" "dirty_blks ?s2 = set bs" "held_blks ?s2 = {b}"
    "mdisk ?s2 = mdisk s" "dwrites ?s2 = dwrites s" "brest ?s2 = brest s" "handle ?s2 h b"
    using bc.store_ok [OF 1(2,3) assms(6)] 1 by auto
  have lg2: "lg ?s2 = lg s" "disksize ?s2 = disksize s" using lg_rest [OF 2(7)] by auto
  have bn: "b_blockno (bufs ?s2 h) = b" using 2(8) by (simp add: handle_def holds_blk_def)
  obtain l' where l': "log_add (lg s) b = ok l'" "log_has l' (disksize s) (logged bs b)" "same_log (lg s) l'"
    "outstanding l' = 1" "\<not> committing l'"
    using log_add_ok [of "lg s" "disksize s" bs b] t assms(2-5) by auto
  let ?s3 = "set_dirty (?s2\<lparr>lg := l'\<rparr>) h"
  have h2: "binv (?s2\<lparr>lg := l'\<rparr>)" "handle (?s2\<lparr>lg := l'\<rparr>) h b" using 2(1,8) by simp_all
  have 3: "log_write ?s2 h = ok ?s3" using l'(1) bn lg2(1) by (simp add: log_write_def)
  have 4: "binv ?s3" "view ?s3 = (view s)(b := d)" "dirty_blks ?s3 = insert b (set bs)" "held_blks ?s3 = {b}"
    "mdisk ?s3 = mdisk s" "dwrites ?s3 = dwrites s" "brest ?s3 = brest (?s2\<lparr>lg := l'\<rparr>)" "handle ?s3 h b"
    using bc.mark_ok [OF h2] 2 by auto
  obtain s4 where 5: "brelse ?s3 h = ok s4" "binv s4" "view s4 = view ?s3" "dirty_blks s4 = dirty_blks ?s3"
    "held_blks s4 = {}" "mdisk s4 = mdisk s" "dwrites s4 = dwrites s" "brest s4 = brest ?s3"
    using bc.release_buf_ok [OF 4(1,8)] 4 by auto
  have lg4: "lg s4 = l'" "disksize s4 = disksize s"
    using lg_rest [of s4 "?s2\<lparr>lg := l'\<rparr>"] 5(8) 4(7) lg2(2) by auto
  have "tx s4 (logged bs b)"
    using 5 4(3) l' lg4 by (auto simp: tx_def logged_def)
  moreover have "tx_write s b d = ok s4" using 1(1) 3 5(1) by (simp add: tx_write_def)
  ultimately show ?thesis using 5 4(2) l'(3) lg4 by auto
qed

lemma length_logged: "length (logged bs b) \<le> Suc (length bs)"
  by (simp add: logged_def)

fun logged_all :: "u32 list \<Rightarrow> u32 list \<Rightarrow> u32 list" where
  "logged_all bs [] = bs"
| "logged_all bs (c # cs) = logged_all (logged bs c) cs"

lemma set_logged_all: "set (logged_all bs cs) = set bs \<union> set cs"
  by (induction cs arbitrary: bs) (auto simp: logged_def)

lemma distinct_logged_all: "distinct bs \<Longrightarrow> distinct (logged_all bs cs)"
  by (induction cs arbitrary: bs) (auto simp: logged_def)

text \<open>The blocks to be changed: inside the disk, outside the log, and few enough.\<close>

definition updates_ok :: "log \<Rightarrow> u32 \<Rightarrow> u32 list \<Rightarrow> (u32 \<times> block) list \<Rightarrow> bool" where
  "updates_ok l dsz bs us \<longleftrightarrow> (\<forall>(b, d) \<in> set us. b < dsz \<and> \<not> in_log l b \<and> length d = BSIZE) \<and>
     Suc (card (set bs \<union> fst ` set us)) < nat (log_size l) \<and> Suc (card (set bs \<union> fst ` set us)) < LOGSIZE"

lemma tx_writes_ok:
  assumes "tx s bs" and "updates_ok (lg s) (disksize s) bs us"
  shows "\<exists>s'. tx_writes us s = ok s' \<and> tx s' (logged_all bs (map fst us)) \<and> same_log (lg s) (lg s') \<and>
    view s' = applyw us (view s) \<and> mdisk s' = mdisk s \<and> dwrites s' = dwrites s \<and> disksize s' = disksize s"
  using assms
proof (induction us arbitrary: s bs)
  case Nil
  then show ?case by (auto simp: same_log_def)
next
  case (Cons u us)
  obtain b d where u: "u = (b, d)" by fastforce
  have db: "distinct bs" using Cons.prems(1) by (auto simp: tx_def log_has_def entries_ok_def)
  have "card (set bs) \<le> card (set bs \<union> fst ` set (u # us))" by (intro card_mono) auto
  then have "length bs \<le> card (set bs \<union> fst ` set (u # us))" using distinct_card [OF db] by simp
  then obtain s1 where 1: "tx_write s b d = ok s1" "tx s1 (logged bs b)" "same_log (lg s) (lg s1)"
    "view s1 = (view s)(b := d)" "mdisk s1 = mdisk s" "dwrites s1 = dwrites s" "disksize s1 = disksize s"
    using tx_write_ok [OF Cons.prems(1), of b d] Cons.prems(2) by (auto simp: u updates_ok_def)
  have "set (logged bs b) \<union> fst ` set us = set bs \<union> fst ` set (u # us)" by (auto simp: u logged_def)
  moreover have "log_size (lg s1) = log_size (lg s)" using 1(3) by (simp add: same_log_def)
  ultimately have "updates_ok (lg s1) (disksize s1) (logged bs b) us"
    using Cons.prems(2) same_logD(4) [OF 1(3)] by (auto simp: updates_ok_def 1(7))
  from Cons.IH [OF 1(2) this] obtain s' where "tx_writes us s1 = ok s'"
    "tx s' (logged_all (logged bs b) (map fst us))" "same_log (lg s1) (lg s')" "view s' = applyw us (view s1)"
    "mdisk s' = mdisk s1" "dwrites s' = dwrites s1" "disksize s' = disksize s1" by blast
  with 1 show ?case by (auto simp: u same_log_def)
qed

text \<open>Between transactions: nothing dirty, the log empty in memory and on disk.\<close>

definition idle :: "lstate \<Rightarrow> bool" where
  "idle s \<longleftrightarrow> quiet s {} \<and> lh_n (lg s) = 0 \<and> outstanding (lg s) = 0 \<and> \<not> committing (lg s) \<and>
     1 < log_size (lg s) \<and> sb_says (mdisk s) (disksize s) (lg s) \<and> good_head (lg s) (disksize s) (mdisk s) []"

lemma transaction_run:
  assumes "idle s" and "updates_ok (lg s) (disksize s) [] us" and "us \<noteq> []" and "1 \<notin> fst ` set us"
  shows "\<exists>s1 s2 s'. transaction us s = ok s' \<and> commit s1 = ok s2 \<and>
    committable s1 (logged_all [] (map fst us)) \<and> same_log (lg s) (lg s1) \<and> disksize s1 = disksize s \<and>
    view s1 = applyw us (mdisk s) \<and> mdisk s1 = mdisk s \<and> dwrites s1 = dwrites s \<and>
    mdisk s' = mdisk s2 \<and> dwrites s' = dwrites s2"
proof -
  let ?bs = "logged_all [] (map fst us)"
  note i = assms(1) [unfolded idle_def quiet_def]
  let ?s0 = "s\<lparr>lg := (lg s)\<lparr>outstanding := 1\<rparr>\<rparr>"
  have b0: "begin_op s = ok ?s0"
    using i by (simp add: begin_op_def begin_op_pass_def MAXOPBLOCKS_def LOGSIZE_def)
  have sl0: "same_log (lg s) (lg ?s0)" by (simp add: same_log_def)
  have "tx ?s0 []"
    using i same_logD(1) [OF sl0, of "disksize s"] by (auto simp: tx_def log_has_def entries_ok_def LOGSIZE_def)
  moreover have "updates_ok (lg ?s0) (disksize ?s0) [] us"
    using assms(2) by (simp add: updates_ok_def in_log_def)
  ultimately obtain s1 where 1: "tx_writes us ?s0 = ok s1" "tx s1 ?bs" "same_log (lg ?s0) (lg s1)"
    "view s1 = applyw us (view ?s0)" "mdisk s1 = mdisk s" "dwrites s1 = dwrites s" "disksize s1 = disksize s"
    using tx_writes_ok [of ?s0 "[]" us] by auto
  have q: "quiet s {}" using assms(1) by (simp add: idle_def)
  have v: "view ?s0 = mdisk s" using quiet_view [OF q] by (simp add: fun_eq_iff)
  let ?l1 = "(lg s1)\<lparr>outstanding := 0, committing := True\<rparr>"
  let ?s1 = "s1\<lparr>lg := ?l1\<rparr>"
  have t1: "binv s1" "held_blks s1 = {}" "dirty_blks s1 = set ?bs" "log_has (lg s1) (disksize s1) ?bs"
    "outstanding (lg s1) = 1" "\<not> committing (lg s1)" using 1(2) by (auto simp: tx_def)
  have sl1: "same_log (lg s) ?l1" using 1(3) sl0 by (simp add: same_log_def)
  have ent: "end_op_enter (lg s1) = ok (?l1, True)" using t1(5,6) by (simp add: end_op_enter_def Let_def)
  have lf: "log_fits ?l1 (disksize s1)" "entries_ok ?l1 (disksize s1) ?bs"
    using t1(4) by (simp_all add: log_has_def log_fits_def entries_ok_def in_log_def)
  have ok1: "log_ok ?s1 ?bs (set ?bs)"
    using t1 lf by (simp add: log_ok_def quiet_def log_has_def)
  have "set ?bs = fst ` set us" using set_logged_all [of "[]" "map fst us"] by simp
  then have bs: "?bs \<noteq> []" "1 \<notin> set ?bs" using assms(3,4) by (auto simp flip: set_empty)
  have cm: "committable ?s1 ?bs"
    unfolding committable_def
    using ok1 bs t1(4) i 1(5,7) sl1 same_logD(5) [OF sl1, of "disksize s" "mdisk s" "[]"]
    by (simp add: log_has_def sb_says_def in_log_def same_log_def)
  have n1: "lh_n (lg ?s1) = int (length ?bs)" using t1(4) by (simp add: log_has_def)
  obtain s2 where 2: "commit ?s1 = ok s2" using commit_ok [OF ok1 n1 bs(1)] by blast
  have "transaction us s = ok (s2\<lparr>lg := (lg s2)\<lparr>committing := False\<rparr>\<rparr>)"
    using b0 1(1) ent 2 by (simp add: transaction_def end_op_def)
  then show ?thesis using 2 cm sl1 1 v
    by - (rule exI [of _ ?s1], rule exI [of _ s2],
        rule exI [of _ "s2\<lparr>lg := (lg s2)\<lparr>committing := False\<rparr>\<rparr>"], simp)
qed

section \<open>Properties of transactions\<close>

text \<open>
  C2. A transaction is atomic with respect to crashes. Running \<open>begin_op\<close>, a series of
  block updates through \<open>bread\<close>, \<open>log_write\<close> and \<open>brelse\<close>, and \<open>end_op\<close> returns, and then
  the disk outside the log holds exactly the updates. If the machine stops after any number
  \<open>k\<close> of the disk writes, rebooting succeeds and finds, outside the log, either the disk
  before the transaction or the disk with all its updates.
\<close>

theorem transaction_atomic:
  assumes "idle s" and "updates_ok (lg s) (disksize s) [] us" and "us \<noteq> []" and "1 \<notin> fst ` set us"
  shows "\<exists>s'. transaction us s = ok s' \<and>
    (\<forall>b. \<not> in_log (lg s) b \<longrightarrow> mdisk s' b = applyw us (mdisk s) b) \<and>
    (\<forall>k. \<exists>s''. boot (applyw (take k (drop (length (dwrites s)) (dwrites s'))) (mdisk s)) (disksize s) = ok s'' \<and>
       ((\<forall>b. \<not> in_log (lg s) b \<longrightarrow> mdisk s'' b = mdisk s b) \<or>
        (\<forall>b. \<not> in_log (lg s) b \<longrightarrow> mdisk s'' b = applyw us (mdisk s) b)))"
proof -
  let ?bs = "logged_all [] (map fst us)"
  obtain s1 s2 s' where r: "transaction us s = ok s'" "commit s1 = ok s2" "committable s1 ?bs"
    "same_log (lg s) (lg s1)" "disksize s1 = disksize s" "view s1 = applyw us (mdisk s)" "mdisk s1 = mdisk s"
    "dwrites s1 = dwrites s" "mdisk s' = mdisk s2" "dwrites s' = dwrites s2"
    using transaction_run [OF assms] by blast
  have c: "log_ok s1 ?bs (set ?bs)" "lh_n (lg s1) = int (length ?bs)" "?bs \<noteq> []"
    using r(3) by (auto simp: committable_def)
  have 2: "mdisk s2 = applyw (commit_writes s1 ?bs) (mdisk s)" "dwrites s2 = dwrites s @ commit_writes s1 ?bs"
    using commit_ok [OF c] r(2,7,8) by auto
  note il = same_logD(4) [OF r(4)]
  have "mdisk s' b = applyw us (mdisk s) b" if "\<not> in_log (lg s) b" for b
    using commit_writes_data [OF c(1), of b] that r(6,7,9) 2(1) il by simp
  moreover have "\<exists>s''. boot (applyw (take k (drop (length (dwrites s)) (dwrites s'))) (mdisk s)) (disksize s) = ok s'' \<and>
       ((\<forall>b. \<not> in_log (lg s) b \<longrightarrow> mdisk s'' b = mdisk s b) \<or>
        (\<forall>b. \<not> in_log (lg s) b \<longrightarrow> mdisk s'' b = applyw us (mdisk s) b))" for k
    using commit_crash [OF r(3), of k] r(5,6,7,10) 2(2) il
    by (auto simp: recovers_def split: if_splits)
  ultimately show ?thesis using r(1) by blast
qed

definition wd :: "u32 \<Rightarrow> block" where
  "wd b = (if b = 1 then put32 (put32 (replicate BSIZE 0) 12 30) 16 2 else replicate BSIZE 0)"

definition wl :: log where
  "wl = \<lparr>log_start = 2, log_size = 30, outstanding = 0, committing = False, log_dev = 1, lh_n = 0,
     lh_block = replicate LOGSIZE 0\<rparr>"

definition ws :: lstate where
  "ws = (binit (cold wd 1000))\<lparr>lg := wl\<rparr>"

lemma wd_facts: "length (wd b) = BSIZE" "sb_says wd 1000 wl" "log_fits wl 1000" "good_head wl 1000 wd []"
proof -
  show "length (wd b) = BSIZE" by (simp add: wd_def)
  have "sint (30 :: u32) = 30" using sint_small [of 30] by (simp add: LOGSIZE_def)
  moreover have "\<not> unat (- 1 :: u32) < unat (30 :: u32)" unfolding word_less_nat_alt [symmetric] by simp
  ultimately show "sb_says wd 1000 wl"
    by (simp add: sb_says_def wd_def wl_def sb_of_block_def in_log_def get32_put32_other BSIZE_def)
  show f: "log_fits wl 1000" by (simp add: log_fits_def wl_def)
  show "good_head wl 1000 wd []" by (simp add: good_head_empty [OF f]) (simp add: wd_def wl_def get32_def BSIZE_def)
qed

lemma ws_idle: "idle ws" "lg ws = wl" "disksize ws = 1000"
proof -
  have b: "binv (binit (cold wd 1000))" "dirty_blks (binit (cold wd 1000)) = {}"
    "held_blks (binit (cold wd 1000)) = {}" "mdisk (binit (cold wd 1000)) = wd"
    "brest (binit (cold wd 1000)) = brest (cold wd 1000)"
    using binit_inv [of "cold wd 1000"] wd_facts(1) by (simp_all add: cold_def)
  show l: "lg ws = wl" by (simp add: ws_def)
  have "disksize (binit (cold wd 1000)) = 1000" using lg_rest(2) [OF b(5)] by (simp add: cold_def)
  then show d: "disksize ws = 1000" by (simp add: ws_def)
  have "mdisk ws = wd" using b(4) by (simp add: ws_def)
  with b l d wd_facts show "idle ws"
    by (simp add: idle_def quiet_def) (simp add: ws_def wl_def)
qed

theorem transaction_atomic_witness:
  "\<exists>s'. transaction [(100, replicate BSIZE 7)] ws = ok s' \<and> mdisk s' 100 = replicate BSIZE 7"
proof -
  have "updates_ok (lg ws) (disksize ws) [] [(100, replicate BSIZE 7)]"
    by (simp add: updates_ok_def ws_idle(2,3)) (simp add: wl_def in_log_def LOGSIZE_def)
  moreover have "\<not> in_log (lg ws) 100" by (simp add: ws_idle(2) wl_def in_log_def)
  ultimately show ?thesis using transaction_atomic [OF ws_idle(1), of "[(100, replicate BSIZE 7)]"] by auto
qed

text \<open>
  C8. Recovery is idempotent: if the machine stops after any number \<open>k\<close> of the disk writes
  that recovery makes, the next reboot succeeds and finds the same data.
\<close>

theorem recovery_idempotent:
  assumes "sb_says d dsz l" and "log_fits l dsz" and "\<And>b. length (d b) = BSIZE"
    and "good_head l dsz d bs" and "1 \<notin> set bs"
  shows "\<exists>s'. boot d dsz = ok s' \<and>
    (\<forall>k. \<exists>s''. boot (applyw (take k (dwrites s')) d) dsz = ok s'' \<and>
       (\<forall>b. \<not> in_log l b \<longrightarrow> mdisk s'' b = mdisk s' b))"
proof -
  obtain s' where s': "boot d dsz = ok s'"
    "clean_state l dsz (applyw (rec_writes l bs d) d) (rec_writes l bs d) s'"
    using boot_ok [OF assms(1-4)] by blast
  then have w: "dwrites s' = rec_writes l bs d" "mdisk s' = applyw (rec_writes l bs d) d"
    by (simp_all add: clean_state_def)
  have "\<exists>s''. boot (applyw (take k (dwrites s')) d) dsz = ok s'' \<and>
       (\<forall>b. \<not> in_log l b \<longrightarrow> mdisk s'' b = mdisk s' b)" for k
    using recovery_crash [OF assms, of k] unfolding w recovers_def .
  with s'(1) show ?thesis by blast
qed

theorem recovery_idempotent_witness:
  "\<exists>s'. boot wd 1000 = ok s' \<and> (\<exists>s''. boot (applyw (take 1 (dwrites s')) wd) 1000 = ok s'')"
  using recovery_idempotent [OF wd_facts(2,3,1,4)] by simp blast

section \<open>Admission\<close>

text \<open>
  Several operations run in one transaction. \<open>ad_used p\<close> is the number of blocks operation
  \<open>p\<close> has added to the log so far; an operation adds at most \<open>MAXOPBLOCKS\<close>. While the last
  one commits, nobody else is active.
\<close>

record adm =
  ad_log :: log
  ad_used :: "nat \<Rightarrow> nat option"

inductive ad_step :: "adm \<Rightarrow> adm \<Rightarrow> bool" where
  ad_begin: "ad_used a p = None \<Longrightarrow> begin_op_pass (ad_log a) = Some l \<Longrightarrow>
    ad_step a \<lparr>ad_log = l, ad_used = (ad_used a)(p := Some 0)\<rparr>"
| ad_write: "ad_used a p = Some u \<Longrightarrow> u < 10 \<Longrightarrow> log_add (ad_log a) b = ok l \<Longrightarrow>
    ad_step a \<lparr>ad_log = l, ad_used = (ad_used a)(p := Some (u + nat (lh_n l - lh_n (ad_log a))))\<rparr>"
| ad_end: "ad_used a p = Some u \<Longrightarrow> end_op_enter (ad_log a) = ok (l, c) \<Longrightarrow>
    ad_step a \<lparr>ad_log = l, ad_used = (ad_used a)(p := None)\<rparr>"
| ad_commit: "committing (ad_log a) \<Longrightarrow>
    ad_step a \<lparr>ad_log = (ad_log a)\<lparr>lh_n := 0, committing := False\<rparr>, ad_used = ad_used a\<rparr>"

inductive_cases ad_stepE: "ad_step a a'"

inductive ad_reachable :: "int \<Rightarrow> adm \<Rightarrow> bool" for nlog where
  ad_start: "ad_reachable nlog \<lparr>ad_log = zero_log\<lparr>log_size := nlog\<rparr>, ad_used = (\<lambda>p. None)\<rparr>"
| ad_next: "ad_reachable nlog a \<Longrightarrow> ad_step a a' \<Longrightarrow> ad_reachable nlog a'"

definition ad_active :: "adm \<Rightarrow> nat set" where
  "ad_active a = {p. ad_used a p \<noteq> None}"

text \<open>The blocks the active operations may still add.\<close>

definition ad_left :: "adm \<Rightarrow> nat" where
  "ad_left a = (\<Sum>p \<in> ad_active a. 10 - the (ad_used a p))"

definition ad_inv :: "int \<Rightarrow> adm \<Rightarrow> bool" where
  "ad_inv nlog a \<longleftrightarrow> finite (ad_active a) \<and> outstanding (ad_log a) = int (card (ad_active a)) \<and>
     (committing (ad_log a) \<longrightarrow> ad_active a = {}) \<and> 0 \<le> lh_n (ad_log a) \<and>
     lh_n (ad_log a) + int (ad_left a) \<le> 30 \<and> log_size (ad_log a) = nlog"

lemma log_add_n:
  assumes "log_add l b = ok l'"
  shows "lh_n l' = lh_n l \<or> lh_n l' = lh_n l + 1" "outstanding l' = outstanding l"
    "committing l' = committing l" "log_size l' = log_size l"
  using assms by (auto simp: log_add_def Let_def split: if_splits)

lemma end_op_enter_n:
  assumes "end_op_enter l = ok (l', c)"
  shows "lh_n l' = lh_n l" "outstanding l' = outstanding l - 1" "log_size l' = log_size l"
    "committing l' \<longleftrightarrow> outstanding l = 1"
  using assms by (auto simp: end_op_enter_def Let_def split: if_splits)

lemma ad_left_le: "finite (ad_active a) \<Longrightarrow> ad_left a \<le> 10 * card (ad_active a)"
  unfolding ad_left_def using sum_bounded_above [of "ad_active a" "\<lambda>p. 10 - the (ad_used a p)" 10] by simp

lemma ad_step_inv: "ad_step a a' \<Longrightarrow> ad_inv nlog a \<Longrightarrow> ad_inv nlog a'"
proof (induction rule: ad_step.induct)
  case (ad_begin a p l)
  let ?a' = "\<lparr>ad_log = l, ad_used = (ad_used a)(p := Some 0)\<rparr>"
  have act: "ad_active ?a' = insert p (ad_active a)" "p \<notin> ad_active a"
    using ad_begin by (auto simp: ad_active_def)
  have fin: "finite (ad_active a)" using ad_begin by (simp add: ad_inv_def)
  have "(\<Sum>q \<in> ad_active a. 10 - the (ad_used ?a' q)) = ad_left a"
    unfolding ad_left_def using act(2) by (intro sum.cong) auto
  then have "ad_left ?a' = 10 + ad_left a"
    unfolding ad_left_def [of ?a'] act(1) using act(2) fin by simp
  with ad_begin act fin ad_left_le [of a] show ?case
    by (auto simp: ad_inv_def begin_op_pass_def MAXOPBLOCKS_def LOGSIZE_def split: if_splits)
next
  case (ad_write a p u b l)
  let ?a' = "\<lparr>ad_log = l, ad_used = (ad_used a)(p := Some (u + nat (lh_n l - lh_n (ad_log a))))\<rparr>"
  have act: "ad_active ?a' = ad_active a" "p \<in> ad_active a" using ad_write by (auto simp: ad_active_def)
  have fin: "finite (ad_active a)" using ad_write by (simp add: ad_inv_def)
  have s: "ad_left x = (10 - the (ad_used x p)) + (\<Sum>q \<in> ad_active a - {p}. 10 - the (ad_used x q))"
    if "ad_active x = ad_active a" for x
    unfolding ad_left_def that using sum.remove [OF fin act(2)] by blast
  have rest: "(\<Sum>q \<in> ad_active a - {p}. 10 - the (ad_used ?a' q)) = (\<Sum>q \<in> ad_active a - {p}. 10 - the (ad_used a q))"
    by (intro sum.cong) auto
  have "lh_n l + int (ad_left ?a') \<le> lh_n (ad_log a) + int (ad_left a)"
    using s [of a] s [of ?a'] rest act(1) ad_write(1,2) log_add_n(1) [OF ad_write(3)] by auto
  with ad_write act log_add_n [OF ad_write(3)] show ?case by (auto simp: ad_inv_def)
next
  case (ad_end a p u l c)
  let ?a' = "\<lparr>ad_log = l, ad_used = (ad_used a)(p := None)\<rparr>"
  have act: "ad_active ?a' = ad_active a - {p}" "p \<in> ad_active a" using ad_end by (auto simp: ad_active_def)
  have fin: "finite (ad_active a)" using ad_end by (simp add: ad_inv_def)
  have "(\<Sum>q \<in> ad_active a - {p}. 10 - the (ad_used ?a' q)) = (\<Sum>q \<in> ad_active a - {p}. 10 - the (ad_used a q))"
    by (intro sum.cong) auto
  then have "ad_left ?a' \<le> ad_left a"
    unfolding ad_left_def act(1) using sum.remove [OF fin act(2), of "\<lambda>q. 10 - the (ad_used a q)"] by simp
  moreover have "card (ad_active a) = Suc (card (ad_active a - {p}))"
    using card.remove [OF fin act(2)] by simp
  moreover have "card (ad_active a - {p}) = 0 \<longleftrightarrow> ad_active a - {p} = {}" using fin by simp
  ultimately show ?case
    using ad_end(3) act(1) fin unfolding ad_inv_def
    by (simp add: end_op_enter_n [OF ad_end(2)])
next
  case (ad_commit a)
  then show ?case by (simp add: ad_inv_def ad_active_def ad_left_def)
qed

lemma ad_reachable_inv: "ad_reachable nlog a \<Longrightarrow> ad_inv nlog a"
proof (induction rule: ad_reachable.induct)
  case ad_start
  then show ?case by (simp add: ad_inv_def ad_active_def ad_left_def zero_log_def)
next
  case (ad_next a a')
  then show ?case by (blast intro: ad_step_inv)
qed

text \<open>Runs of the admission system, for concrete traces.\<close>

datatype ad_act = ABegin nat | AWrite nat u32

fun ad_do :: "ad_act \<Rightarrow> adm \<Rightarrow> adm option" where
  "ad_do (ABegin p) a =
     (case (ad_used a p, begin_op_pass (ad_log a)) of
        (None, Some l) \<Rightarrow> Some \<lparr>ad_log = l, ad_used = (ad_used a)(p := Some 0)\<rparr>
      | _ \<Rightarrow> None)"
| "ad_do (AWrite p b) a =
     (case (ad_used a p, log_add (ad_log a) b) of
        (Some u, Inr l) \<Rightarrow>
          if u < 10 then Some \<lparr>ad_log = l, ad_used = (ad_used a)(p := Some (u + nat (lh_n l - lh_n (ad_log a))))\<rparr>
          else None
      | _ \<Rightarrow> None)"

fun ad_run :: "ad_act list \<Rightarrow> adm \<Rightarrow> adm option" where
  "ad_run [] a = Some a"
| "ad_run (x # xs) a = (case ad_do x a of None \<Rightarrow> None | Some a \<Rightarrow> ad_run xs a)"

lemma ad_do_step: "ad_do x a = Some a' \<Longrightarrow> ad_step a a'"
  by (cases x) (auto intro: ad_step.intros split: option.splits sum.splits if_splits)

lemma ad_run_reachable: "ad_run xs a = Some a' \<Longrightarrow> ad_reachable nlog a \<Longrightarrow> ad_reachable nlog a'"
  by (induction xs arbitrary: a) (auto split: option.splits dest: ad_do_step intro: ad_next)

definition ad_trace :: "ad_act list" where
  "ad_trace = map ABegin [0, 1, 2] @ map (\<lambda>i. AWrite (i div 10) (of_nat (100 + i))) [0..<29]"

lemma ad_trace_run:
  "case ad_run ad_trace \<lparr>ad_log = zero_log\<lparr>log_size := 30\<rparr>, ad_used = (\<lambda>p. None)\<rparr> of
     None \<Rightarrow> False | Some a \<Rightarrow> ad_used a 2 = Some 9 \<and> lh_n (ad_log a) = 29 \<and> log_size (ad_log a) = 30"
  by code_simp

text \<open>
  C19. With at least 31 log blocks (the header and \<open>LOGSIZE\<close> data blocks) admission is enough:
  in every reachable interleaving of \<open>begin_op\<close>, \<open>log_write\<close>, \<open>end_op\<close> and commits, an
  operation that has added fewer than \<open>MAXOPBLOCKS\<close> blocks can add another one without the
  panic of \<open>log_write\<close>, and the log array is never overrun.
\<close>

theorem log_admission:
  assumes "ad_reachable nlog a" and "31 \<le> nlog" and "ad_used a p = Some u" and "u < 10"
  shows "\<exists>l. log_add (ad_log a) b = ok l \<and> lh_n l \<le> int LOGSIZE"
proof -
  have inv: "ad_inv nlog a" using ad_reachable_inv assms(1) by simp
  have p: "p \<in> ad_active a" "finite (ad_active a)" using assms(3) inv by (auto simp: ad_active_def ad_inv_def)
  have "1 \<le> 10 - the (ad_used a p)" using assms(3,4) by simp
  also have "\<dots> \<le> ad_left a" unfolding ad_left_def using p by (intro member_le_sum) auto
  finally have "lh_n (ad_log a) < 30" using inv by (simp add: ad_inv_def)
  moreover have "1 \<le> outstanding (ad_log a)"
    using p inv by (simp add: ad_inv_def card_gt_0_iff Suc_le_eq) (metis card_gt_0_iff empty_iff)
  ultimately have "\<exists>l. log_add (ad_log a) b = ok l"
    using assms(2) inv p(1) by (auto simp: log_add_def ad_inv_def LOGSIZE_def Let_def)
  with \<open>lh_n (ad_log a) < 30\<close> show ?thesis using log_add_n(1) by (fastforce simp: LOGSIZE_def)
qed

theorem log_admission_witness:
  "\<exists>l. log_add (zero_log\<lparr>log_size := 31, outstanding := 1\<rparr>) 100 = ok l \<and> lh_n l \<le> int LOGSIZE"
proof -
  let ?a = "\<lparr>ad_log = zero_log\<lparr>log_size := 31\<rparr>, ad_used = (\<lambda>p. None)\<rparr>"
  let ?a' = "\<lparr>ad_log = zero_log\<lparr>log_size := 31, outstanding := 1\<rparr>, ad_used = (\<lambda>p. None)(0 := Some 0)\<rparr>"
  have "ad_run [ABegin 0] ?a = Some ?a'"
    by (simp add: begin_op_pass_def zero_log_def MAXOPBLOCKS_def LOGSIZE_def)
  then have "ad_reachable 31 ?a'" using ad_run_reachable ad_start by blast
  from log_admission [OF this, of 0 0 100] show ?thesis by simp
qed

text \<open>
  C40. With the 30 log blocks \<open>mkfs\<close> lays out (\<open>nlog = LOGSIZE\<close>) admission is not enough:
  three operations \<open>begin_op\<close> admits together, none past its \<open>MAXOPBLOCKS\<close> blocks, reach a
  state in which the next \<open>log_write\<close> of one of them panics.
\<close>

theorem log_admission_gap:
  "\<exists>a p u. ad_reachable (int LOGSIZE) a \<and> ad_used a p = Some u \<and> u < 10 \<and>
     log_add (ad_log a) b = panic ''too big a transaction''"
proof -
  obtain a where a: "ad_run ad_trace \<lparr>ad_log = zero_log\<lparr>log_size := 30\<rparr>, ad_used = (\<lambda>p. None)\<rparr> = Some a"
    "ad_used a 2 = Some 9" "lh_n (ad_log a) = 29" "log_size (ad_log a) = 30"
    using ad_trace_run by (auto split: option.splits)
  have "ad_reachable 30 a" using ad_run_reachable [OF a(1)] ad_start by blast
  then show ?thesis using a by (intro exI [of _ a] exI [of _ 2] exI [of _ 9]) (simp add: log_add_def LOGSIZE_def)
qed

end
