(* ===== verification/Fs.thy ===== *)
theory Fs
  imports Log
begin

text \<open>
  Blocks, inodes, directories and paths (\<^verbatim>\<open>fs.c\<close>, \<^verbatim>\<open>fs.h\<close>). The functions run on a logical
  disk: \<open>fs_bread\<close>, \<open>fs_log_write\<close> and \<open>fs_brelse\<close> are what \<open>bread\<close>, \<open>log_write\<close> and
  \<open>brelse\<close> do to the contents of the blocks as the cache presents them, to the set of
  buffers this process holds and to the log header; \<open>fs_bread_refines\<close>,
  \<open>fs_log_write_refines\<close> and \<open>fs_brelse_refines\<close> show that the cache and the log of
  \<open>Bio\<close> and \<open>Log\<close> implement them. A pointer to an inode is its index in
  \<open>icache.inode\<close>; a null pointer is \<open>None\<close>. The calls are those of one process: waiting for
  a sleep lock that is taken is the outcome \<open>Hang\<close>.
\<close>

section \<open>State\<close>

type_synonym short = ushort

definition NINODE :: nat where
  "NINODE = 50"

definition NDEV :: int where
  "NDEV = 10"

definition NDIRECT :: nat where
  "NDIRECT = 12"

definition NINDIRECT :: nat where
  "NINDIRECT = 128"

definition MAXFILE :: nat where
  "MAXFILE = NDIRECT + NINDIRECT"

definition IPB :: nat where
  "IPB = 8"

definition BPB :: nat where
  "BPB = BSIZE * 8"

definition DIRSIZ :: nat where
  "DIRSIZ = 14"

abbreviation (input) T_DIR :: short where "T_DIR \<equiv> 1"
abbreviation (input) T_FILE :: short where "T_FILE \<equiv> 2"
abbreviation (input) T_DEV :: short where "T_DEV \<equiv> 3"
abbreviation (input) ROOTDEV :: u32 where "ROOTDEV \<equiv> 1"
abbreviation (input) ROOTINO :: u32 where "ROOTINO \<equiv> 1"

record dinode =
  d_type :: short
  d_major :: short
  d_minor :: short
  d_nlink :: short
  d_size :: u32
  d_addrs :: "u32 list"

text \<open>The fields of the disk inode that \<open>struct inode\<close> copies are its field \<open>i_d\<close>.\<close>

record inode =
  i_dev :: u32
  i_inum :: u32
  i_ref :: int
  i_lock :: sleeplock
  i_valid :: bool
  i_d :: dinode

record fstate =
  f_disk :: "u32 \<Rightarrow> block"
  f_dsz :: u32
  f_held :: "u32 list"
  f_log :: log
  f_sb :: superblock
  icache :: "nat \<Rightarrow> inode"
  f_pid :: int
  f_cwd :: nat

section \<open>The logical disk\<close>

definition logged_blks :: "log \<Rightarrow> u32 set" where
  "logged_blks l = set (take (nat (lh_n l)) (lh_block l))"

definition fs_bread :: "'a fstate_scheme \<Rightarrow> u32 \<Rightarrow> u32 \<Rightarrow> ('a fstate_scheme \<times> block) outcome" where
  "fs_bread s dev b =
     (if b \<in> set (f_held s) then Inl Hang
      else if b \<notin> logged_blks (f_log s) \<and> card (logged_blks (f_log s) \<union> set (f_held s)) \<ge> NBUF
      then panic ''bget: no buffers''
      else if dev \<noteq> 1 then panic ''iderw: request not for disk 1''
      else if b \<ge> f_dsz s then panic ''iderw: block out of range''
      else ok (s\<lparr>f_held := b # f_held s\<rparr>, f_disk s b))"

definition fs_log_write :: "'a fstate_scheme \<Rightarrow> u32 \<Rightarrow> block \<Rightarrow> 'a fstate_scheme outcome" where
  "fs_log_write s b d =
     bnd (log_add (f_log s) b) (\<lambda>l. ok (s\<lparr>f_log := l, f_disk := (f_disk s)(b := d)\<rparr>))"

definition fs_brelse :: "'a fstate_scheme \<Rightarrow> u32 \<Rightarrow> 'a fstate_scheme outcome" where
  "fs_brelse s b =
     (if b \<notin> set (f_held s) then panic ''brelse''
      else ok (s\<lparr>f_held := remove1 b (f_held s)\<rparr>))"

definition fs_readsb :: "'a fstate_scheme \<Rightarrow> u32 \<Rightarrow> ('a fstate_scheme \<times> superblock) outcome" where
  "fs_readsb s dev =
     bnd (fs_bread s dev 1) (\<lambda>(s, d). bnd (fs_brelse s 1) (\<lambda>s. ok (s, sb_of_block d)))"

section \<open>Blocks\<close>

definition bzero :: "'a fstate_scheme \<Rightarrow> u32 \<Rightarrow> u32 \<Rightarrow> 'a fstate_scheme outcome" where
  "bzero s dev bno =
     bnd (fs_bread s dev bno) (\<lambda>(s, d).
     bnd (fs_log_write s bno (replicate BSIZE 0)) (\<lambda>s. fs_brelse s bno))"

definition BBLOCK :: "u32 \<Rightarrow> superblock \<Rightarrow> u32" where
  "BBLOCK b sb = of_nat (unat b div BPB) + sb_bmapstart sb"

definition bit_set :: "block \<Rightarrow> nat \<Rightarrow> bool" where
  "bit_set d bi \<longleftrightarrow> d ! (bi div 8) AND push_bit (bi mod 8) 1 \<noteq> 0"

definition mark_bit :: "block \<Rightarrow> nat \<Rightarrow> block" where
  "mark_bit d bi = d[bi div 8 := d ! (bi div 8) OR push_bit (bi mod 8) 1]"

definition clear_bit :: "block \<Rightarrow> nat \<Rightarrow> block" where
  "clear_bit d bi = d[bi div 8 := d ! (bi div 8) AND NOT (push_bit (bi mod 8) 1)]"

text \<open>The inner loop of \<open>balloc\<close>: the first clear bit from \<open>bi\<close> on.\<close>

function balloc_bit :: "block \<Rightarrow> nat \<Rightarrow> nat \<Rightarrow> nat \<Rightarrow> nat option" where
  "balloc_bit d b sz bi =
     (if bi < BPB \<and> b + bi < sz then (if \<not> bit_set d bi then Some bi else balloc_bit d b sz (bi + 1))
      else None)"
  by pat_completeness auto
termination by (relation "measure (\<lambda>(d, b, sz, bi). BPB - bi)") auto

lemma fs_bread_fields:
  assumes "fs_bread s dev b = ok (s', d)"
  shows "s' = s\<lparr>f_held := b # f_held s\<rparr>" "d = f_disk s b" "b \<notin> set (f_held s)" "b < f_dsz s" "dev = 1"
  using assms by (auto simp: fs_bread_def split: if_splits)

lemma fs_brelse_fields:
  assumes "fs_brelse s b = ok s'"
  shows "s' = s\<lparr>f_held := remove1 b (f_held s)\<rparr>" "b \<in> set (f_held s)"
  using assms by (auto simp: fs_brelse_def split: if_splits)

lemma BPB_pos: "0 < BPB"
  by (simp add: BPB_def BSIZE_def)

function balloc_loop :: "'a fstate_scheme \<Rightarrow> u32 \<Rightarrow> nat \<Rightarrow> ('a fstate_scheme \<times> u32) outcome" where
  "balloc_loop s dev b =
     (if b < unat (sb_size (f_sb s)) then
        bnd (fs_bread s dev (BBLOCK (of_nat b) (f_sb s))) (\<lambda>(s1, d).
          case balloc_bit d b (unat (sb_size (f_sb s))) 0 of
            Some bi \<Rightarrow>
              bnd (fs_log_write s1 (BBLOCK (of_nat b) (f_sb s)) (mark_bit d bi)) (\<lambda>s2.
              bnd (fs_brelse s2 (BBLOCK (of_nat b) (f_sb s))) (\<lambda>s3.
              bnd (bzero s3 dev (of_nat (b + bi))) (\<lambda>s4. ok (s4, of_nat (b + bi)))))
          | None \<Rightarrow>
              bnd (fs_brelse s1 (BBLOCK (of_nat b) (f_sb s))) (\<lambda>s2. balloc_loop s2 dev (b + BPB)))
      else panic ''balloc: out of blocks'')"
  by pat_completeness auto
termination
proof (relation "measure (\<lambda>(s, dev, b). unat (sb_size (f_sb s)) - b)", goal_cases)
  case (2 s dev b x s1 d s2)
  then have "f_sb s2 = f_sb s" using fs_bread_fields(1) fs_brelse_fields(1) by fastforce
  then show ?case using 2(1) BPB_pos by simp
qed simp

declare balloc_bit.simps [simp del] balloc_loop.simps [simp del]

definition balloc :: "'a fstate_scheme \<Rightarrow> u32 \<Rightarrow> ('a fstate_scheme \<times> u32) outcome" where
  "balloc s dev = balloc_loop s dev 0"

definition bfree :: "'a fstate_scheme \<Rightarrow> u32 \<Rightarrow> u32 \<Rightarrow> 'a fstate_scheme outcome" where
  "bfree s dev b =
     bnd (fs_readsb s dev) (\<lambda>(s, sb).
     let s = s\<lparr>f_sb := sb\<rparr>; bb = BBLOCK b sb; bi = unat b mod BPB in
     bnd (fs_bread s dev bb) (\<lambda>(s, d).
     if \<not> bit_set d bi then panic ''freeing free block''
     else bnd (fs_log_write s bb (clear_bit d bi)) (\<lambda>s. fs_brelse s bb)))"

section \<open>Inodes\<close>

definition IBLOCK :: "u32 \<Rightarrow> superblock \<Rightarrow> u32" where
  "IBLOCK i sb = of_nat (unat i div IPB) + sb_inodestart sb"

text \<open>The 64 bytes of a \<open>struct dinode\<close> at index \<open>k\<close> of a block of inodes.\<close>

definition get_dinode :: "block \<Rightarrow> nat \<Rightarrow> dinode" where
  "get_dinode d k = (let off = 64 * k in
     \<lparr>d_type = get16 d off, d_major = get16 d (off + 2), d_minor = get16 d (off + 4), d_nlink = get16 d (off + 6),
      d_size = get32 d (off + 8), d_addrs = map (\<lambda>i. get32 d (off + 12 + 4 * i)) [0..<NDIRECT + 1]\<rparr>)"

fun put_addrs :: "block \<Rightarrow> nat \<Rightarrow> u32 list \<Rightarrow> block" where
  "put_addrs d off [] = d"
| "put_addrs d off (a # as) = put_addrs (put32 d off a) (off + 4) as"

definition put_dinode :: "block \<Rightarrow> nat \<Rightarrow> dinode \<Rightarrow> block" where
  "put_dinode d k di = (let off = 64 * k in
     put_addrs (put32 (put16 (put16 (put16 (put16 d off (d_type di)) (off + 2) (d_major di)) (off + 4) (d_minor di))
       (off + 6) (d_nlink di)) (off + 8) (d_size di)) (off + 12) (d_addrs di))"

definition zero_dinode :: dinode where
  "zero_dinode = \<lparr>d_type = 0, d_major = 0, d_minor = 0, d_nlink = 0, d_size = 0,
     d_addrs = replicate (NDIRECT + 1) 0\<rparr>"

definition upd_inode :: "nat \<Rightarrow> (inode \<Rightarrow> inode) \<Rightarrow> 'a fstate_scheme \<Rightarrow> 'a fstate_scheme" where
  "upd_inode ip f s = s\<lparr>icache := (icache s)(ip := f (icache s ip))\<rparr>"

abbreviation upd_d :: "nat \<Rightarrow> (dinode \<Rightarrow> dinode) \<Rightarrow> 'a fstate_scheme \<Rightarrow> 'a fstate_scheme" where
  "upd_d ip f s \<equiv> upd_inode ip (\<lambda>i. i\<lparr>i_d := f (i_d i)\<rparr>) s"

definition iinit :: "'a fstate_scheme \<Rightarrow> u32 \<Rightarrow> 'a fstate_scheme outcome" where
  "iinit s dev =
     (let s = s\<lparr>icache := (\<lambda>i. if i < NINODE then (icache s i)\<lparr>i_lock := initsleeplock\<rparr> else icache s i)\<rparr> in
      bnd (fs_readsb s dev) (\<lambda>(s, sb). ok (s\<lparr>f_sb := sb\<rparr>)))"

text \<open>The scan of \<open>iget\<close>: the entry of the inode, or else the first empty slot.\<close>

fun iget_scan :: "(nat \<Rightarrow> inode) \<Rightarrow> u32 \<Rightarrow> u32 \<Rightarrow> nat option \<Rightarrow> nat list \<Rightarrow> nat + nat option" where
  "iget_scan ic dev inum slot [] = Inr slot"
| "iget_scan ic dev inum slot (ip # ips) =
     (if i_ref (ic ip) > 0 \<and> i_dev (ic ip) = dev \<and> i_inum (ic ip) = inum then Inl ip
      else iget_scan ic dev inum (if slot = None \<and> i_ref (ic ip) = 0 then Some ip else slot) ips)"

definition iget :: "'a fstate_scheme \<Rightarrow> u32 \<Rightarrow> u32 \<Rightarrow> ('a fstate_scheme \<times> nat) outcome" where
  "iget s dev inum =
     (case iget_scan (icache s) dev inum None [0..<NINODE] of
        Inl ip \<Rightarrow> ok (upd_inode ip (\<lambda>i. i\<lparr>i_ref := i_ref i + 1\<rparr>) s, ip)
      | Inr None \<Rightarrow> panic ''iget: no inodes''
      | Inr (Some ip) \<Rightarrow>
          ok (upd_inode ip (\<lambda>i. i\<lparr>i_dev := dev, i_inum := inum, i_ref := 1, i_valid := False\<rparr>) s, ip))"

function ialloc_loop :: "'a fstate_scheme \<Rightarrow> u32 \<Rightarrow> short \<Rightarrow> nat \<Rightarrow> ('a fstate_scheme \<times> nat) outcome" where
  "ialloc_loop s dev type inum =
     (if inum < unat (sb_ninodes (f_sb s)) then
        bnd (fs_bread s dev (IBLOCK (of_nat inum) (f_sb s))) (\<lambda>(s1, d).
          if d_type (get_dinode d (inum mod IPB)) = 0 then
            bnd (fs_log_write s1 (IBLOCK (of_nat inum) (f_sb s))
                  (put_dinode d (inum mod IPB) (zero_dinode\<lparr>d_type := type\<rparr>))) (\<lambda>s2.
            bnd (fs_brelse s2 (IBLOCK (of_nat inum) (f_sb s))) (\<lambda>s3. iget s3 dev (of_nat inum)))
          else bnd (fs_brelse s1 (IBLOCK (of_nat inum) (f_sb s))) (\<lambda>s2. ialloc_loop s2 dev type (inum + 1)))
      else panic ''ialloc: no inodes'')"
  by pat_completeness auto
termination
proof (relation "measure (\<lambda>(s, dev, type, inum). unat (sb_ninodes (f_sb s)) - inum)", goal_cases)
  case (2 s dev type inum x s1 d s2)
  then have "f_sb s2 = f_sb s" using fs_bread_fields(1) fs_brelse_fields(1) by fastforce
  then show ?case using 2(1) by simp
qed simp

declare ialloc_loop.simps [simp del]

definition ialloc :: "'a fstate_scheme \<Rightarrow> u32 \<Rightarrow> short \<Rightarrow> ('a fstate_scheme \<times> nat) outcome" where
  "ialloc s dev type = ialloc_loop s dev type 1"

definition iupdate :: "'a fstate_scheme \<Rightarrow> nat \<Rightarrow> 'a fstate_scheme outcome" where
  "iupdate s ip =
     (let i = icache s ip; ib = IBLOCK (i_inum i) (f_sb s) in
      bnd (fs_bread s (i_dev i) ib) (\<lambda>(s, d).
      bnd (fs_log_write s ib (put_dinode d (unat (i_inum i) mod IPB) (i_d i))) (\<lambda>s. fs_brelse s ib)))"

definition idup :: "'a fstate_scheme \<Rightarrow> nat \<Rightarrow> 'a fstate_scheme" where
  "idup s ip = upd_inode ip (\<lambda>i. i\<lparr>i_ref := i_ref i + 1\<rparr>) s"

definition ilock_sleep :: "'a fstate_scheme \<Rightarrow> nat \<Rightarrow> 'a fstate_scheme outcome" where
  "ilock_sleep s ip =
     bnd (acquiresleep (f_pid s) (i_lock (icache s ip))) (\<lambda>lk. ok (upd_inode ip (\<lambda>i. i\<lparr>i_lock := lk\<rparr>) s))"

definition irelease :: "'a fstate_scheme \<Rightarrow> nat \<Rightarrow> 'a fstate_scheme" where
  "irelease s ip = upd_inode ip (\<lambda>i. i\<lparr>i_lock := releasesleep (i_lock i)\<rparr>) s"

definition ilock :: "'a fstate_scheme \<Rightarrow> nat \<Rightarrow> 'a fstate_scheme outcome" where
  "ilock s ip =
     (if i_ref (icache s ip) < 1 then panic ''ilock''
      else bnd (ilock_sleep s ip) (\<lambda>s.
        if i_valid (icache s ip) then ok s
        else let i = icache s ip; ib = IBLOCK (i_inum i) (f_sb s) in
          bnd (fs_bread s (i_dev i) ib) (\<lambda>(s, d).
          let di = get_dinode d (unat (i_inum i) mod IPB) in
          bnd (fs_brelse (upd_inode ip (\<lambda>i. i\<lparr>i_d := di\<rparr>) s) ib) (\<lambda>s.
          let s = upd_inode ip (\<lambda>i. i\<lparr>i_valid := True\<rparr>) s in
          if d_type di = 0 then panic ''ilock: no type'' else ok s))))"

definition iunlock :: "'a fstate_scheme \<Rightarrow> nat \<Rightarrow> 'a fstate_scheme outcome" where
  "iunlock s ip =
     (if \<not> holdingsleep (i_lock (icache s ip)) \<or> i_ref (icache s ip) < 1 then panic ''iunlock''
      else ok (irelease s ip))"

section \<open>Inode content\<close>

text \<open>The entry \<open>bn\<close> of the indirect block \<open>ind\<close>, allocated when it is zero.\<close>

definition bmap_indirect :: "'a fstate_scheme \<Rightarrow> u32 \<Rightarrow> u32 \<Rightarrow> nat \<Rightarrow> ('a fstate_scheme \<times> u32) outcome" where
  "bmap_indirect s dev ind bn =
     bnd (fs_bread s dev ind) (\<lambda>(s, a).
     if get32 a (4 * bn) = 0 then
       bnd (balloc s dev) (\<lambda>(s, addr).
       bnd (fs_log_write s ind (put32 a (4 * bn) addr)) (\<lambda>s.
       bnd (fs_brelse s ind) (\<lambda>s. ok (s, addr))))
     else bnd (fs_brelse s ind) (\<lambda>s. ok (s, get32 a (4 * bn))))"

definition bmap :: "'a fstate_scheme \<Rightarrow> nat \<Rightarrow> nat \<Rightarrow> ('a fstate_scheme \<times> u32) outcome" where
  "bmap s ip bn =
     (let dev = i_dev (icache s ip) in
      if bn < NDIRECT then
        let addr = d_addrs (i_d (icache s ip)) ! bn in
        if addr = 0 then
          bnd (balloc s dev) (\<lambda>(s, addr).
          ok (upd_d ip (\<lambda>d. d\<lparr>d_addrs := (d_addrs d)[bn := addr]\<rparr>) s, addr))
        else ok (s, addr)
      else let bn = bn - NDIRECT in
      if bn < NINDIRECT then
        let addr = d_addrs (i_d (icache s ip)) ! NDIRECT in
        if addr = 0 then
          bnd (balloc s dev) (\<lambda>(s, addr).
          bmap_indirect (upd_d ip (\<lambda>d. d\<lparr>d_addrs := (d_addrs d)[NDIRECT := addr]\<rparr>) s) dev addr bn)
        else bmap_indirect s dev addr bn
      else panic ''bmap: out of range'')"

fun itrunc_direct :: "'a fstate_scheme \<Rightarrow> nat \<Rightarrow> nat list \<Rightarrow> 'a fstate_scheme outcome" where
  "itrunc_direct s ip [] = ok s"
| "itrunc_direct s ip (i # is) =
     (let addr = d_addrs (i_d (icache s ip)) ! i in
      if addr \<noteq> 0 then
        bnd (bfree s (i_dev (icache s ip)) addr) (\<lambda>s.
        itrunc_direct (upd_d ip (\<lambda>d. d\<lparr>d_addrs := (d_addrs d)[i := 0]\<rparr>) s) ip is)
      else itrunc_direct s ip is)"

fun itrunc_indirect :: "'a fstate_scheme \<Rightarrow> u32 \<Rightarrow> block \<Rightarrow> nat list \<Rightarrow> 'a fstate_scheme outcome" where
  "itrunc_indirect s dev a [] = ok s"
| "itrunc_indirect s dev a (j # js) =
     (if get32 a (4 * j) \<noteq> 0 then bnd (bfree s dev (get32 a (4 * j))) (\<lambda>s. itrunc_indirect s dev a js)
      else itrunc_indirect s dev a js)"

definition itrunc :: "'a fstate_scheme \<Rightarrow> nat \<Rightarrow> 'a fstate_scheme outcome" where
  "itrunc s ip =
     bnd (itrunc_direct s ip [0..<NDIRECT]) (\<lambda>s.
     let dev = i_dev (icache s ip); addr = d_addrs (i_d (icache s ip)) ! NDIRECT in
     bnd (if addr \<noteq> 0 then
            bnd (fs_bread s dev addr) (\<lambda>(s, a).
            bnd (itrunc_indirect s dev a [0..<NINDIRECT]) (\<lambda>s.
            bnd (fs_brelse s addr) (\<lambda>s.
            bnd (bfree s dev addr) (\<lambda>s.
            ok (upd_d ip (\<lambda>d. d\<lparr>d_addrs := (d_addrs d)[NDIRECT := 0]\<rparr>) s)))))
          else ok s) (\<lambda>s.
     iupdate (upd_d ip (\<lambda>d. d\<lparr>d_size := 0\<rparr>) s) ip))"

definition iput :: "'a fstate_scheme \<Rightarrow> nat \<Rightarrow> 'a fstate_scheme outcome" where
  "iput s ip =
     bnd (ilock_sleep s ip) (\<lambda>s.
     bnd (if i_valid (icache s ip) \<and> d_nlink (i_d (icache s ip)) = 0 \<and> i_ref (icache s ip) = 1 then
            bnd (itrunc s ip) (\<lambda>s.
            bnd (iupdate (upd_d ip (\<lambda>d. d\<lparr>d_type := 0\<rparr>) s) ip) (\<lambda>s.
            ok (upd_inode ip (\<lambda>i. i\<lparr>i_valid := False\<rparr>) s)))
          else ok s) (\<lambda>s.
     ok (upd_inode ip (\<lambda>i. i\<lparr>i_ref := i_ref i - 1\<rparr>) (irelease s ip))))"

definition iunlockput :: "'a fstate_scheme \<Rightarrow> nat \<Rightarrow> 'a fstate_scheme outcome" where
  "iunlockput s ip = bnd (iunlock s ip) (\<lambda>s. iput s ip)"

record stat =
  st_type :: short
  st_dev :: u32
  st_ino :: u32
  st_nlink :: short
  st_size :: u32

definition stati :: "'a fstate_scheme \<Rightarrow> nat \<Rightarrow> stat" where
  "stati s ip = (let i = icache s ip in
     \<lparr>st_type = d_type (i_d i), st_dev = i_dev i, st_ino = i_inum i, st_nlink = d_nlink (i_d i),
      st_size = d_size (i_d i)\<rparr>)"

text \<open>
  \<open>devsw\<close>: the read and write functions of a major device number, either of which may be
  missing. What a device does to its own state is not part of this state: a read function
  gives the value it returns and the bytes it copies to the caller, a write function is
  given the bytes it may fetch. The console's functions (\<open>Console\<close>) release and retake the
  lock of the inode, which leaves it as it was.
\<close>

record devsw =
  dev_read :: "(u32 \<Rightarrow> (int \<times> uchar list) outcome) option"
  dev_write :: "((nat \<Rightarrow> uchar) \<Rightarrow> u32 \<Rightarrow> int outcome) option"

type_synonym devtab = "short \<Rightarrow> devsw"

text \<open>
  The loop of \<open>readi\<close>. The sum of offset and count has been checked against wrapping before
  the loop, so they are natural numbers here. The bytes are those copied to \<open>dst\<close>.
\<close>

function readi_loop :: "'a fstate_scheme \<Rightarrow> nat \<Rightarrow> nat \<Rightarrow> nat \<Rightarrow> ('a fstate_scheme \<times> uchar list) outcome" where
  "readi_loop s ip off n =
     (if n = 0 then ok (s, [])
      else bnd (bmap s ip (off div BSIZE)) (\<lambda>(s, addr).
        bnd (fs_bread s (i_dev (icache s ip)) addr) (\<lambda>(s, d).
        let m = min n (BSIZE - off mod BSIZE) in
        bnd (fs_brelse s addr) (\<lambda>s.
        bnd (readi_loop s ip (off + m) (n - m)) (\<lambda>(s, bs).
        ok (s, take m (drop (off mod BSIZE) d) @ bs))))))"
  by pat_completeness auto
termination
  by (relation "measure (\<lambda>(s, ip, off, n). n)") (auto simp: BSIZE_def)

definition readi ::
  "devtab \<Rightarrow> 'a fstate_scheme \<Rightarrow> nat \<Rightarrow> u32 \<Rightarrow> u32 \<Rightarrow>
     ('a fstate_scheme \<times> int \<times> uchar list) outcome" where
  "readi devsw s ip off n =
     (let d = i_d (icache s ip) in
      if d_type d = T_DEV then
        if sint (d_major d) < 0 \<or> sint (d_major d) \<ge> NDEV then ok (s, -1, [])
        else case dev_read (devsw (d_major d)) of None \<Rightarrow> ok (s, -1, []) | Some rd \<Rightarrow> bnd (rd n) (\<lambda>(r, bs). ok (s, r, bs))
      else if off > d_size d \<or> off + n < off then ok (s, -1, [])
      else let n = (if off + n > d_size d then d_size d - off else n) in
        bnd (readi_loop s ip (unat off) (unat n)) (\<lambda>(s, bs). ok (s, sint n, bs)))"

text \<open>\<open>memmove\<close> of some bytes into the middle of a block.\<close>

definition blit :: "block \<Rightarrow> nat \<Rightarrow> uchar list \<Rightarrow> block" where
  "blit d k bs = take k d @ bs @ drop (k + length bs) d"

function writei_loop :: "'a fstate_scheme \<Rightarrow> nat \<Rightarrow> (nat \<Rightarrow> uchar) \<Rightarrow> nat \<Rightarrow> nat \<Rightarrow> nat \<Rightarrow> 'a fstate_scheme outcome" where
  "writei_loop s ip src tot off n =
     (if tot < n then
        bnd (bmap s ip (off div BSIZE)) (\<lambda>(s, addr).
        bnd (fs_bread s (i_dev (icache s ip)) addr) (\<lambda>(s, d).
        let m = min (n - tot) (BSIZE - off mod BSIZE) in
        bnd (fs_log_write s addr (blit d (off mod BSIZE) (map src [tot..<tot + m]))) (\<lambda>s.
        bnd (fs_brelse s addr) (\<lambda>s. writei_loop s ip src (tot + m) (off + m) n))))
      else ok s)"
  by pat_completeness auto
termination
  by (relation "measure (\<lambda>(s, ip, src, tot, off, n). n - tot)") (auto simp: BSIZE_def)

declare readi_loop.simps [simp del] writei_loop.simps [simp del]

definition writei ::
  "devtab \<Rightarrow> 'a fstate_scheme \<Rightarrow> nat \<Rightarrow> (nat \<Rightarrow> uchar) \<Rightarrow> u32 \<Rightarrow> u32 \<Rightarrow>
     ('a fstate_scheme \<times> int) outcome" where
  "writei devsw s ip src off n =
     (let d = i_d (icache s ip) in
      if d_type d = T_DEV then
        if sint (d_major d) < 0 \<or> sint (d_major d) \<ge> NDEV then ok (s, -1)
        else case dev_write (devsw (d_major d)) of None \<Rightarrow> ok (s, -1) | Some wr \<Rightarrow> bnd (wr src n) (\<lambda>r. ok (s, r))
      else if off > d_size d \<or> off + n < off then ok (s, -1)
      else if off + n > of_nat (MAXFILE * BSIZE) then ok (s, -1)
      else bnd (writei_loop s ip src 0 (unat off) (unat n)) (\<lambda>s.
        if n > 0 \<and> off + n > d_size (i_d (icache s ip)) then
          bnd (iupdate (upd_d ip (\<lambda>d. d\<lparr>d_size := off + n\<rparr>) s) ip) (\<lambda>s. ok (s, sint n))
        else ok (s, sint n)))"

section \<open>Directories\<close>

text \<open>
  Names are byte lists that a NUL may end early. \<open>namecmp\<close> is \<open>strncmp\<close> over \<open>DIRSIZ\<close>
  bytes; a byte past the end of a list is the NUL that ends a C string.
\<close>

definition byte_at :: "uchar list \<Rightarrow> nat \<Rightarrow> uchar" where
  "byte_at s i = (if i < length s then s ! i else 0)"

function namecmp_from :: "uchar list \<Rightarrow> uchar list \<Rightarrow> nat \<Rightarrow> int" where
  "namecmp_from s t i =
     (if i \<ge> DIRSIZ then 0
      else if byte_at s i \<noteq> 0 \<and> byte_at s i = byte_at t i then namecmp_from s t (i + 1)
      else uint (byte_at s i) - uint (byte_at t i))"
  by pat_completeness auto
termination by (relation "measure (\<lambda>(s, t, i). DIRSIZ - i)") auto

declare namecmp_from.simps [simp del]

definition namecmp :: "uchar list \<Rightarrow> uchar list \<Rightarrow> int" where
  "namecmp s t = namecmp_from s t 0"

text \<open>A \<open>struct dirent\<close> is 16 bytes: the inode number and the name.\<close>

definition de_inum :: "uchar list \<Rightarrow> ushort" where
  "de_inum de = get16 de 0"

definition de_name :: "uchar list \<Rightarrow> uchar list" where
  "de_name de = take DIRSIZ (drop 2 de)"

text \<open>\<open>strncpy(de.name, name, DIRSIZ)\<close>: up to the NUL, padded with NULs.\<close>

definition name_field :: "uchar list \<Rightarrow> uchar list" where
  "name_field name = (let n = takeWhile (\<lambda>c. c \<noteq> 0) (take DIRSIZ name) in n @ replicate (DIRSIZ - length n) 0)"

definition mk_dirent :: "ushort \<Rightarrow> uchar list \<Rightarrow> uchar list" where
  "mk_dirent inum name = [ucast inum, ucast (drop_bit 8 inum)] @ name_field name"

text \<open>
  The loop of \<open>dirlookup\<close>: the offset and inode number of the first entry with the name.
  The offset stays below the size, which is at most \<open>MAXFILE * BSIZE\<close>, so it does not wrap;
  the bound \<open>off + 16\<close> of the loop is on natural numbers.
\<close>

function dirlookup_loop ::
  "devtab \<Rightarrow> 'a fstate_scheme \<Rightarrow> nat \<Rightarrow> uchar list \<Rightarrow> nat \<Rightarrow> nat \<Rightarrow>
     ('a fstate_scheme \<times> (nat \<times> ushort) option) outcome" where
  "dirlookup_loop devsw s dp name off sz =
     (if off < sz then
        bnd (readi devsw s dp (of_nat off) 16) (\<lambda>(s, r, de).
        if r \<noteq> 16 then panic ''dirlookup read''
        else if de_inum de = 0 then dirlookup_loop devsw s dp name (off + 16) sz
        else if namecmp name (de_name de) = 0 then ok (s, Some (off, de_inum de))
        else dirlookup_loop devsw s dp name (off + 16) sz)
      else ok (s, None))"
  by pat_completeness auto
termination by (relation "measure (\<lambda>(devsw, s, dp, name, off, sz). sz - off)") auto

definition dirlookup ::
  "devtab \<Rightarrow> 'a fstate_scheme \<Rightarrow> nat \<Rightarrow> uchar list \<Rightarrow>
     ('a fstate_scheme \<times> (nat \<times> nat) option) outcome" where
  "dirlookup devsw s dp name =
     (if d_type (i_d (icache s dp)) \<noteq> T_DIR then panic ''dirlookup not DIR''
      else bnd (dirlookup_loop devsw s dp name 0 (unat (d_size (i_d (icache s dp))))) (\<lambda>(s, r).
        case r of None \<Rightarrow> ok (s, None)
        | Some (off, inum) \<Rightarrow>
            bnd (iget s (i_dev (icache s dp)) (ucast inum)) (\<lambda>(s, ip). ok (s, Some (ip, off)))))"

function dirlink_loop ::
  "devtab \<Rightarrow> 'a fstate_scheme \<Rightarrow> nat \<Rightarrow> nat \<Rightarrow> nat \<Rightarrow> ('a fstate_scheme \<times> nat) outcome" where
  "dirlink_loop devsw s dp off sz =
     (if off < sz then
        bnd (readi devsw s dp (of_nat off) 16) (\<lambda>(s, r, de).
        if r \<noteq> 16 then panic ''dirlink read''
        else if de_inum de = 0 then ok (s, off)
        else dirlink_loop devsw s dp (off + 16) sz)
      else ok (s, off))"
  by pat_completeness auto
termination by (relation "measure (\<lambda>(devsw, s, dp, off, sz). sz - off)") auto

declare dirlookup_loop.simps [simp del] dirlink_loop.simps [simp del]

definition dirlink ::
  "devtab \<Rightarrow> 'a fstate_scheme \<Rightarrow> nat \<Rightarrow> uchar list \<Rightarrow> u32 \<Rightarrow> ('a fstate_scheme \<times> int) outcome" where
  "dirlink devsw s dp name inum =
     bnd (dirlookup devsw s dp name) (\<lambda>(s, r).
     case r of Some (ip, off) \<Rightarrow> bnd (iput s ip) (\<lambda>s. ok (s, -1))
     | None \<Rightarrow>
         bnd (dirlink_loop devsw s dp 0 (unat (d_size (i_d (icache s dp))))) (\<lambda>(s, off).
         bnd (writei devsw s dp (\<lambda>i. mk_dirent (ucast inum) name ! i) (of_nat off) 16) (\<lambda>(s, r).
         if r \<noteq> 16 then panic ''dirlink'' else ok (s, 0))))"

section \<open>Paths\<close>

text \<open>A path is the list of its bytes before the terminating NUL.\<close>

abbreviation (input) slash :: uchar where "slash \<equiv> 47"

definition skipelem :: "uchar list \<Rightarrow> uchar list \<Rightarrow> (uchar list \<times> uchar list) option" where
  "skipelem path name =
     (let s = dropWhile (\<lambda>c. c = slash) path in
      if s = [] then None
      else let elem = takeWhile (\<lambda>c. c \<noteq> slash) s; len = length elem;
               name = (if len \<ge> DIRSIZ then take DIRSIZ elem else elem @ 0 # drop (len + 1) name) in
        Some (dropWhile (\<lambda>c. c = slash) (dropWhile (\<lambda>c. c \<noteq> slash) s), name))"

lemma skipelem_shorter: "skipelem path name = Some (rest, name') \<Longrightarrow> length rest < length path"
proof (simp add: skipelem_def Let_def split: if_splits, goal_cases)
  case 1
  let ?s = "dropWhile (\<lambda>c. c = slash) path"
  have "hd ?s \<noteq> slash" using 1 hd_dropWhile [of "\<lambda>c. c = slash" path] by auto
  then have "length (dropWhile (\<lambda>c. c \<noteq> slash) ?s) < length ?s"
    using 1 by (cases ?s) (auto intro: le_imp_less_Suc length_dropWhile_le)
  with 1 show ?case by (metis (no_types, lifting) le_less_trans less_le_trans length_dropWhile_le)
next
  case 2
  let ?s = "dropWhile (\<lambda>c. c = slash) path"
  have "hd ?s \<noteq> slash" using 2 hd_dropWhile [of "\<lambda>c. c = slash" path] by auto
  then have "length (dropWhile (\<lambda>c. c \<noteq> slash) ?s) < length ?s"
    using 2 by (cases ?s) (auto intro: le_imp_less_Suc length_dropWhile_le)
  with 2 show ?case by (metis (no_types, lifting) le_less_trans less_le_trans length_dropWhile_le)
qed

text \<open>
  The loop of \<open>namex\<close> from the inode \<open>ip\<close>, with the contents of the buffer \<open>name\<close>. The
  result is the inode, if any, and the buffer.
\<close>

function namex_loop ::
  "devtab \<Rightarrow> 'a fstate_scheme \<Rightarrow> nat \<Rightarrow> uchar list \<Rightarrow> bool \<Rightarrow> uchar list \<Rightarrow>
     ('a fstate_scheme \<times> nat option \<times> uchar list) outcome" where
  "namex_loop devsw s ip path nameiparent name =
     (case skipelem path name of
        None \<Rightarrow>
          if nameiparent then bnd (iput s ip) (\<lambda>s. ok (s, None, name)) else ok (s, Some ip, name)
      | Some (path, name) \<Rightarrow>
          bnd (ilock s ip) (\<lambda>s.
          if d_type (i_d (icache s ip)) \<noteq> T_DIR then bnd (iunlockput s ip) (\<lambda>s. ok (s, None, name))
          else if nameiparent \<and> path = [] then bnd (iunlock s ip) (\<lambda>s. ok (s, Some ip, name))
          else bnd (dirlookup devsw s ip name) (\<lambda>(s, r).
            case r of None \<Rightarrow> bnd (iunlockput s ip) (\<lambda>s. ok (s, None, name))
            | Some (nxt, off) \<Rightarrow>
                bnd (iunlockput s ip) (\<lambda>s. namex_loop devsw s nxt path nameiparent name))))"
  by pat_completeness auto
termination
  by (relation "measure (\<lambda>(devsw, s, ip, path, np, name). length path)") (auto dest: skipelem_shorter)

declare namex_loop.simps [simp del]

definition namex ::
  "devtab \<Rightarrow> 'a fstate_scheme \<Rightarrow> uchar list \<Rightarrow> bool \<Rightarrow> uchar list \<Rightarrow>
     ('a fstate_scheme \<times> nat option \<times> uchar list) outcome" where
  "namex devsw s path nameiparent name =
     bnd (if path \<noteq> [] \<and> hd path = slash then iget s ROOTDEV ROOTINO else ok (idup s (f_cwd s), f_cwd s))
       (\<lambda>(s, ip). namex_loop devsw s ip path nameiparent name)"

definition namei ::
  "devtab \<Rightarrow> 'a fstate_scheme \<Rightarrow> uchar list \<Rightarrow> ('a fstate_scheme \<times> nat option) outcome" where
  "namei devsw s path =
     bnd (namex devsw s path False (replicate DIRSIZ 0)) (\<lambda>(s, ip, name). ok (s, ip))"

definition nameiparent ::
  "devtab \<Rightarrow> 'a fstate_scheme \<Rightarrow> uchar list \<Rightarrow> uchar list \<Rightarrow>
     ('a fstate_scheme \<times> nat option \<times> uchar list) outcome" where
  "nameiparent devsw s path name = namex devsw s path True name"

end
