(* ===== verification/Fs_Cache.thy ===== *)
theory Fs_Cache
  imports Fs
begin

text \<open>
  The logical disk that \<open>Fs\<close> runs on is implemented by the buffer cache and the log:
  \<open>abs_disk s f\<close> relates a state of \<open>Log\<close> to a state of \<open>Fs\<close>, and reading, logging and
  releasing a block keep the relation.
\<close>

definition log_shape :: "log \<Rightarrow> bool" where
  "log_shape l \<longleftrightarrow> 0 \<le> lh_n l \<and> lh_n l \<le> int LOGSIZE \<and> length (lh_block l) = LOGSIZE"

definition abs_disk :: "lstate \<Rightarrow> 'a fstate_scheme \<Rightarrow> bool" where
  "abs_disk s f \<longleftrightarrow> binv s \<and> view s = f_disk f \<and> held_blks s = set (f_held f) \<and> distinct (f_held f) \<and> lg s = f_log f \<and>
     dirty_blks s = logged_blks (f_log f) \<and> disksize s = f_dsz f \<and> log_shape (f_log f) \<and>
     (\<forall>b. b \<notin> dirty_blks s \<longrightarrow> view s b = mdisk s b)"

lemma abs_diskD:
  assumes "abs_disk s f"
  shows "binv s" "view s = f_disk f" "held_blks s = set (f_held f)" "distinct (f_held f)" "lg s = f_log f"
    "dirty_blks s = logged_blks (f_log f)" "disksize s = f_dsz f" "log_shape (f_log f)"
    "b \<notin> dirty_blks s \<Longrightarrow> view s b = mdisk s b"
  using assms unfolding abs_disk_def by blast+

lemma log_add_logged:
  assumes "log_shape l" and "log_add l b = ok l'"
  shows "logged_blks l' = insert b (logged_blks l)" "log_shape l'"
proof -
  let ?n = "nat (lh_n l)"
  let ?i = "absorb (lh_block l) ?n b 0"
  have n: "?n < length (lh_block l)" "0 \<le> lh_n l" "length (lh_block l) = LOGSIZE" "lh_n l < int LOGSIZE"
    using assms by (auto simp: log_shape_def log_add_def split: if_splits)
  have a: "?i \<le> ?n" "?i < ?n \<Longrightarrow> lh_block l ! ?i = b" using absorb_result [of 0 ?n "lh_block l" b] by auto
  have l': "l' = (let l1 = l\<lparr>lh_block := (lh_block l)[?i := b]\<rparr> in if ?i = ?n then l1\<lparr>lh_n := lh_n l1 + 1\<rparr> else l1)"
    using assms(2) by (auto simp: log_add_def Let_def split: if_splits)
  have "logged_blks l' = insert b (logged_blks l) \<and> log_shape l'"
  proof (cases "?i = ?n")
    case True
    have "take (Suc ?n) ((lh_block l)[?n := b]) = take ?n (lh_block l) @ [b]"
      using n(1) by (simp add: take_Suc_conv_app_nth)
    moreover have "nat (lh_n l + 1) = Suc ?n" using n(2) by simp
    ultimately show ?thesis using True n l' by (simp add: logged_blks_def log_shape_def)
  next
    case False
    then have lt: "?i < ?n" using a(1) by simp
    then have same: "(lh_block l)[?i := b] = lh_block l" using a(2) by (metis list_update_id)
    have "b \<in> set (take ?n (lh_block l))" 
      using lt a(2) n(1) nth_mem [of ?i "take ?n (lh_block l)"] by simp
    then show ?thesis using False l' same n by (auto simp: logged_blks_def log_shape_def insert_absorb)
  qed
  then show "logged_blks l' = insert b (logged_blks l)" "log_shape l'" by simp_all
qed

lemma fs_bread_refines:
  assumes "abs_disk s f" and "fs_bread f dev b = ok (f', d)"
  shows "\<exists>s' i. bread s dev b = ok (s', i) \<and> handle s' i b \<and> get_data s' i = d \<and> abs_disk s' f' \<and>
    (\<forall>j c. handle s j c \<longrightarrow> handle s' j c)"
proof -
  note a = abs_diskD [OF assms(1)]
  note f = fs_bread_fields [OF assms(2)]
  have "b \<in> dirty_blks s \<or> card (dirty_blks s \<union> held_blks s) < NBUF"
    using assms(2) a(3,6) by (auto simp: fs_bread_def not_le split: if_splits)
  then obtain s' i where s': "bread s 1 b = ok (s', i)" "binv s'" "handle s' i b" "view s' = view s" "dirty_blks s' = dirty_blks s"
    "held_blks s' = insert b (held_blks s)" "mdisk s' = mdisk s" "brest s' = brest s" "\<forall>j c. handle s j c \<longrightarrow> handle s' j c"
    using bc.read_ok [of s b] a f by auto
  have "get_data s' i = d" using bc.load_ok [OF s'(2,3)] s'(4) a(2) f(2) by simp
  moreover have "abs_disk s' f'"
    unfolding abs_disk_def using s' a f lg_rest [OF s'(8)] by auto
  ultimately show ?thesis using s' f(5) by auto
qed

lemma fs_log_write_refines:
  assumes "abs_disk s f" and "handle s i b" and "length d = BSIZE" and "fs_log_write f b d = ok f'"
  shows "\<exists>s'. log_write (set_data s i d) i = ok s' \<and> abs_disk s' f' \<and> handle s' = handle s"
proof -
  note a = abs_diskD [OF assms(1)]
  let ?s1 = "set_data s i d"
  have 1: "binv ?s1" "view ?s1 = (view s)(b := d)" "dirty_blks ?s1 = dirty_blks s" "held_blks ?s1 = held_blks s"
    "mdisk ?s1 = mdisk s" "brest ?s1 = brest s" "handle ?s1 = handle s"
    using bc.store_ok [OF a(1) assms(2,3)] by auto
  obtain l where l: "log_add (f_log f) b = ok l" "f' = f\<lparr>f_log := l, f_disk := (f_disk f)(b := d)\<rparr>"
    using assms(4) by (auto simp: fs_log_write_def bnd_eq_Inr)
  have lg1: "lg ?s1 = f_log f" "disksize ?s1 = disksize s" using lg_rest [OF 1(6)] a(5) by auto
  have bn: "b_blockno (bufs ?s1 i) = b" using assms(2) 1(7) by (metis handle_def holds_blk_def)
  let ?s2 = "set_dirty (?s1\<lparr>lg := l\<rparr>) i"
  have w: "log_write ?s1 i = ok ?s2" using l(1) bn lg1 by (simp add: log_write_def)
  have h: "binv (?s1\<lparr>lg := l\<rparr>)" "handle (?s1\<lparr>lg := l\<rparr>) i b" using 1(1,7) assms(2) by simp_all
  have 2: "binv ?s2" "view ?s2 = (view s)(b := d)" "dirty_blks ?s2 = insert b (dirty_blks s)" "held_blks ?s2 = held_blks s"
    "mdisk ?s2 = mdisk s" "brest ?s2 = brest (?s1\<lparr>lg := l\<rparr>)" "handle ?s2 = handle s"
    using bc.mark_ok [OF h] 1 by auto
  have "abs_disk ?s2 f'"
    unfolding abs_disk_def using 2 a l(2) log_add_logged [OF a(8) l(1)] lg_rest [OF 2(6)] lg1 by auto
  then show ?thesis using w 2(7) by blast
qed

lemma fs_brelse_refines:
  assumes "abs_disk s f" and "handle s i b" and "fs_brelse f b = ok f'"
  shows "\<exists>s'. brelse s i = ok s' \<and> abs_disk s' f' \<and> (\<forall>j c. c \<noteq> b \<longrightarrow> handle s j c \<longrightarrow> handle s' j c)"
proof -
  note a = abs_diskD [OF assms(1)]
  note f = fs_brelse_fields [OF assms(3)]
  obtain s' where s': "brelse s i = ok s'" "binv s'" "view s' = view s" "dirty_blks s' = dirty_blks s"
    "held_blks s' = held_blks s - {b}" "mdisk s' = mdisk s" "brest s' = brest s" "\<forall>j c. c \<noteq> b \<longrightarrow> handle s j c \<longrightarrow> handle s' j c"
    using bc.release_buf_ok [OF a(1) assms(2)] a(9) [of b] by blast
  have "abs_disk s' f'"
    unfolding abs_disk_def using s' a f lg_rest [OF s'(7)] by (auto simp: set_remove1_eq)
  then show ?thesis using s' by blast
qed

text \<open>
  C20. The cache and the log implement the logical disk of the file system: whenever the
  logical read, logged write or release of a block returns, so does \<open>bread\<close>, \<open>log_write\<close>
  or \<open>brelse\<close> in every related state, with the same data, and the states stay related.
\<close>

theorem fs_disk_refines:
  assumes "abs_disk s f"
  shows "(\<forall>dev b f' d. fs_bread f dev b = ok (f', d) \<longrightarrow>
      (\<exists>s' i. bread s dev b = ok (s', i) \<and> handle s' i b \<and> get_data s' i = d \<and> abs_disk s' f')) \<and>
    (\<forall>i b d f'. handle s i b \<and> length d = BSIZE \<and> fs_log_write f b d = ok f' \<longrightarrow>
      (\<exists>s'. log_write (set_data s i d) i = ok s' \<and> abs_disk s' f' \<and> handle s' i b)) \<and>
    (\<forall>i b f'. handle s i b \<and> fs_brelse f b = ok f' \<longrightarrow> (\<exists>s'. brelse s i = ok s' \<and> abs_disk s' f'))"
  using fs_bread_refines [OF assms] fs_log_write_refines [OF assms] fs_brelse_refines [OF assms] by metis

definition w_lf :: fstate where
  "w_lf = \<lparr>f_disk = view ws, f_dsz = 1000, f_held = [], f_log = wl, f_sb = sb_of_block (wd 1),
     icache = (\<lambda>i. \<lparr>i_dev = 0, i_inum = 0, i_ref = 0, i_lock = initsleeplock, i_valid = False, i_d = zero_dinode\<rparr>),
     f_pid = 0, f_cwd = 0\<rparr>"

lemma w_abs: "abs_disk ws w_lf"
proof -
  have q: "binv ws" "dirty_blks ws = {}" "held_blks ws = {}" "disksize ws = 1000" "lg ws = wl"
    using ws_idle by (simp_all add: idle_def quiet_def)
  moreover have "view ws b = mdisk ws b" for b using bc.clean [OF q(1), of b] q(2,3) by simp
  ultimately show ?thesis by (simp add: abs_disk_def w_lf_def logged_blks_def log_shape_def wl_def LOGSIZE_def)
qed

theorem fs_disk_refines_witness:
  "abs_disk ws w_lf \<and> (\<exists>s' i. bread ws 1 100 = ok (s', i) \<and> get_data s' i = f_disk w_lf 100)"
proof -
  have "fs_bread w_lf 1 100 = ok (w_lf\<lparr>f_held := [100]\<rparr>, f_disk w_lf 100)"
    by (simp add: fs_bread_def w_lf_def logged_blks_def wl_def NBUF_def)
  then show ?thesis using fs_disk_refines [OF w_abs] w_abs by blast
qed

end
