(* ===== verification/Fs_Refs.thy ===== *)
theory Fs_Refs
  imports Fs
begin

text \<open>
  What the functions of \<open>Fs\<close> do to the resources a process holds: buffers, inode locks and
  inode references. Every function is described by what it keeps on return, in the form of a
  rule of \<open>post_rules\<close>; the properties at the end are that path lookup and the directory
  operations balance their references and locks on every path through the code.
\<close>

section \<open>Frames\<close>

text \<open>What no function of \<open>fs.c\<close> changes.\<close>

definition env :: "'a fstate_scheme \<Rightarrow> u32 \<times> int \<times> nat \<times> int \<times> bool \<times> int \<times> 'a" where
  "env s = (f_dsz s, f_pid s, f_cwd s, outstanding (f_log s), committing (f_log s), log_size (f_log s), fstate.more s)"

definition irefs :: "'a fstate_scheme \<Rightarrow> nat \<Rightarrow> int" where
  "irefs s ip = i_ref (icache s ip)"

definition ilocks :: "'a fstate_scheme \<Rightarrow> nat \<Rightarrow> bool" where
  "ilocks s ip = sl_locked (i_lock (icache s ip))"

definition iids :: "'a fstate_scheme \<Rightarrow> nat \<Rightarrow> u32 \<times> u32" where
  "iids s ip = (i_dev (icache s ip), i_inum (icache s ip))"

text \<open>Block operations keep the inode cache, inode operations its bookkeeping.\<close>

definition blk_frame :: "'a fstate_scheme \<Rightarrow> 'a fstate_scheme \<Rightarrow> bool" where
  "blk_frame s s' \<longleftrightarrow> env s' = env s \<and> f_held s' = f_held s \<and> icache s' = icache s"

definition ino_frame :: "'a fstate_scheme \<Rightarrow> 'a fstate_scheme \<Rightarrow> bool" where
  "ino_frame s s' \<longleftrightarrow> env s' = env s \<and> f_held s' = f_held s \<and> irefs s' = irefs s \<and> ilocks s' = ilocks s \<and>
     iids s' = iids s \<and> (\<forall>ip. i_valid (icache s' ip) = i_valid (icache s ip))"

lemma blk_frame_refl [simp]: "blk_frame s s"
  by (simp add: blk_frame_def)

lemma blk_frame_trans: "blk_frame s s' \<Longrightarrow> blk_frame s' s'' \<Longrightarrow> blk_frame s s''"
  by (simp add: blk_frame_def)

lemma blk_frame_ino: "blk_frame s s' \<Longrightarrow> ino_frame s s'"
  by (simp add: blk_frame_def ino_frame_def irefs_def [abs_def] ilocks_def [abs_def] iids_def [abs_def])

lemma ino_frame_refl [simp]: "ino_frame s s"
  by (simp add: ino_frame_def)

lemma ino_frame_trans: "ino_frame s s' \<Longrightarrow> ino_frame s' s'' \<Longrightarrow> ino_frame s s''"
  by (simp add: ino_frame_def)

lemma env_upd_inode [simp]: "env (upd_inode ip f s) = env s"
  by (simp add: env_def upd_inode_def)

lemma held_upd_inode [simp]: "f_held (upd_inode ip f s) = f_held s"
  by (simp add: upd_inode_def)

lemma icache_upd_inode [simp]: "icache (upd_inode ip f s) = (icache s)(ip := f (icache s ip))"
  by (simp add: upd_inode_def)

lemma disk_upd_inode [simp]:
  "f_disk (upd_inode ip f s) = f_disk s" "f_sb (upd_inode ip f s) = f_sb s" "f_log (upd_inode ip f s) = f_log s"
  "f_dsz (upd_inode ip f s) = f_dsz s" "fstate.more (upd_inode ip f s) = fstate.more s" "f_cwd (upd_inode ip f s) = f_cwd s" "f_pid (upd_inode ip f s) = f_pid s"
  by (simp_all add: upd_inode_def)

lemma ino_frame_upd_d [simp]: "ino_frame s (upd_d ip f s)"
  by (simp add: ino_frame_def irefs_def ilocks_def iids_def fun_eq_iff)

section \<open>Blocks\<close>

lemma fs_bread_post [post_rules]:
  assumes "P (s\<lparr>f_held := b # f_held s\<rparr>, f_disk s b)"
  shows "post (fs_bread s dev b) P"
  using assms by (simp add: fs_bread_def)

lemma fs_brelse_post [post_rules]:
  assumes "P (s\<lparr>f_held := remove1 b (f_held s)\<rparr>)"
  shows "post (fs_brelse s b) P"
  using assms by (simp add: fs_brelse_def)

lemma fs_log_write_post [post_rules]:
  assumes "\<And>l. outstanding l = outstanding (f_log s) \<Longrightarrow> committing l = committing (f_log s) \<Longrightarrow>
    log_size l = log_size (f_log s) \<Longrightarrow> P (s\<lparr>f_log := l, f_disk := (f_disk s)(b := d)\<rparr>)"
  shows "post (fs_log_write s b d) P"
  unfolding fs_log_write_def post_simps
  by (rule postI) (use assms log_add_n(2-4) in simp)

lemma fs_readsb_post [post_rules]:
  assumes "P (s, sb_of_block (f_disk s 1))"
  shows "post (fs_readsb s dev) P"
  unfolding fs_readsb_def using assms by (auto intro!: post_rules)

lemma bzero_post [post_rules]:
  assumes "\<And>s'. blk_frame s s' \<Longrightarrow> f_sb s' = f_sb s \<Longrightarrow> f_disk s' = (f_disk s)(b := replicate BSIZE 0) \<Longrightarrow> P s'"
  shows "post (bzero s dev b) P"
  unfolding bzero_def by (auto intro!: post_rules assms simp: blk_frame_def env_def)

lemma balloc_loop_frame:
  "post (balloc_loop s dev b) (\<lambda>(s', a). blk_frame s s' \<and> f_sb s' = f_sb s)"
proof (induction "unat (sb_size (f_sb s)) - b" arbitrary: s b rule: less_induct)
  case less
  let ?bb = "BBLOCK (word_of_nat b) (f_sb s)"
  have rest: "post (balloc_loop s' dev (b + BPB)) (\<lambda>(s', a). blk_frame s s' \<and> f_sb s' = f_sb s)"
    if "b < unat (sb_size (f_sb s))" "blk_frame s s'" "f_sb s' = f_sb s" for s'
    using that BPB_pos by (intro post_mono [OF less]) (auto elim: blk_frame_trans)
  show ?case
    apply (subst balloc_loop.simps)
    apply (auto intro!: post_rules rest)
    apply (simp_all add: blk_frame_def env_def)
    done
qed

lemma balloc_post [post_rules]:
  assumes "\<And>s' a. blk_frame s s' \<Longrightarrow> f_sb s' = f_sb s \<Longrightarrow> P (s', a)"
  shows "post (balloc s dev) P"
  unfolding balloc_def by (rule post_mono [OF balloc_loop_frame]) (use assms in auto)

lemma bfree_post [post_rules]:
  assumes "\<And>s'. blk_frame s s' \<Longrightarrow> P s'"
  shows "post (bfree s dev b) P"
  unfolding bfree_def by (auto intro!: post_rules assms simp: Let_def blk_frame_def env_def)

lemma iupdate_post [post_rules]:
  assumes "\<And>s'. blk_frame s s' \<Longrightarrow> P s'"
  shows "post (iupdate s ip) P"
  unfolding iupdate_def by (auto intro!: post_rules assms simp: Let_def blk_frame_def env_def)

section \<open>Inode content\<close>

lemmas frame_defs = blk_frame_def ino_frame_def env_def irefs_def ilocks_def iids_def fun_eq_iff

lemma bmap_post [post_rules]:
  assumes "\<And>s' a. ino_frame s s' \<Longrightarrow> P (s', a)"
  shows "post (bmap s ip bn) P"
  unfolding bmap_def bmap_indirect_def
  by (auto intro!: post_rules assms simp: Let_def) (simp_all add: frame_defs)

lemma itrunc_direct_post [post_rules]:
  assumes "\<And>s'. ino_frame s s' \<Longrightarrow> P s'"
  shows "post (itrunc_direct s ip is) P"
  using assms
proof (induction "is" arbitrary: s)
  case (Cons i "is")
  have "post (itrunc_direct (upd_d ip f s') ip is) P" if "blk_frame s s'" for s' f
    by (intro Cons(1) Cons(2)) (use that in \<open>simp add: frame_defs\<close>)
  with Cons(1) [OF Cons(2)] show ?case by (auto intro!: bfree_post simp: Let_def)
qed simp

lemma itrunc_indirect_post [post_rules]:
  assumes "\<And>s'. blk_frame s s' \<Longrightarrow> P s'"
  shows "post (itrunc_indirect s dev a js) P"
  using assms
proof (induction js arbitrary: s)
  case (Cons j js)
  have "post (itrunc_indirect s' dev a js) P" if "blk_frame s s'" for s'
    using that by (intro Cons(1) Cons(2)) (rule blk_frame_trans)
  then show ?case by (auto intro!: post_rules)
qed simp

lemma itrunc_post [post_rules]:
  assumes "\<And>s'. ino_frame s s' \<Longrightarrow> P s'"
  shows "post (itrunc s ip) P"
  unfolding itrunc_def
  by (auto intro!: post_rules assms simp: Let_def) (simp_all add: frame_defs)

lemma readi_loop_post [post_rules]:
  assumes "\<And>s' bs. ino_frame s s' \<Longrightarrow> P (s', bs)"
  shows "post (readi_loop s ip off n) P"
  using assms
proof (induction n arbitrary: s off P rule: less_induct)
  case (less n)
  have rest: "post (readi_loop s' ip off' (n - min n (BSIZE - off mod BSIZE))) Q"
    if "ino_frame s s'" "n \<noteq> 0" "\<And>s' bs. ino_frame s s' \<Longrightarrow> Q (s', bs)" for s' off' Q
    by (intro less(1) that(3)) (use that in \<open>auto simp: BSIZE_def elim: ino_frame_trans\<close>)
  show ?case
    by (subst readi_loop.simps) (auto intro!: bmap_post fs_bread_post fs_brelse_post rest less(2) simp: Let_def)
qed

lemma writei_loop_post [post_rules]:
  assumes "\<And>s'. ino_frame s s' \<Longrightarrow> P s'"
  shows "post (writei_loop s ip src tot off n) P"
  using assms
proof (induction "n - tot" arbitrary: s off tot rule: less_induct)
  case less
  have "post (writei_loop s' ip src (tot + min (n - tot) (BSIZE - off mod BSIZE)) off' n) P"
    if "ino_frame s s'" "tot < n" for s' off'
    by (intro less(1) less(2)) (use that in \<open>auto simp: BSIZE_def elim: ino_frame_trans\<close>)
  then show ?case
    apply (subst writei_loop.simps)
    apply (auto intro!: bmap_post fs_bread_post fs_brelse_post fs_log_write_post less(2) simp: Let_def)
    apply (simp_all add: frame_defs)
    done
qed

lemma post_any: "(\<And>x. P x) \<Longrightarrow> post m P"
  by (simp add: post_def)

lemma readi_post [post_rules]:
  assumes "\<And>s' r bs. ino_frame s s' \<Longrightarrow> P (s', r, bs)"
  shows "post (readi devsw s ip off n) P"
  unfolding readi_def
  by (auto intro!: readi_loop_post assms intro: post_any simp: Let_def)

lemma writei_post [post_rules]:
  assumes "\<And>s' r. ino_frame s s' \<Longrightarrow> P (s', r)"
  shows "post (writei devsw s ip src off n) P"
  unfolding writei_def
  apply (auto intro!: writei_loop_post iupdate_post assms intro: post_any simp: Let_def)
  apply (simp_all add: frame_defs)
  done

section \<open>References\<close>

text \<open>
  The effect of the operations on references and locks: \<open>moved s s' rf lk\<close> says that \<open>s'\<close>
  has the reference counts \<open>rf\<close> and the locks \<open>lk\<close> and the environment of \<open>s\<close>.
\<close>

definition moved :: "'a fstate_scheme \<Rightarrow> 'a fstate_scheme \<Rightarrow> (nat \<Rightarrow> int) \<Rightarrow> (nat \<Rightarrow> bool) \<Rightarrow> bool" where
  "moved s s' rf lk \<longleftrightarrow> env s' = env s \<and> f_held s' = f_held s \<and> irefs s' = rf \<and> ilocks s' = lk"

lemma irefs_upd_inode [simp]: "irefs (upd_inode ip f s) = (irefs s)(ip := i_ref (f (icache s ip)))"
  by (simp add: irefs_def fun_eq_iff)

lemma ilocks_upd_inode [simp]: "ilocks (upd_inode ip f s) = (ilocks s)(ip := sl_locked (i_lock (f (icache s ip))))"
  by (simp add: ilocks_def fun_eq_iff)

lemma upd_same: "i_ref (icache s ip) = irefs s ip" "sl_locked (i_lock (icache s ip)) = ilocks s ip"
  by (simp_all add: irefs_def ilocks_def)

lemma frame_upds [simp]:
  "irefs (s\<lparr>f_held := h\<rparr>) = irefs s" "ilocks (s\<lparr>f_held := h\<rparr>) = ilocks s" "env (s\<lparr>f_held := h\<rparr>) = env s"
  "irefs (s\<lparr>f_log := l\<rparr>) = irefs s" "ilocks (s\<lparr>f_log := l\<rparr>) = ilocks s"
  "irefs (s\<lparr>f_disk := d\<rparr>) = irefs s" "ilocks (s\<lparr>f_disk := d\<rparr>) = ilocks s" "env (s\<lparr>f_disk := d\<rparr>) = env s"
  by (simp_all add: irefs_def ilocks_def env_def fun_eq_iff)

lemma moved_ino: "moved s s' rf lk \<Longrightarrow> ino_frame s' s'' \<Longrightarrow> moved s s'' rf lk"
  by (simp add: moved_def ino_frame_def)

lemma iget_scan_Inl: "iget_scan ic dev inum sl ips = Inl ip \<Longrightarrow> i_ref (ic ip) > 0 \<and> ip \<in> set ips"
  by (induction ips arbitrary: sl) (auto split: if_splits)

lemma iget_scan_Inr: "iget_scan ic dev inum sl ips = Inr (Some ip) \<Longrightarrow> sl = Some ip \<or> i_ref (ic ip) = 0 \<and> ip \<in> set ips"
  by (induction ips arbitrary: sl) (fastforce split: if_splits)+

lemma movedD:
  assumes "moved s s' rf lk"
  shows "env s' = env s" "f_held s' = f_held s" "irefs s' = rf" "ilocks s' = lk"
  using assms by (simp_all add: moved_def)

lemma iget_post [post_rules]:
  assumes "\<And>s' ip. moved s s' ((irefs s)(ip := irefs s ip + 1)) (ilocks s) \<Longrightarrow> 0 \<le> irefs s ip \<Longrightarrow> P (s', ip)"
  shows "post (iget s dev inum) P"
proof -
  have 1: "P (upd_inode ip (\<lambda>i. i\<lparr>i_ref := i_ref i + 1\<rparr>) s, ip)"
    if "iget_scan (icache s) dev inum None [0..<NINODE] = Inl ip" for ip
    using iget_scan_Inl [OF that] by (intro assms) (auto simp: moved_def upd_same)
  have 2: "P (upd_inode ip (\<lambda>i. i\<lparr>i_dev := dev, i_inum := inum, i_ref := 1, i_valid := False\<rparr>) s, ip)"
    if "iget_scan (icache s) dev inum None [0..<NINODE] = Inr (Some ip)" for ip
    using iget_scan_Inr [OF that] by (intro assms) (auto simp: moved_def upd_same)
  show ?thesis by (auto simp: iget_def 1 2 split: sum.splits)
qed

lemma ialloc_post [post_rules]:
  assumes "\<And>s' ip. moved s s' ((irefs s)(ip := irefs s ip + 1)) (ilocks s) \<Longrightarrow> 0 \<le> irefs s ip \<Longrightarrow> P (s', ip)"
  shows "post (ialloc s dev ty) P"
proof -
  have "post (ialloc_loop s dev ty inum) P" for inum
  proof (induction "unat (sb_ninodes (f_sb s)) - inum" arbitrary: inum rule: less_induct)
    case less
    have rest: "post (ialloc_loop s dev ty (Suc inum)) P" if "inum < unat (sb_ninodes (f_sb s))"
      using that by (intro less) simp
    show ?case
      apply (subst ialloc_loop.simps)
      apply (auto intro!: fs_bread_post fs_log_write_post fs_brelse_post iget_post rest assms)
      apply (simp_all add: moved_def env_def irefs_def ilocks_def fun_eq_iff)
      done
  qed
  then show ?thesis by (simp add: ialloc_def)
qed

lemma idup_moved: "moved s (idup s ip) ((irefs s)(ip := irefs s ip + 1)) (ilocks s)"
  by (simp add: moved_def idup_def upd_same)

lemma ilock_sleep_post [post_rules]:
  assumes "\<And>s'. \<not> ilocks s ip \<Longrightarrow> moved s s' (irefs s) ((ilocks s)(ip := True)) \<Longrightarrow> iids s' = iids s \<Longrightarrow> P s'"
  shows "post (ilock_sleep s ip) P"
  unfolding ilock_sleep_def acquiresleep_def acquiresleep_pass_def
  by (auto intro!: assms simp: moved_def upd_same iids_def fun_eq_iff)

lemma ilock_post [post_rules]:
  assumes "\<And>s'. \<not> ilocks s ip \<Longrightarrow> 1 \<le> irefs s ip \<Longrightarrow> moved s s' (irefs s) ((ilocks s)(ip := True)) \<Longrightarrow> P s'"
  shows "post (ilock s ip) P"
  unfolding ilock_def
  apply (auto intro!: ilock_sleep_post fs_bread_post fs_brelse_post assms simp: Let_def upd_same)
  apply (simp_all add: moved_def upd_same)
  done

lemma iunlock_post [post_rules]:
  assumes "\<And>s'. ilocks s ip \<Longrightarrow> 1 \<le> irefs s ip \<Longrightarrow> moved s s' (irefs s) ((ilocks s)(ip := False)) \<Longrightarrow> P s'"
  shows "post (iunlock s ip) P"
  unfolding iunlock_def
  by (auto intro!: assms simp: holdingsleep_def irelease_def releasesleep_def moved_def upd_same)

lemma iput_post [post_rules]:
  assumes "\<And>s'. \<not> ilocks s ip \<Longrightarrow> moved s s' ((irefs s)(ip := irefs s ip - 1)) (ilocks s) \<Longrightarrow> P s'"
  shows "post (iput s ip) P"
  unfolding iput_def
  apply (auto intro!: ilock_sleep_post itrunc_post iupdate_post assms simp: irelease_def releasesleep_def)
  apply (auto dest!: blk_frame_ino simp: moved_def ino_frame_def upd_same fun_upd_idem_iff)
  done

lemma iunlockput_post [post_rules]:
  assumes "\<And>s'. ilocks s ip \<Longrightarrow> moved s s' ((irefs s)(ip := irefs s ip - 1)) ((ilocks s)(ip := False)) \<Longrightarrow> P s'"
  shows "post (iunlockput s ip) P"
  unfolding iunlockput_def by (auto intro!: iunlock_post iput_post assms simp: moved_def)

section \<open>Directories and paths\<close>

lemma moved_refl: "moved s s (irefs s) (ilocks s)"
  by (simp add: moved_def)

lemma moved_trans: "moved s s' rf lk \<Longrightarrow> moved s' s'' rf' lk' \<Longrightarrow> moved s s'' rf' lk'"
  by (simp add: moved_def)

lemma ino_moved: "ino_frame s s' \<Longrightarrow> moved s s' (irefs s) (ilocks s)"
  by (simp add: moved_def ino_frame_def)

lemma dirlookup_loop_post [post_rules]:
  assumes "\<And>s' r. ino_frame s s' \<Longrightarrow> P (s', r)"
  shows "post (dirlookup_loop devsw s dp name off sz) P"
  using assms
proof (induction "sz - off" arbitrary: s off rule: less_induct)
  case less
  have rest: "post (dirlookup_loop devsw s' dp name (off + 16) sz) P" if "ino_frame s s'" "off < sz" for s'
    by (intro less(1) less(2)) (use that in \<open>auto elim: ino_frame_trans\<close>)
  show ?case
    by (subst dirlookup_loop.simps) (auto intro!: readi_post rest less(2))
qed

lemma dirlink_loop_post [post_rules]:
  assumes "\<And>s' r. ino_frame s s' \<Longrightarrow> P (s', r)"
  shows "post (dirlink_loop devsw s dp off sz) P"
  using assms
proof (induction "sz - off" arbitrary: s off rule: less_induct)
  case less
  have rest: "post (dirlink_loop devsw s' dp (off + 16) sz) P" if "ino_frame s s'" "off < sz" for s'
    by (intro less(1) less(2)) (use that in \<open>auto elim: ino_frame_trans\<close>)
  show ?case
    by (subst dirlink_loop.simps) (auto intro!: readi_post rest less(2))
qed

text \<open>The reference a lookup returns.\<close>

definition plus_ref :: "nat option \<Rightarrow> (nat \<Rightarrow> int) \<Rightarrow> nat \<Rightarrow> int" where
  "plus_ref r rf = (case r of None \<Rightarrow> rf | Some ip \<Rightarrow> rf(ip := rf ip + 1))"

lemma dirlookup_post [post_rules]:
  assumes "\<And>s' r. moved s s' (plus_ref (map_option fst r) (irefs s)) (ilocks s) \<Longrightarrow> P (s', r)"
  shows "post (dirlookup devsw s dp name) P"
  unfolding dirlookup_def
  by (auto intro!: dirlookup_loop_post iget_post assms simp: plus_ref_def moved_def ino_frame_def)

lemma dirlink_post [post_rules]:
  assumes "\<And>s' r. moved s s' (irefs s) (ilocks s) \<Longrightarrow> P (s', r)"
  shows "post (dirlink devsw s dp name inum) P"
  unfolding dirlink_def
  apply (auto intro!: dirlookup_post dirlink_loop_post writei_post iput_post assms)
  apply (auto simp: plus_ref_def moved_def ino_frame_def)
  done

lemma namex_loop_post:
  assumes "\<And>s' r nm. moved s s' (plus_ref r ((irefs s)(ip := irefs s ip - 1))) (ilocks s) \<Longrightarrow> P (s', r, nm)"
  shows "post (namex_loop devsw s ip path np name) P"
  using assms
proof (induction "length path" arbitrary: s ip path name P rule: less_induct)
  case less
  have rest: "post (namex_loop devsw s' nxt rest np nm) P"
    if "skipelem path name = Some (rest, nm)" "env s' = env s" "f_held s' = f_held s" "ilocks s' = ilocks s"
      "irefs s' = ((irefs s)(nxt := irefs s nxt + 1))(ip := ((irefs s)(nxt := irefs s nxt + 1)) ip - 1)"
    for s' nxt rest nm
  proof (intro less(1) less(2))
    show "length rest < length path" by (rule skipelem_shorter [OF that(1)])
    fix s'' r nm'
    assume "moved s' s'' (plus_ref r ((irefs s')(nxt := irefs s' nxt - 1))) (ilocks s')"
    moreover have "(irefs s')(nxt := irefs s' nxt - 1) = (irefs s)(ip := irefs s ip - 1)"
      using that(5) by (auto simp: fun_eq_iff)
    ultimately show "moved s s'' (plus_ref r ((irefs s)(ip := irefs s ip - 1))) (ilocks s)"
      using that by (simp add: moved_def)
  qed
  show ?case
    apply (subst namex_loop.simps)
    apply (auto intro!: iput_post ilock_post iunlockput_post iunlock_post dirlookup_post rest less(2))
    apply (auto simp: moved_def plus_ref_def fun_upd_idem_iff)
    done
qed

lemma namex_post:
  assumes "\<And>s' r nm. moved s s' (plus_ref r (irefs s)) (ilocks s) \<Longrightarrow> P (s', r, nm)"
  shows "post (namex devsw s path np name) P"
proof -
  have loop: "post (namex_loop devsw s' ip p np name) P"
    if "moved s s' ((irefs s)(ip := irefs s ip + 1)) (ilocks s)" for s' ip p
    using that by (intro namex_loop_post assms) (auto simp: moved_def)
  show ?thesis
    unfolding namex_def by (auto intro!: iget_post loop idup_moved)
qed

end
