(* ===== verification/Fs_Data.thy ===== *)
theory Fs_Data
  imports Fs_Refs
begin

text \<open>
  The contents of files: the free map, the block map of an inode and the bytes of a file.
  The layout \<open>fs_wf\<close> is the one \<open>mkfs\<close> writes: super block, log, inodes, free map, data.
  The lemmas follow \<open>balloc\<close>, \<open>bmap\<close>, \<open>readi\<close> and \<open>writei\<close>; the properties say that a file
  holds what was written to it and that no other file changes.
\<close>

section \<open>The free map\<close>

lemma bit_set_bit: "bit_set d i \<longleftrightarrow> bit (d ! (i div 8)) (i mod 8)"
  by (simp add: bit_set_def push_bit_of_1 and_exp_eq_0_iff_not_bit)

lemma bit_set_mark:
  assumes "i < 8 * length d" and "j < 8 * length d"
  shows "bit_set (mark_bit d i) j \<longleftrightarrow> bit_set d j \<or> j = i"
proof -
  have "i div 8 < length d" "i mod 8 < 8" "j mod 8 < 8" using assms by auto
  moreover have "i div 8 = j div 8 \<Longrightarrow> i mod 8 = j mod 8 \<Longrightarrow> i = j" by (metis div_mult_mod_eq)
  ultimately show ?thesis
    by (cases "i div 8 = j div 8")
      (auto simp: bit_set_bit mark_bit_def bit_or_iff push_bit_of_1 bit_exp_iff)
qed

lemma bit_set_clear:
  assumes "i < 8 * length d" and "j < 8 * length d"
  shows "bit_set (clear_bit d i) j \<longleftrightarrow> bit_set d j \<and> j \<noteq> i"
proof -
  have "i div 8 < length d" "i mod 8 < 8" "j mod 8 < 8" using assms by auto
  moreover have "i div 8 = j div 8 \<Longrightarrow> i mod 8 = j mod 8 \<Longrightarrow> i = j" by (metis div_mult_mod_eq)
  ultimately show ?thesis
    by (cases "i div 8 = j div 8")
      (auto simp: bit_set_bit clear_bit_def bit_and_iff bit_not_iff push_bit_of_1 bit_exp_iff)
qed

lemma length_mark_bit [simp]: "length (mark_bit d i) = length d" "length (clear_bit d i) = length d"
  by (simp_all add: mark_bit_def clear_bit_def)

definition fs_size :: "'a fstate_scheme \<Rightarrow> nat" where
  "fs_size s = unat (sb_size (f_sb s))"

definition used :: "'a fstate_scheme \<Rightarrow> u32 \<Rightarrow> bool" where
  "used s b \<longleftrightarrow> bit_set (f_disk s (BBLOCK b (f_sb s))) (unat b mod BPB)"

text \<open>The first data block.\<close>

definition dstart :: "'a fstate_scheme \<Rightarrow> nat" where
  "dstart s = unat (sb_bmapstart (f_sb s)) + fs_size s div BPB + 1"

definition fs_wf :: "'a fstate_scheme \<Rightarrow> bool" where
  "fs_wf s \<longleftrightarrow> (\<forall>b. length (f_disk s b) = BSIZE) \<and> f_sb s = sb_of_block (f_disk s 1) \<and>
     fs_size s \<le> unat (f_dsz s) \<and> 1 < unat (sb_inodestart (f_sb s)) \<and>
     unat (sb_inodestart (f_sb s)) + unat (sb_ninodes (f_sb s)) div IPB < unat (sb_bmapstart (f_sb s)) \<and>
     dstart s \<le> fs_size s \<and> (\<forall>b. unat b < dstart s \<longrightarrow> used s b)"

lemma fs_wfD:
  assumes "fs_wf s"
  shows "length (f_disk s b) = BSIZE" "f_sb s = sb_of_block (f_disk s 1)" "fs_size s \<le> unat (f_dsz s)"
    "1 < unat (sb_inodestart (f_sb s))"
    "unat (sb_inodestart (f_sb s)) + unat (sb_ninodes (f_sb s)) div IPB < unat (sb_bmapstart (f_sb s))"
    "dstart s \<le> fs_size s" "unat b < dstart s \<Longrightarrow> used s b"
  using assms unfolding fs_wf_def by blast+

lemma layout_cong:
  assumes "f_disk s' = f_disk s" and "f_sb s' = f_sb s" and "f_dsz s' = f_dsz s"
  shows "used s' = used s" "fs_size s' = fs_size s" "dstart s' = dstart s" "fs_wf s' = fs_wf s"
  unfolding fs_wf_def dstart_def fs_size_def used_def fun_eq_iff by (simp_all only: assms simp_thms)

lemma layout_upd_inode [simp]:
  "used (upd_inode ip f s) = used s" "fs_size (upd_inode ip f s) = fs_size s" "dstart (upd_inode ip f s) = dstart s"
  "fs_wf (upd_inode ip f s) = fs_wf s"
  by (rule layout_cong; simp)+

lemma fs_size_u32: "fs_size s < 4294967296"
  unfolding fs_size_def by (rule u32_bound)

lemma unat_BBLOCK:
  assumes "fs_wf s" and "unat b < fs_size s"
  shows "unat (BBLOCK b (f_sb s)) = unat b div BPB + unat (sb_bmapstart (f_sb s))"
    "unat (BBLOCK b (f_sb s)) < dstart s" "unat (sb_bmapstart (f_sb s)) \<le> unat (BBLOCK b (f_sb s))"
proof -
  have l: "unat b div BPB + unat (sb_bmapstart (f_sb s)) < dstart s"
    using assms(2) by (simp add: dstart_def less_Suc_eq_le div_le_mono)
  then have "unat b div BPB + unat (sb_bmapstart (f_sb s)) < 4294967296"
    using fs_wfD(6) [OF assms(1)] fs_size_u32 [of s] by linarith
  then show e: "unat (BBLOCK b (f_sb s)) = unat b div BPB + unat (sb_bmapstart (f_sb s))"
    by (simp add: BBLOCK_def unat_word_ariths unat_of_nat)
  show "unat (BBLOCK b (f_sb s)) < dstart s" "unat (sb_bmapstart (f_sb s)) \<le> unat (BBLOCK b (f_sb s))"
    using e l by simp_all
qed

lemma unat_IBLOCK:
  assumes "fs_wf s" and "unat i < unat (sb_ninodes (f_sb s))"
  shows "unat (IBLOCK i (f_sb s)) = unat i div IPB + unat (sb_inodestart (f_sb s))"
    "1 < unat (IBLOCK i (f_sb s))" "unat (IBLOCK i (f_sb s)) < unat (sb_bmapstart (f_sb s))"
proof -
  have l: "unat i div IPB + unat (sb_inodestart (f_sb s)) < unat (sb_bmapstart (f_sb s))"
    using fs_wfD(5) [OF assms(1)] assms(2) div_le_mono [of "unat i" "unat (sb_ninodes (f_sb s))" IPB] by simp
  then have "unat i div IPB + unat (sb_inodestart (f_sb s)) < 4294967296" using u32_bound by (rule less_trans)
  then show e: "unat (IBLOCK i (f_sb s)) = unat i div IPB + unat (sb_inodestart (f_sb s))"
    by (simp add: IBLOCK_def unat_word_ariths unat_of_nat)
  show "1 < unat (IBLOCK i (f_sb s))" "unat (IBLOCK i (f_sb s)) < unat (sb_bmapstart (f_sb s))"
    using e l fs_wfD(4) [OF assms(1)] by simp_all
qed

lemma BBLOCK_same:
  assumes "fs_wf s" and "unat a < fs_size s" and "unat b < fs_size s"
    and "BBLOCK a (f_sb s) = BBLOCK b (f_sb s)" and "unat a mod BPB = unat b mod BPB"
  shows "a = b"
proof -
  have "unat a div BPB = unat b div BPB"
    using unat_BBLOCK(1) [OF assms(1,2)] unat_BBLOCK(1) [OF assms(1,3)] assms(4) by simp
  then show ?thesis using assms(5) by (metis div_mult_mod_eq word_unat_eq_iff)
qed

section \<open>Allocation\<close>

lemma balloc_bit_Some:
  "balloc_bit d b sz bi = Some i \<Longrightarrow> bi \<le> i \<and> i < BPB \<and> b + i < sz \<and> \<not> bit_set d i"
proof (induction d b sz bi rule: balloc_bit.induct)
  case (1 d b sz bi)
  then show ?case by (subst (asm) balloc_bit.simps) (auto split: if_splits)
qed

text \<open>The state after allocating block \<open>a\<close>.\<close>

definition allocated :: "'a fstate_scheme \<Rightarrow> u32 \<Rightarrow> 'a fstate_scheme \<Rightarrow> bool" where
  "allocated s a s' \<longleftrightarrow> blk_frame s s' \<and> f_sb s' = f_sb s \<and> unat a < fs_size s \<and> \<not> used s a \<and>
     f_disk s' = (f_disk s)(BBLOCK a (f_sb s) := mark_bit (f_disk s (BBLOCK a (f_sb s))) (unat a mod BPB),
       a := replicate BSIZE 0)"

lemma balloc_loop_alloc:
  "b mod BPB = 0 \<Longrightarrow> post (balloc_loop s dev b) (\<lambda>(s', a). allocated s a s')"
proof (induction "unat (sb_size (f_sb s)) - b" arbitrary: b rule: less_induct)
  case less
  have rest: "post (balloc_loop s dev (b + BPB)) (\<lambda>(s', a). allocated s a s')" if "b < unat (sb_size (f_sb s))"
    using that BPB_pos less(2) by (intro less(1)) auto
  have new: "allocated s (word_of_nat (b + bi)) s'"
    if "balloc_bit (f_disk s (BBLOCK (word_of_nat b) (f_sb s))) b (unat (sb_size (f_sb s))) 0 = Some bi"
      "blk_frame s s'" "f_sb s' = f_sb s" "f_disk s' = (f_disk s)(BBLOCK (word_of_nat b) (f_sb s) :=
         mark_bit (f_disk s (BBLOCK (word_of_nat b) (f_sb s))) bi, word_of_nat (b + bi) := replicate BSIZE 0)" for bi s'
  proof -
    have bi: "bi < BPB" "b + bi < fs_size s" "\<not> bit_set (f_disk s (BBLOCK (word_of_nat b) (f_sb s))) bi"
      using balloc_bit_Some [OF that(1)] by (simp_all add: fs_size_def)
    have u: "unat (word_of_nat (b + bi) :: u32) = b + bi" "unat (word_of_nat b :: u32) = b"
      using bi(2) fs_size_u32 [of s] by (simp_all add: unat_of_nat del: of_nat_add)
    have "(b + bi) div BPB = b div BPB" "(b + bi) mod BPB = bi" using less(2) bi(1) by (auto simp: mod_eq_0_iff_dvd div_add)
    then have "BBLOCK (word_of_nat (b + bi)) (f_sb s) = BBLOCK (word_of_nat b) (f_sb s)"
      unfolding BBLOCK_def u by simp
    then show ?thesis using that bi u \<open>(b + bi) mod BPB = bi\<close> by (simp add: allocated_def used_def)
  qed
  show ?case
    apply (subst balloc_loop.simps)
    apply (auto intro!: fs_bread_post fs_brelse_post fs_log_write_post bzero_post rest new [unfolded of_nat_add])
    apply (simp_all add: blk_frame_def env_def)
    done
qed

lemma balloc_alloc: "post (balloc s dev) (\<lambda>(s', a). allocated s a s')"
  unfolding balloc_def by (rule balloc_loop_alloc) simp

lemma allocated_facts:
  assumes "fs_wf s" and "allocated s a s'"
  shows "dstart s \<le> unat a" "unat a < fs_size s" "f_sb s' = f_sb s" "fs_size s' = fs_size s" "dstart s' = dstart s"
    "\<And>b. unat b < fs_size s \<Longrightarrow> used s' b \<longleftrightarrow> used s b \<or> b = a" "fs_wf s'"
    "f_disk s' a = replicate BSIZE 0" "\<And>b. b \<noteq> a \<Longrightarrow> b \<noteq> BBLOCK a (f_sb s) \<Longrightarrow> f_disk s' b = f_disk s b"
    "a \<noteq> BBLOCK b (f_sb s) \<or> fs_size s \<le> unat b" "a \<noteq> 1" "a \<noteq> 0" "BBLOCK a (f_sb s) \<noteq> 1"
proof -
  let ?bb = "BBLOCK a (f_sb s)"
  have a: "unat a < fs_size s" "\<not> used s a" "f_sb s' = f_sb s" "blk_frame s s'"
    "f_disk s' = (f_disk s)(?bb := mark_bit (f_disk s ?bb) (unat a mod BPB), a := replicate BSIZE 0)"
    using assms(2) by (simp_all add: allocated_def)
  show low: "dstart s \<le> unat a" using a(2) fs_wfD(7) [OF assms(1), of a] by linarith
  show sb: "unat a < fs_size s" "f_sb s' = f_sb s" "fs_size s' = fs_size s" "dstart s' = dstart s"
    using a by (simp_all add: fs_size_def dstart_def)
  have far: "a \<noteq> BBLOCK b (f_sb s)" if "unat b < fs_size s" for b
    using unat_BBLOCK(2) [OF assms(1) that] low by auto
  from far [of b] show "a \<noteq> BBLOCK b (f_sb s) \<or> fs_size s \<le> unat b" by linarith
  have pos: "1 < dstart s" using fs_wfD(4,5) [OF assms(1)] by (simp add: dstart_def)
  then show n1: "a \<noteq> 1" "a \<noteq> 0" using low by auto
  show bb1: "?bb \<noteq> 1" using unat_BBLOCK(3) [OF assms(1) a(1)] fs_wfD(4,5) [OF assms(1)] by auto
  show z: "f_disk s' a = replicate BSIZE 0" "\<And>b. b \<noteq> a \<Longrightarrow> b \<noteq> ?bb \<Longrightarrow> f_disk s' b = f_disk s b"
    using a(5) by simp_all
  show us: "used s' b \<longleftrightarrow> used s b \<or> b = a" if "unat b < fs_size s" for b
  proof (cases "BBLOCK b (f_sb s) = ?bb")
    case True
    have "unat b mod BPB < 8 * length (f_disk s ?bb)" "unat a mod BPB < 8 * length (f_disk s ?bb)"
      using fs_wfD(1) [OF assms(1)] by (simp_all add: BPB_def BSIZE_def)
    with True show ?thesis
      using a(3,5) far [OF that] bit_set_mark BBLOCK_same [OF assms(1) that a(1) True] by (auto simp: used_def)
  next
    case False
    then have "b \<noteq> a" by auto
    with False show ?thesis using a(3,5) far [OF that] by (simp add: used_def)
  qed
  show "fs_wf s'" unfolding fs_wf_def
    using assms(1) us sb a(3,4,5) n1 bb1
    by (auto simp: fs_wf_def blk_frame_def env_def)
qed

section \<open>The block map of an inode\<close>

definition ind_blk :: "'a fstate_scheme \<Rightarrow> nat \<Rightarrow> u32" where
  "ind_blk s ip = d_addrs (i_d (icache s ip)) ! NDIRECT"

definition blkno :: "'a fstate_scheme \<Rightarrow> nat \<Rightarrow> nat \<Rightarrow> u32" where
  "blkno s ip bn =
     (if bn < NDIRECT then d_addrs (i_d (icache s ip)) ! bn
      else if ind_blk s ip = 0 then 0
      else get32 (f_disk s (ind_blk s ip)) (4 * (bn - NDIRECT)))"

definition owned :: "'a fstate_scheme \<Rightarrow> nat \<Rightarrow> u32 set" where
  "owned s ip = {a. a \<noteq> 0 \<and> (a = ind_blk s ip \<or> (\<exists>i<MAXFILE. a = blkno s ip i))}"

abbreviation isize :: "'a fstate_scheme \<Rightarrow> nat \<Rightarrow> nat" where
  "isize s ip \<equiv> unat (d_size (i_d (icache s ip)))"

definition ino_ok :: "'a fstate_scheme \<Rightarrow> nat \<Rightarrow> bool" where
  "ino_ok s ip \<longleftrightarrow> length (d_addrs (i_d (icache s ip))) = NDIRECT + 1 \<and>
     (\<forall>i<MAXFILE. \<forall>j<MAXFILE. blkno s ip i = blkno s ip j \<and> blkno s ip i \<noteq> 0 \<longrightarrow> i = j) \<and>
     (\<forall>i<MAXFILE. ind_blk s ip \<noteq> 0 \<longrightarrow> blkno s ip i \<noteq> ind_blk s ip) \<and>
     (\<forall>b \<in> owned s ip. used s b \<and> dstart s \<le> unat b \<and> unat b < fs_size s) \<and>
     isize s ip \<le> MAXFILE * BSIZE \<and> (\<forall>i<MAXFILE. i * BSIZE < isize s ip \<longrightarrow> blkno s ip i \<noteq> 0)"

lemma ino_okD:
  assumes "ino_ok s ip"
  shows "length (d_addrs (i_d (icache s ip))) = NDIRECT + 1"
    "i < MAXFILE \<Longrightarrow> j < MAXFILE \<Longrightarrow> blkno s ip i = blkno s ip j \<Longrightarrow> blkno s ip i \<noteq> 0 \<Longrightarrow> i = j"
    "i < MAXFILE \<Longrightarrow> ind_blk s ip \<noteq> 0 \<Longrightarrow> blkno s ip i \<noteq> ind_blk s ip"
    "b \<in> owned s ip \<Longrightarrow> used s b" "b \<in> owned s ip \<Longrightarrow> dstart s \<le> unat b" "b \<in> owned s ip \<Longrightarrow> unat b < fs_size s"
    "isize s ip \<le> MAXFILE * BSIZE" "i < MAXFILE \<Longrightarrow> i * BSIZE < isize s ip \<Longrightarrow> blkno s ip i \<noteq> 0"
  using assms unfolding ino_ok_def by blast+

lemma ownedI: "i < MAXFILE \<Longrightarrow> blkno s ip i \<noteq> 0 \<Longrightarrow> blkno s ip i \<in> owned s ip"
  "ind_blk s ip \<noteq> 0 \<Longrightarrow> ind_blk s ip \<in> owned s ip"
  by (auto simp: owned_def)

text \<open>None of this looks at the buffers held.\<close>

lemma held_irrelevant [simp]:
  "fs_size (s\<lparr>f_held := h\<rparr>) = fs_size s" "dstart (s\<lparr>f_held := h\<rparr>) = dstart s" "used (s\<lparr>f_held := h\<rparr>) = used s"
  "fs_wf (s\<lparr>f_held := h\<rparr>) = fs_wf s" "ind_blk (s\<lparr>f_held := h\<rparr>) = ind_blk s" "blkno (s\<lparr>f_held := h\<rparr>) = blkno s"
  "owned (s\<lparr>f_held := h\<rparr>) = owned s" "ino_ok (s\<lparr>f_held := h\<rparr>) = ino_ok s"
  by (auto simp: fs_size_def dstart_def used_def fs_wf_def ind_blk_def blkno_def owned_def ino_ok_def fun_eq_iff)

definition meta_kept :: "'a fstate_scheme \<Rightarrow> nat \<Rightarrow> 'a fstate_scheme \<Rightarrow> bool" where
  "meta_kept s ip s' \<longleftrightarrow> f_sb s' = f_sb s \<and> (\<forall>jp. jp \<noteq> ip \<longrightarrow> icache s' jp = icache s jp) \<and>
     (icache s' ip)\<lparr>i_d := zero_dinode\<rparr> = (icache s ip)\<lparr>i_d := zero_dinode\<rparr> \<and>
     (i_d (icache s' ip))\<lparr>d_addrs := []\<rparr> = (i_d (icache s ip))\<lparr>d_addrs := []\<rparr>"

text \<open>
  \<open>extends s ip s'\<close>: the map of the inode only gained blocks, which were free, and every
  used block that is not its own keeps its contents, the free map apart. \<open>grown s ip s'\<close>:
  in addition the old blocks of the inode keep theirs.
\<close>

definition foreign :: "'a fstate_scheme \<Rightarrow> nat \<Rightarrow> u32 \<Rightarrow> bool" where
  "foreign s ip b \<longleftrightarrow> used s b \<and> b \<notin> owned s ip \<and> unat b < fs_size s \<and>
     (\<forall>c. unat c < fs_size s \<longrightarrow> b \<noteq> BBLOCK c (f_sb s))"

definition extends :: "'a fstate_scheme \<Rightarrow> nat \<Rightarrow> 'a fstate_scheme \<Rightarrow> bool" where
  "extends s ip s' \<longleftrightarrow> fs_wf s' \<and> ino_ok s' ip \<and> meta_kept s ip s' \<and>
     (\<forall>i<MAXFILE. blkno s ip i \<noteq> 0 \<longrightarrow> blkno s' ip i = blkno s ip i) \<and>
     (\<forall>b. unat b < fs_size s \<and> used s b \<longrightarrow> used s' b) \<and> owned s' ip \<subseteq> owned s ip \<union> {b. \<not> used s b} \<and>
     (\<forall>b. foreign s ip b \<longrightarrow> f_disk s' b = f_disk s b)"

definition grown :: "'a fstate_scheme \<Rightarrow> nat \<Rightarrow> 'a fstate_scheme \<Rightarrow> bool" where
  "grown s ip s' \<longleftrightarrow> extends s ip s' \<and>
     (\<forall>i<MAXFILE. blkno s ip i \<noteq> 0 \<longrightarrow> f_disk s' (blkno s ip i) = f_disk s (blkno s ip i))"

lemma extendsD:
  assumes "extends s ip s'"
  shows "fs_wf s'" "ino_ok s' ip" "meta_kept s ip s'"
    "i < MAXFILE \<Longrightarrow> blkno s ip i \<noteq> 0 \<Longrightarrow> blkno s' ip i = blkno s ip i"
    "unat b < fs_size s \<Longrightarrow> used s b \<Longrightarrow> used s' b" "b \<in> owned s' ip \<Longrightarrow> b \<in> owned s ip \<or> \<not> used s b"
    "foreign s ip b \<Longrightarrow> f_disk s' b = f_disk s b"
  using assms unfolding extends_def by blast+

lemma growD:
  assumes "grown s ip s'"
  shows "extends s ip s'" "fs_wf s'" "ino_ok s' ip"
    "i < MAXFILE \<Longrightarrow> blkno s ip i \<noteq> 0 \<Longrightarrow> f_disk s' (blkno s ip i) = f_disk s (blkno s ip i)"
  using assms unfolding grown_def extends_def by blast+

lemma grown_refl: "fs_wf s \<Longrightarrow> ino_ok s ip \<Longrightarrow> grown s ip s"
  by (simp add: grown_def extends_def meta_kept_def)

lemma grown_held [simp]: "grown (s\<lparr>f_held := h\<rparr>) ip s' = grown s ip s'" "grown s ip (s'\<lparr>f_held := h\<rparr>) = grown s ip s'"
  by (simp_all add: grown_def extends_def meta_kept_def foreign_def)

lemma extends_foreign:
  assumes "extends s ip s'" and "foreign s ip b"
  shows "foreign s' ip b"
  using assms extendsD(3) [OF assms(1)] extendsD(5,6) [OF assms(1), of b]
  by (auto simp: foreign_def meta_kept_def fs_size_def)

lemma extends_trans:
  assumes "extends s ip s'" and "extends s' ip s''"
  shows "extends s ip s''"
proof -
  have sb: "f_sb s' = f_sb s" "fs_size s' = fs_size s" using extendsD(3) [OF assms(1)] by (simp_all add: meta_kept_def fs_size_def)
  have m: "meta_kept s ip s''" using extendsD(3) [OF assms(1)] extendsD(3) [OF assms(2)] by (simp add: meta_kept_def)
  have k: "blkno s'' ip i = blkno s ip i" if "i < MAXFILE" "blkno s ip i \<noteq> 0" for i
    using extendsD(4) [OF assms(1) that] extendsD(4) [OF assms(2), of i] that by auto
  have u: "used s'' b" if "unat b < fs_size s" "used s b" for b
    using extendsD(5) [OF assms(1) that] extendsD(5) [OF assms(2), of b] that sb by simp
  have o: "owned s'' ip \<subseteq> owned s ip \<union> {b. \<not> used s b}"
  proof
    fix b assume "b \<in> owned s'' ip"
    then have "b \<in> owned s' ip \<or> \<not> used s' b" "unat b < fs_size s"
      using extendsD(6) [OF assms(2)] ino_okD(6) [OF extendsD(2) [OF assms(2)]] extendsD(3) [OF assms(2)] sb
      by (auto simp: meta_kept_def fs_size_def)
    then show "b \<in> owned s ip \<union> {b. \<not> used s b}"
      using extendsD(5,6) [OF assms(1), of b] by auto
  qed
  have f: "f_disk s'' b = f_disk s b" if "foreign s ip b" for b
    using extendsD(7) [OF assms(1) that] extendsD(7) [OF assms(2) extends_foreign [OF assms(1) that]] by simp
  show ?thesis unfolding extends_def
    using extendsD(1,2) [OF assms(2)] m k u o f by blast
qed

lemma grown_trans:
  assumes "grown s ip s'" and "grown s' ip s''"
  shows "grown s ip s''"
proof -
  have "f_disk s'' (blkno s ip i) = f_disk s (blkno s ip i)" if "i < MAXFILE" "blkno s ip i \<noteq> 0" for i
    using growD(4) [OF assms(1) that] growD(4) [OF assms(2), of i] extendsD(4) [OF growD(1) [OF assms(1)] that] that by simp
  then show ?thesis
    using extends_trans [OF growD(1) [OF assms(1)] growD(1) [OF assms(2)]] by (simp add: grown_def)
qed

lemma meta_kept_size: "meta_kept s ip s' \<Longrightarrow> isize s' ip = isize s ip \<and> f_sb s' = f_sb s \<and> fs_size s' = fs_size s \<and> dstart s' = dstart s"
  unfolding meta_kept_def fs_size_def dstart_def
  by (metis dinode.select_convs(5) dinode.surjective dinode.update_convs(6))

lemma meta_kept_type: "meta_kept s ip s' \<Longrightarrow> d_type (i_d (icache s' ip)) = d_type (i_d (icache s ip))"
  unfolding meta_kept_def by (metis dinode.select_convs(1) dinode.surjective dinode.update_convs(6))

lemma owned_not_bmap:
  assumes "fs_wf s" and "ino_ok s ip" and "b \<in> owned s ip" and "unat c < fs_size s"
  shows "b \<noteq> BBLOCK c (f_sb s)"
  using unat_BBLOCK(2) [OF assms(1,4)] ino_okD(5) [OF assms(2,3)] by auto

lemma owned_disk:
  assumes "fs_wf s" and "ino_ok s ip" and "allocated s a s1" and "b \<in> owned s ip"
  shows "f_disk s1 b = f_disk s b" "b \<noteq> a"
proof -
  have "\<not> used s a" "unat a < fs_size s" using assms(3) by (simp_all add: allocated_def)
  then show "b \<noteq> a" using ino_okD(4) [OF assms(2,4)] by auto
  then show "f_disk s1 b = f_disk s b"
    using allocated_facts(9) [OF assms(1,3)] owned_not_bmap [OF assms(1,2,4) \<open>unat a < fs_size s\<close>] by simp
qed

lemma grownI:
  assumes wf: "fs_wf s" "ino_ok s ip" "allocated s a s1" and s2: "fs_wf s2" "meta_kept s ip s2"
    and len: "length (d_addrs (i_d (icache s2 ip))) = NDIRECT + 1"
    and u2: "\<And>b. unat b < fs_size s \<Longrightarrow> used s2 b = used s1 b"
    and ind2: "ind_blk s2 ip = (if nw = None then a else ind_blk s ip)" "nw = None \<Longrightarrow> ind_blk s ip = 0"
    and blk2: "\<And>i. i < MAXFILE \<Longrightarrow> blkno s2 ip i = (if nw = Some i then a else blkno s ip i)"
      "\<And>i. nw = Some i \<Longrightarrow> blkno s ip i = 0"
    and disk2: "\<And>b. b \<noteq> ind_blk s ip \<or> ind_blk s ip = 0 \<Longrightarrow> f_disk s2 b = f_disk s1 b"
  shows "grown s ip s2"
proof -
  note al = allocated_facts [OF wf(1,3)]
  note mk = meta_kept_size [OF s2(2)]
  have o2: "b = a \<or> b \<in> owned s ip" if "b \<in> owned s2 ip" for b
    using that ind2 blk2 by (auto simp: owned_def split: if_splits)
  have new: "a \<noteq> blkno s ip i" "a \<noteq> ind_blk s ip" if "i < MAXFILE" for i
    using owned_disk(2) [OF wf, of a] ownedI(1) [OF that, of s ip] ownedI(2) [of s ip] al(12) by auto
  have "ino_ok s2 ip" unfolding ino_ok_def
  proof (intro conjI ballI allI impI)
    fix b assume "b \<in> owned s2 ip"
    then have "b = a \<or> b \<in> owned s ip" by (rule o2)
    then show "used s2 b" "dstart s2 \<le> unat b" "unat b < fs_size s2"
      using al(1,2,6) u2 ino_okD(4-6) [OF wf(2), of b] mk by auto
  next
    fix i j assume "i < MAXFILE" "j < MAXFILE" "blkno s2 ip i = blkno s2 ip j \<and> blkno s2 ip i \<noteq> 0"
    then show "i = j" using blk2 new ino_okD(2) [OF wf(2), of i j] by (auto split: if_splits)
  next
    fix i assume "i < MAXFILE" "ind_blk s2 ip \<noteq> 0"
    then show "blkno s2 ip i \<noteq> ind_blk s2 ip"
      using blk2 [of i] ind2 new [of i] ino_okD(3) [OF wf(2), of i] by (auto split: if_splits)
  next
    fix i assume "i < MAXFILE" "i * BSIZE < isize s2 ip"
    then show "blkno s2 ip i \<noteq> 0" using blk2 al(12) mk ino_okD(8) [OF wf(2), of i] by auto
  qed (use len mk ino_okD(7) [OF wf(2)] in auto)
  moreover have "blkno s2 ip i = blkno s ip i \<and> f_disk s2 (blkno s ip i) = f_disk s (blkno s ip i)"
    if "i < MAXFILE" "blkno s ip i \<noteq> 0" for i
    using blk2 that owned_disk(1) [OF wf ownedI(1) [OF that]] disk2 [of "blkno s ip i"] ino_okD(3) [OF wf(2) that(1)]
    by auto
  moreover have "f_disk s2 b = f_disk s b"
    if "foreign s ip b" for b
  proof -
    have "b \<noteq> ind_blk s ip \<or> ind_blk s ip = 0" using that ownedI(2) by (auto simp: foreign_def)
    moreover have "b \<noteq> a" using that wf(3) by (auto simp: allocated_def foreign_def)
    ultimately show ?thesis using disk2 al(2) al(9) [of b] that by (simp add: foreign_def)
  qed
  moreover have "owned s2 ip \<subseteq> owned s ip \<union> {b. \<not> used s b}"
    using o2 wf(3) by (auto simp: allocated_def)
  ultimately show ?thesis unfolding grown_def extends_def using s2 u2 al(6) by auto
qed

lemma get32_zeros: "n + 3 < BSIZE \<Longrightarrow> get32 (replicate BSIZE 0) n = 0"
  by (simp add: get32_def)

lemma grown_addr:
  assumes wf: "fs_wf s" "ino_ok s ip" "allocated s a s1" and n: "n \<le> NDIRECT" "d_addrs (i_d (icache s ip)) ! n = 0"
  defines "s2 \<equiv> upd_d ip (\<lambda>d. d\<lparr>d_addrs := (d_addrs d)[n := a]\<rparr>) s1"
  shows "grown s ip s2" "d_addrs (i_d (icache s2 ip)) ! n = a"
proof -
  note al = allocated_facts [OF wf(1,3)]
  have ic: "icache s1 = icache s" using wf(3) by (simp add: allocated_def blk_frame_def)
  have len: "length (d_addrs (i_d (icache s ip))) = NDIRECT + 1" by (rule ino_okD(1) [OF wf(2)])
  show "d_addrs (i_d (icache s2 ip)) ! n = a" using len n by (simp add: s2_def ic)
  have wf2: "fs_wf s2" using al(7) by (simp add: s2_def)
  have keep: "get32 (f_disk s1 (ind_blk s ip)) k = get32 (f_disk s (ind_blk s ip)) k" if "ind_blk s ip \<noteq> 0" for k
    using owned_disk(1) [OF wf ownedI(2) [OF that]] by simp
  show "grown s ip s2"
  proof (rule grownI [OF wf wf2, where nw = "if n = NDIRECT then None else Some n"], goal_cases)
    case (6 i)
    then show ?case
      using len n al(8) keep get32_zeros [of "4 * (i - NDIRECT)"]
      by (auto simp: blkno_def ind_blk_def s2_def ic nth_list_update MAXFILE_def NDIRECT_def NINDIRECT_def BSIZE_def)
  next
    case (7 i)
    then show ?case using n by (auto simp: blkno_def split: if_splits)
  qed (use len n in \<open>auto simp: s2_def ic meta_kept_def al(3) ind_blk_def split: if_splits\<close>)
qed

lemma grown_entry:
  assumes wf: "fs_wf s" "ino_ok s ip" "allocated s a s1" and n: "NDIRECT \<le> n" "n < MAXFILE" "blkno s ip n = 0"
    and ind: "ind_blk s ip \<noteq> 0" and s2: "f_sb s2 = f_sb s1" "f_dsz s2 = f_dsz s1" "icache s2 = icache s1"
    "f_disk s2 = (f_disk s1)(ind_blk s ip := put32 (f_disk s (ind_blk s ip)) (4 * (n - NDIRECT)) a)"
  shows "grown s ip s2" "blkno s2 ip n = a"
proof -
  note al = allocated_facts [OF wf(1,3)]
  have ic: "icache s1 = icache s" using wf(3) by (simp add: allocated_def blk_frame_def)
  have o: "ind_blk s ip \<in> owned s ip" by (rule ownedI(2) [OF ind])
  have nb: "ind_blk s ip \<noteq> BBLOCK c (f_sb s)" if "unat c < fs_size s" for c
    by (rule owned_not_bmap [OF wf(1,2) o that])
  have len: "length (f_disk s (ind_blk s ip)) = BSIZE" by (rule fs_wfD(1) [OF wf(1)])
  have pos: "1 < dstart s" using fs_wfD(4,5) [OF wf(1)] by (simp add: dstart_def)
  then have i1: "ind_blk s ip \<noteq> 1" using ino_okD(5) [OF wf(2) o] by auto
  have ind2: "ind_blk s2 ip = ind_blk s ip" by (simp add: ind_blk_def s2(3) ic)
  have u2: "used s2 b = used s1 b" if "unat b < fs_size s" for b
    using nb [OF that] by (simp add: used_def s2 al(3))
  have wf2: "fs_wf s2"
    using al(7) u2 len i1 al(3-5) fs_wfD(6) [OF wf(1)] unfolding fs_wf_def
    by (auto simp: s2 fs_size_def dstart_def)
  have b2: "blkno s2 ip i = (if i = n then a else blkno s ip i)" if "i < MAXFILE" for i
  proof (cases "i < NDIRECT")
    case False
    have r: "4 * (n - NDIRECT) + 3 < length (f_disk s (ind_blk s ip))"
      using n by (simp add: len BSIZE_def MAXFILE_def NINDIRECT_def NDIRECT_def)
    have "i \<noteq> n \<Longrightarrow> 4 * (n - NDIRECT) + 3 < 4 * (i - NDIRECT) \<or> 4 * (i - NDIRECT) + 3 < 4 * (n - NDIRECT)"
      using False n(1) by linarith
    then show ?thesis using False ind r n(1) by (auto simp: blkno_def ind2 s2(4) get32_put32_other)
  qed (use n in \<open>simp add: blkno_def s2(3) ic\<close>)
  then show "blkno s2 ip n = a" using n by simp
  show "grown s ip s2"
    by (rule grownI [OF wf wf2, where nw = "Some n"])
      (use ind u2 b2 ind2 n(3) ino_okD(1) [OF wf(2)] in \<open>auto simp: s2 ic meta_kept_def al(3)\<close>)
qed

lemma blkno_direct: "n < NDIRECT \<Longrightarrow> blkno s ip n = d_addrs (i_d (icache s ip)) ! n"
  by (simp add: blkno_def)

text \<open>\<open>bmap\<close> returns the block of the map, which it extends when there is none.\<close>

definition mapped :: "'a fstate_scheme \<Rightarrow> nat \<Rightarrow> nat \<Rightarrow> 'a fstate_scheme \<Rightarrow> u32 \<Rightarrow> bool" where
  "mapped s ip bn s' a \<longleftrightarrow> grown s ip s' \<and> ino_frame s s' \<and> a = blkno s' ip bn \<and> a \<noteq> 0 \<and> (blkno s ip bn \<noteq> 0 \<longrightarrow> s' = s)"

lemma allocated_pos: "fs_wf s \<Longrightarrow> allocated s a s' \<Longrightarrow> a \<noteq> 0"
  using allocated_facts(12) by blast

lemma bmap_direct:
  assumes wf: "fs_wf s" "ino_ok s ip" and "bn < NDIRECT"
  shows "post (bmap s ip bn) (\<lambda>(s', a). mapped s ip bn s' a)"
proof (cases "blkno s ip bn = 0")
  case True
  have "mapped s ip bn (upd_d ip (\<lambda>d. d\<lparr>d_addrs := (d_addrs d)[bn := a]\<rparr>) s1) a" if "allocated s a s1" for a s1
    using grown_addr [OF wf that, of bn] True assms(3) allocated_pos [OF wf(1) that] that
    by (auto simp: mapped_def blkno_direct allocated_def intro: ino_frame_trans [OF blk_frame_ino ino_frame_upd_d])
  then show ?thesis using True assms(3) balloc_alloc [of s "i_dev (icache s ip)"]
    by (auto simp: bmap_def Let_def blkno_direct elim!: post_mono)
next
  case False
  then show ?thesis using assms by (simp add: bmap_def Let_def blkno_direct mapped_def grown_refl)
qed

lemma bmap_indirect_ok:
  assumes wf: "fs_wf s" "ino_ok s ip" and n: "NDIRECT \<le> n" "n < MAXFILE"
    and ind: "ind_blk s ip \<noteq> 0" "ind = ind_blk s ip"
  shows "post (bmap_indirect s dev ind (n - NDIRECT)) (\<lambda>(s', a). mapped s ip n s' a)"
proof -
  let ?i = "ind_blk s ip" and ?k = "4 * (n - NDIRECT)"
  let ?h = "s\<lparr>f_held := ?i # f_held s\<rparr>"
  have b: "blkno s ip n = get32 (f_disk s ?i) ?k" using n(1) ind by (simp add: blkno_def)
  have grow: "mapped s ip n (s1\<lparr>f_log := l, f_disk := (f_disk s1)(?i := put32 (f_disk s ?i) ?k a), f_held := remove1 ?i (f_held s1)\<rparr>) a"
    if "allocated ?h a s1" "get32 (f_disk s ?i) ?k = 0" "outstanding l = outstanding (f_log s1)"
      "committing l = committing (f_log s1)" "log_size l = log_size (f_log s1)" for a s1 l
  proof -
    let ?s2 = "s1\<lparr>f_log := l, f_disk := (f_disk s1)(?i := put32 (f_disk s ?i) ?k a), f_held := remove1 ?i (f_held s1)\<rparr>"
    have "grown ?h ip ?s2" "blkno ?s2 ip n = a"
      using grown_entry [where s = ?h and ip = ip and n = n and a = a and ?s1.0 = s1 and ?s2.0 = ?s2] that wf n ind b by simp_all
    moreover have "ino_frame s ?s2" using that by (auto simp: allocated_def blk_frame_def frame_defs)
    moreover have "a \<noteq> 0" using allocated_pos [OF _ that(1)] wf by simp
    ultimately show ?thesis using b that(2) by (simp add: mapped_def)
  qed
  show ?thesis unfolding ind(2) bmap_indirect_def
    apply (simp, intro fs_bread_post, simp, intro conjI impI)
     apply (rule post_mono [OF balloc_alloc])
     apply (auto intro!: fs_log_write_post fs_brelse_post grow)
    using b wf by (auto intro!: fs_brelse_post simp: mapped_def grown_refl)
qed

lemma bmap_ok:
  assumes wf: "fs_wf s" "ino_ok s ip" and n: "bn < MAXFILE"
  shows "post (bmap s ip bn) (\<lambda>(s', a). mapped s ip bn s' a)"
proof (cases "bn < NDIRECT")
  case False
  let ?dev = "i_dev (icache s ip)"
  have r: "bn - NDIRECT < NINDIRECT" "NDIRECT \<le> bn" using n False by (simp_all add: MAXFILE_def)
  show ?thesis
  proof (cases "ind_blk s ip = 0")
    case True
    have cont: "post (bmap_indirect (upd_d ip (\<lambda>d. d\<lparr>d_addrs := (d_addrs d)[NDIRECT := a]\<rparr>) s1) ?dev a (bn - NDIRECT))
        (\<lambda>(s', a). mapped s ip bn s' a)" if al: "allocated s a s1" for a s1
    proof -
      let ?s2 = "upd_d ip (\<lambda>d. d\<lparr>d_addrs := (d_addrs d)[NDIRECT := a]\<rparr>) s1"
      have g: "grown s ip ?s2" "ind_blk ?s2 ip = a"
        using grown_addr [OF wf al, of NDIRECT] True by (simp_all add: ind_blk_def)
      have f: "ino_frame s ?s2"
        using al by (auto simp: allocated_def intro: ino_frame_trans [OF blk_frame_ino ino_frame_upd_d])
      have z: "blkno s ip bn = 0" using True r by (simp add: blkno_def)
      have "ind_blk ?s2 ip \<noteq> 0" using g(2) allocated_pos [OF wf(1) al] by simp
      from bmap_indirect_ok [OF growD(2,3) [OF g(1)] r(2) n this g(2) [symmetric], of ?dev] show ?thesis
        by (rule post_mono) (use z in \<open>auto simp: mapped_def intro: grown_trans [OF g(1)] ino_frame_trans [OF f]\<close>)
    qed
    have "bmap s ip bn = bnd (balloc s ?dev) (\<lambda>(s, addr).
          bmap_indirect (upd_d ip (\<lambda>d. d\<lparr>d_addrs := (d_addrs d)[NDIRECT := addr]\<rparr>) s) ?dev addr (bn - NDIRECT))"
      using True r False by (simp add: bmap_def Let_def ind_blk_def)
    then show ?thesis using balloc_alloc [of s ?dev] by simp (erule post_mono, auto intro: cont)
  next
    case False
    then show ?thesis
      using bmap_indirect_ok [OF wf r(2) n, of "ind_blk s ip" ?dev] r \<open>\<not> bn < NDIRECT\<close>
      by (simp add: bmap_def Let_def ind_blk_def)
  qed
qed (use bmap_direct [OF wf] in simp)

section \<open>The bytes of a file\<close>

definition fbyte :: "'a fstate_scheme \<Rightarrow> nat \<Rightarrow> nat \<Rightarrow> uchar" where
  "fbyte s ip k = f_disk s (blkno s ip (k div BSIZE)) ! (k mod BSIZE)"

lemma data_write:
  assumes wf: "fs_wf s" "ino_ok s ip" and bn: "bn < MAXFILE" "blkno s ip bn \<noteq> 0" and d: "length d = BSIZE"
    and s2: "f_disk s2 = (f_disk s)(blkno s ip bn := d)" "f_sb s2 = f_sb s" "f_dsz s2 = f_dsz s" "icache s2 = icache s"
  shows "extends s ip s2" "\<And>i. i < MAXFILE \<Longrightarrow> blkno s2 ip i = blkno s ip i"
    "\<And>k. k < MAXFILE * BSIZE \<Longrightarrow> fbyte s2 ip k = (if k div BSIZE = bn then d ! (k mod BSIZE) else fbyte s ip k)"
proof -
  let ?a = "blkno s ip bn"
  have o: "?a \<in> owned s ip" by (rule ownedI(1) [OF bn])
  have nb: "?a \<noteq> BBLOCK c (f_sb s)" if "unat c < fs_size s" for c by (rule owned_not_bmap [OF wf o that])
  have pos: "1 < dstart s" using fs_wfD(4,5) [OF wf(1)] by (simp add: dstart_def)
  have a1: "?a \<noteq> 1" using ino_okD(5) [OF wf(2) o] pos by auto
  have sz: "fs_size s2 = fs_size s" "dstart s2 = dstart s" by (simp_all add: fs_size_def dstart_def s2)
  have u: "used s2 b = used s b" if "unat b < fs_size s" for b using nb [OF that] by (auto simp: used_def s2)
  have wf2: "fs_wf s2" unfolding fs_wf_def sz
    using wf(1) u d a1 fs_wfD(6) [OF wf(1)] by (auto simp: fs_wf_def s2)
  have ind: "ind_blk s2 ip = ind_blk s ip" by (simp add: ind_blk_def s2)
  have b2: "blkno s2 ip i = blkno s ip i" if "i < MAXFILE" for i
    using ino_okD(3) [OF wf(2) bn(1)] by (auto simp: blkno_def ind s2)
  then show "\<And>i. i < MAXFILE \<Longrightarrow> blkno s2 ip i = blkno s ip i" .
  have ow: "owned s2 ip = owned s ip" using b2 by (auto simp: owned_def ind)
  have "ino_ok s2 ip" unfolding ino_ok_def sz ow ind
    using wf(2) b2 u by (auto simp: ino_ok_def s2)
  then show "extends s ip s2" unfolding extends_def using wf2 b2 u ow o
    by (auto simp: meta_kept_def s2 foreign_def)
  fix k assume "k < MAXFILE * BSIZE"
  then have "k div BSIZE < MAXFILE" by (simp add: less_mult_imp_div_less)
  then show "fbyte s2 ip k = (if k div BSIZE = bn then d ! (k mod BSIZE) else fbyte s ip k)"
    using b2 [of "k div BSIZE"] ino_okD(2) [OF wf(2), of "k div BSIZE" bn] bn by (auto simp: fbyte_def s2)
qed

lemma length_blit: "k + length bs \<le> length d \<Longrightarrow> length (blit d k bs) = length d"
  by (simp add: blit_def)

lemma nth_blit:
  "k + length bs \<le> length d \<Longrightarrow> j < length d \<Longrightarrow>
   blit d k bs ! j = (if k \<le> j \<and> j < k + length bs then bs ! (j - k) else d ! j)"
  by (auto simp: blit_def nth_append)

text \<open>What writing \<open>len\<close> bytes at offset \<open>off\<close> does, before the size is updated.\<close>

definition wrote_bytes :: "'a fstate_scheme \<Rightarrow> nat \<Rightarrow> nat \<Rightarrow> nat \<Rightarrow> (nat \<Rightarrow> uchar) \<Rightarrow> 'a fstate_scheme \<Rightarrow> bool" where
  "wrote_bytes s ip off len src s' \<longleftrightarrow> extends s ip s' \<and> ino_frame s s' \<and>
     (\<forall>k. off \<le> k \<and> k < off + len \<longrightarrow> blkno s' ip (k div BSIZE) \<noteq> 0 \<and> fbyte s' ip k = src (k - off)) \<and>
     (\<forall>k<MAXFILE * BSIZE. \<not> (off \<le> k \<and> k < off + len) \<and> blkno s ip (k div BSIZE) \<noteq> 0 \<longrightarrow> fbyte s' ip k = fbyte s ip k) \<and>
     ((\<forall>k. off \<le> k \<and> k < off + len \<longrightarrow> blkno s ip (k div BSIZE) \<noteq> 0) \<longrightarrow> icache s' = icache s)"

lemma block_range:
  assumes "off div BSIZE = k div BSIZE"
  shows "off \<le> k \<and> k < off + m \<longleftrightarrow> off mod BSIZE \<le> k mod BSIZE \<and> k mod BSIZE < off mod BSIZE + m" "off mod BSIZE \<le> k mod BSIZE \<Longrightarrow> k mod BSIZE - off mod BSIZE = k - off"
proof -
  have "off = (k div BSIZE) * BSIZE + off mod BSIZE" "k = (k div BSIZE) * BSIZE + k mod BSIZE"
    using assms by (metis div_mult_mod_eq)+
  then show "off \<le> k \<and> k < off + m \<longleftrightarrow> off mod BSIZE \<le> k mod BSIZE \<and> k mod BSIZE < off mod BSIZE + m"
    "off mod BSIZE \<le> k mod BSIZE \<Longrightarrow> k mod BSIZE - off mod BSIZE = k - off" by linarith+
qed

lemma chunk_block:
  assumes "off \<le> k" and "k < off + m" and "m \<le> BSIZE - off mod BSIZE"
  shows "k div BSIZE = off div BSIZE"
proof -
  have "off mod BSIZE + (k - off) < BSIZE" using assms mod_less_divisor [of BSIZE off] by (simp add: BSIZE_def)
  moreover have "k = off div BSIZE * BSIZE + (off mod BSIZE + (k - off))"
    using assms(1) by (metis add.assoc div_mult_mod_eq le_add_diff_inverse)
  ultimately show ?thesis by (metis add.commute div_less div_mult_self3 add_0 BSIZE_def zero_neq_numeral)
qed

lemma write_chunk:
  assumes m: "mapped s ip (off div BSIZE) s1 a" and wf: "fs_wf s" "ino_ok s ip"
    and r: "0 < m" "m \<le> BSIZE - off mod BSIZE" "off div BSIZE < MAXFILE"
    and s2: "f_disk s2 = (f_disk s1)(a := blit (f_disk s1 a) (off mod BSIZE) (map src [0..<m]))"
      "f_sb s2 = f_sb s1" "icache s2 = icache s1" "env s2 = env s1" "f_held s2 = f_held s1"
  shows "wrote_bytes s ip off m src s2"
proof -
  let ?d = "blit (f_disk s1 a) (off mod BSIZE) (map src [0..<m])"
  have g: "grown s ip s1" "ino_frame s s1" "a = blkno s1 ip (off div BSIZE)" "a \<noteq> 0"
    "blkno s ip (off div BSIZE) \<noteq> 0 \<Longrightarrow> s1 = s" using m unfolding mapped_def by blast+
  note w1 = growD(2,3) [OF g(1)]
  have B: "0 < BSIZE" by (simp add: BSIZE_def)
  have fit: "off mod BSIZE + length (map src [0..<m]) \<le> length (f_disk s1 a)"
    using r(2) B fs_wfD(1) [OF w1(1)] mod_less_divisor [OF B, of off] by simp
  have "f_dsz s2 = f_dsz s1" using s2(4) by (simp add: env_def)
  note dw = data_write [OF w1 r(3) _ _ s2(1) [unfolded g(3)] s2(2) this s2(3), folded g(3)]
  have len: "length ?d = BSIZE" using length_blit [OF fit] fs_wfD(1) [OF w1(1)] by simp
  note dw = dw [OF g(4) len]
  have byte: "fbyte s2 ip k = (if off \<le> k \<and> k < off + m then src (k - off) else fbyte s1 ip k)"
    if "k < MAXFILE * BSIZE" for k
  proof (cases "k div BSIZE = off div BSIZE")
    case True
    have "k mod BSIZE < length (f_disk s1 a)" using B fs_wfD(1) [OF w1(1)] by simp
    then show ?thesis
      using dw(3) [OF that] nth_blit [OF fit, of "k mod BSIZE"] block_range(1) [OF True [symmetric], of m]
        block_range(2) [OF True [symmetric]] True g(3)
      by (auto simp: fbyte_def)
  next
    case False
    then show ?thesis using dw(3) [OF that] chunk_block [of off k m] r(2) by auto
  qed
  have ch: "k div BSIZE = off div BSIZE" "k < MAXFILE * BSIZE" if "off \<le> k" "k < off + m" for k
  proof -
    show e: "k div BSIZE = off div BSIZE" by (rule chunk_block [OF that r(2)])
    then have "k div BSIZE < MAXFILE" using r(3) by simp
    then show "k < MAXFILE * BSIZE" by (simp only: div_less_iff_less_mult [OF B])
  qed
  have old: "fbyte s1 ip k = fbyte s ip k" if "k < MAXFILE * BSIZE" "blkno s ip (k div BSIZE) \<noteq> 0" for k
  proof -
    have "k div BSIZE < MAXFILE" using that(1) by (simp add: less_mult_imp_div_less)
    then show ?thesis using growD(4) [OF g(1), of "k div BSIZE"] extendsD(4) [OF growD(1) [OF g(1)], of "k div BSIZE"] that
      by (simp add: fbyte_def)
  qed
  have "icache s2 = icache s" if "\<forall>k. off \<le> k \<and> k < off + m \<longrightarrow> blkno s ip (k div BSIZE) \<noteq> 0"
    using that [rule_format, of off] r(1) g(5) s2(3) by simp
  moreover have "ino_frame s s2" using g(2) s2 by (simp add: frame_defs)
  moreover have "blkno s2 ip (k div BSIZE) \<noteq> 0 \<and> fbyte s2 ip k = src (k - off)" if "off \<le> k" "k < off + m" for k
    using byte [OF ch(2) [OF that]] that ch(1) [OF that] dw(2) [OF r(3)] g(3,4) by simp
  moreover have "fbyte s2 ip k = fbyte s ip k"
    if "k < MAXFILE * BSIZE" "\<not> (off \<le> k \<and> k < off + m)" "blkno s ip (k div BSIZE) \<noteq> 0" for k
    using byte [OF that(1)] old [OF that(1,3)] that(2) by simp
  ultimately show ?thesis
    unfolding wrote_bytes_def using extends_trans [OF growD(1) [OF g(1)] dw(1)] by blast
qed

lemma wrote_bytesD:
  assumes "wrote_bytes s ip off len src s'"
  shows "extends s ip s'" "ino_frame s s'"
    "off \<le> k \<Longrightarrow> k < off + len \<Longrightarrow> blkno s' ip (k div BSIZE) \<noteq> 0"
    "off \<le> k \<Longrightarrow> k < off + len \<Longrightarrow> fbyte s' ip k = src (k - off)"
    "k < MAXFILE * BSIZE \<Longrightarrow> \<not> (off \<le> k \<and> k < off + len) \<Longrightarrow> blkno s ip (k div BSIZE) \<noteq> 0 \<Longrightarrow> fbyte s' ip k = fbyte s ip k"
    "(\<And>k. off \<le> k \<Longrightarrow> k < off + len \<Longrightarrow> blkno s ip (k div BSIZE) \<noteq> 0) \<Longrightarrow> icache s' = icache s"
  using assms unfolding wrote_bytes_def by blast+

lemma wrote_bytes_trans:
  assumes w: "wrote_bytes s ip off m src s1" "wrote_bytes s1 ip (off + m) l (\<lambda>k. src (m + k)) s2"
    and b: "off + m + l \<le> MAXFILE * BSIZE"
  shows "wrote_bytes s ip off (m + l) src s2"
proof -
  note e = extendsD(4) [OF wrote_bytesD(1) [OF w(1)]] extendsD(4) [OF wrote_bytesD(1) [OF w(2)]]
  have lt: "k div BSIZE < MAXFILE" if "k < MAXFILE * BSIZE" for k using that by (simp add: less_mult_imp_div_less)
  have new: "blkno s2 ip (k div BSIZE) \<noteq> 0 \<and> fbyte s2 ip k = src (k - off)" if k: "off \<le> k" "k < off + (m + l)" for k
  proof (cases "k < off + m")
    case True
    have k1: "blkno s1 ip (k div BSIZE) \<noteq> 0" "fbyte s1 ip k = src (k - off)"
      using wrote_bytesD(3,4) [OF w(1) k(1) True] by simp_all
    then show ?thesis using e(2) [of "k div BSIZE"] lt [of k] wrote_bytesD(5) [OF w(2), of k] True k b by auto
  next
    case False
    then show ?thesis using wrote_bytesD(3,4) [OF w(2), of k] k by (auto simp: add.commute)
  qed
  have old: "fbyte s2 ip k = fbyte s ip k"
    if k: "k < MAXFILE * BSIZE" "\<not> (off \<le> k \<and> k < off + (m + l))" "blkno s ip (k div BSIZE) \<noteq> 0" for k
    using wrote_bytesD(5) [OF w(1) k(1) _ k(3)] wrote_bytesD(5) [OF w(2) k(1)] e(1) [OF lt [OF k(1)] k(3)] k by auto
  have ic: "icache s2 = icache s" if "\<forall>k. off \<le> k \<and> k < off + (m + l) \<longrightarrow> blkno s ip (k div BSIZE) \<noteq> 0"
  proof -
    have "icache s1 = icache s" using that by (intro wrote_bytesD(6) [OF w(1)]) auto
    moreover have "icache s2 = icache s1"
    proof (intro wrote_bytesD(6) [OF w(2)])
      fix k assume k: "off + m \<le> k" "k < off + m + l"
      then have nz: "blkno s ip (k div BSIZE) \<noteq> 0" using that by auto
      moreover have "k div BSIZE < MAXFILE" using k b lt by auto
      ultimately show "blkno s1 ip (k div BSIZE) \<noteq> 0" using e(1) by metis
    qed
    ultimately show ?thesis by simp
  qed
  show ?thesis unfolding wrote_bytes_def
    using extends_trans [OF wrote_bytesD(1) [OF w(1)] wrote_bytesD(1) [OF w(2)]]
      ino_frame_trans [OF wrote_bytesD(2) [OF w(1)] wrote_bytesD(2) [OF w(2)]] new old ic by blast
qed

lemma wrote_bytes_0: "fs_wf s \<Longrightarrow> ino_ok s ip \<Longrightarrow> wrote_bytes s ip off 0 src s"
  using growD(1) [OF grown_refl] by (auto simp: wrote_bytes_def)

lemma writei_loop_ok:
  "fs_wf s \<Longrightarrow> ino_ok s ip \<Longrightarrow> tot \<le> n \<Longrightarrow> off + (n - tot) \<le> MAXFILE * BSIZE \<Longrightarrow>
   post (writei_loop s ip src tot off n) (\<lambda>s'. wrote_bytes s ip off (n - tot) (\<lambda>k. src (tot + k)) s')"
proof (induction "n - tot" arbitrary: s off tot rule: less_induct)
  case less
  show ?case
  proof (cases "tot < n")
    case True
    define m where m_def: "m = min (n - tot) (BSIZE - off mod BSIZE)"
    have m: "0 < m" "m \<le> BSIZE - off mod BSIZE" "m \<le> n - tot" using True by (simp_all add: m_def BSIZE_def)
    have bn: "off div BSIZE < MAXFILE" using less(5) True by (simp add: div_less_iff_less_mult BSIZE_def)
    have step: "post (writei_loop s2 ip src (tot + m) (off + m) n) (\<lambda>s'. wrote_bytes s ip off (n - tot) (\<lambda>k. src (tot + k)) s')"
      if w: "wrote_bytes s ip off m (\<lambda>k. src (tot + k)) s2" for s2
    proof -
      note e = wrote_bytesD(1) [OF w]
      have "post (writei_loop s2 ip src (tot + m) (off + m) n)
          (\<lambda>s'. wrote_bytes s2 ip (off + m) (n - (tot + m)) (\<lambda>k. src (tot + m + k)) s')"
        using m less(5) True by (intro less(1) extendsD(1,2) [OF e]) auto
      then show ?thesis
      proof (rule post_mono)
        fix s' assume "wrote_bytes s2 ip (off + m) (n - (tot + m)) (\<lambda>k. src (tot + m + k)) s'"
        then have "wrote_bytes s2 ip (off + m) (n - (tot + m)) (\<lambda>k. src (tot + (m + k))) s'" by (simp only: add.assoc)
        moreover have "off + m + (n - (tot + m)) \<le> MAXFILE * BSIZE" using m(3) less(5) by linarith
        ultimately have "wrote_bytes s ip off (m + (n - (tot + m))) (\<lambda>k. src (tot + k)) s'"
          by (rule wrote_bytes_trans [OF w])
        moreover have "m + (n - (tot + m)) = n - tot" using m(3) by linarith
        ultimately show "wrote_bytes s ip off (n - tot) (\<lambda>k. src (tot + k)) s'" by (simp only:)
      qed
    qed
    have seg: "map src [tot..<tot + m] = map (\<lambda>k. src (tot + k)) [0..<m]"
      by (rule nth_equalityI) simp_all
    show ?thesis
      apply (subst writei_loop.simps)
      apply (simp add: True Let_def m_def [symmetric] seg)
      apply (rule post_mono [OF bmap_ok [OF less(2,3) bn]])
      apply (auto intro!: fs_bread_post fs_log_write_post fs_brelse_post step write_chunk [OF _ less(2,3) m(1,2) bn])
      apply (simp_all add: env_def)
      done
  next
    case False
    then show ?thesis using less(2,3) by (subst writei_loop.simps) (simp add: wrote_bytes_0)
  qed
qed

section \<open>Disk inodes\<close>

lemma length_put_addrs [simp]: "length (put_addrs d off as) = length d"
  by (induction as arbitrary: d off) simp_all

lemma nth_put_addrs_other: "i < off \<or> off + 4 * length as \<le> i \<Longrightarrow> put_addrs d off as ! i = d ! i"
  by (induction as arbitrary: d off) (auto simp: nth_put32_other)

lemma get32_put_addrs:
  "i < length as \<Longrightarrow> off + 4 * length as \<le> length d \<Longrightarrow> get32 (put_addrs d off as) (off + 4 * i) = as ! i"
proof (induction as arbitrary: d off i)
  case (Cons a as)
  show ?case
  proof (cases i)
    case 0
    have "get32 (put_addrs (put32 d off a) (off + 4) as) off = get32 (put32 d off a) off"
      by (simp add: get32_def nth_put_addrs_other)
    then show ?thesis using 0 Cons.prems by simp
  next
    case (Suc j)
    then show ?thesis using Cons.IH [of j "off + 4" "put32 d off a"] Cons.prems by (simp add: add.assoc)
  qed
qed simp

lemma length_put_dinode [simp]: "length (put_dinode d k di) = length d"
  by (simp add: put_dinode_def Let_def)

lemma put_dinode_other:
  assumes "i < 64 * k \<or> 64 * k + 64 \<le> i" and "length (d_addrs di) = NDIRECT + 1"
  shows "put_dinode d k di ! i = d ! i"
proof -
  have n: "put16 d' off v ! i = d' ! i" if "i < off \<or> off + 1 < i" for d' off v using that by (auto simp: put16_def)
  have "i < 64 * k + 12 \<or> 64 * k + 12 + 4 * length (d_addrs di) \<le> i" using assms by (auto simp: NDIRECT_def)
  then show ?thesis
    using assms(1) by (auto simp: put_dinode_def Let_def nth_put_addrs_other nth_put32_other n)
qed

lemma get_put_dinode:
  assumes "64 * k + 64 \<le> length d" and "length (d_addrs di) = NDIRECT + 1"
  shows "get_dinode (put_dinode d k di) k = di"
proof -
  let ?o = "64 * k"
  let ?d = "put32 (put16 (put16 (put16 (put16 d ?o (d_type di)) (?o + 2) (d_major di)) (?o + 4) (d_minor di))
       (?o + 6) (d_nlink di)) (?o + 8) (d_size di)"
  have e: "put_dinode d k di = put_addrs ?d (?o + 12) (d_addrs di)" by (simp add: put_dinode_def Let_def)
  have low: "put_dinode d k di ! i = ?d ! i" if "i < ?o + 12" for i using that by (simp add: e nth_put_addrs_other)
  have g16: "get16 (put_dinode d k di) j = get16 ?d j" if "j < ?o + 11" for j using that low by (simp add: get16_def)
  have g32: "get32 (put_dinode d k di) (?o + 8) = get32 ?d (?o + 8)" using low by (simp add: get32_def)
  have p32: "get16 (put32 d' (?o + 8) v) j = get16 d' j" if "j < ?o + 7" for j d' v
    using that by (simp add: get16_def nth_put32_other)
  have addrs: "map (\<lambda>i. get32 (put_dinode d k di) (?o + 12 + 4 * i)) [0..<NDIRECT + 1] = d_addrs di"
    using assms get32_put_addrs [of _ "d_addrs di" "?o + 12" ?d]
    by (intro nth_equalityI) (auto simp: e NDIRECT_def)
  show ?thesis
    using assms addrs
    by (simp add: get_dinode_def Let_def g16 g32 p32 get16_put16_other del: One_nat_def)
qed

lemma get_put_dinode_other:
  assumes "j \<noteq> k" and "length (d_addrs di) = NDIRECT + 1"
  shows "get_dinode (put_dinode d k di) j = get_dinode d j"
proof -
  have n: "put_dinode d k di ! i = d ! i" if "64 * j \<le> i" "i < 64 * j + 64" for i
    using assms that by (intro put_dinode_other) auto
  have g16: "get16 (put_dinode d k di) i = get16 d i" if "64 * j \<le> i" "i + 1 < 64 * j + 64" for i
    using that n by (simp add: get16_def)
  have g32: "get32 (put_dinode d k di) i = get32 d i" if "64 * j \<le> i" "i + 3 < 64 * j + 64" for i
    using that n by (simp add: get32_def)
  have "map (\<lambda>i. get32 (put_dinode d k di) (64 * j + 12 + 4 * i)) [0..<NDIRECT + 1] =
      map (\<lambda>i. get32 d (64 * j + 12 + 4 * i)) [0..<NDIRECT + 1]"
    by (rule map_cong) (auto simp: g32 NDIRECT_def)
  then show ?thesis by (simp add: get_dinode_def Let_def g16 g32 del: upt_Suc)
qed

text \<open>
  The inode cache is write-through: \<open>synced s ip\<close> says that the disk inode is the copy in
  memory.
\<close>

definition inode_here :: "'a fstate_scheme \<Rightarrow> nat \<Rightarrow> bool" where
  "inode_here s ip \<longleftrightarrow> unat (i_inum (icache s ip)) < unat (sb_ninodes (f_sb s))"

definition synced :: "'a fstate_scheme \<Rightarrow> nat \<Rightarrow> bool" where
  "synced s ip \<longleftrightarrow>
     get_dinode (f_disk s (IBLOCK (i_inum (icache s ip)) (f_sb s))) (unat (i_inum (icache s ip)) mod IPB) = i_d (icache s ip)"

lemma iupdate_disk:
  "post (iupdate s ip) (\<lambda>s'. blk_frame s s' \<and> f_sb s' = f_sb s \<and>
     f_disk s' = (let i = icache s ip; ib = IBLOCK (i_inum i) (f_sb s) in
       (f_disk s)(ib := put_dinode (f_disk s ib) (unat (i_inum i) mod IPB) (i_d i))))"
  unfolding iupdate_def Let_def
  by (auto intro!: fs_bread_post fs_log_write_post fs_brelse_post simp: blk_frame_def env_def)

lemma iupdate_ok:
  assumes wf: "fs_wf s" and io: "ino_ok s ip" "inode_here s ip"
  shows "post (iupdate s ip) (\<lambda>s'. fs_wf s' \<and> ino_ok s' ip \<and> synced s' ip \<and> blk_frame s s' \<and> f_sb s' = f_sb s \<and>
    (\<forall>b. b \<noteq> IBLOCK (i_inum (icache s ip)) (f_sb s) \<longrightarrow> f_disk s' b = f_disk s b) \<and>
    (\<forall>b. unat b < fs_size s \<longrightarrow> used s' b = used s b))"
proof -
  let ?i = "icache s ip"
  let ?ib = "IBLOCK (i_inum ?i) (f_sb s)" and ?k = "unat (i_inum ?i) mod IPB"
  note ib = unat_IBLOCK [OF wf io(2) [unfolded inode_here_def]]
  have n1: "?ib \<noteq> 1" using ib(2) by auto
  have nb: "?ib \<noteq> BBLOCK c (f_sb s)" if "unat c < fs_size s" for c
    using unat_BBLOCK(3) [OF wf that] ib(3) by auto
  have no: "?ib \<notin> owned s ip" using ino_okD(5) [OF io(1), of ?ib] ib(3) by (auto simp: dstart_def)
  have k: "?k < 8" by (simp add: IPB_def)
  have good: "fs_wf s' \<and> ino_ok s' ip \<and> synced s' ip \<and> (\<forall>b. unat b < fs_size s \<longrightarrow> used s' b = used s b)"
    if s': "f_disk s' = (f_disk s)(?ib := put_dinode (f_disk s ?ib) ?k (i_d ?i))" "f_sb s' = f_sb s" "f_dsz s' = f_dsz s"
      "icache s' = icache s" for s'
  proof -
    have sz: "fs_size s' = fs_size s" "dstart s' = dstart s" by (simp_all add: fs_size_def dstart_def s')
    have u: "used s' b = used s b" if "unat b < fs_size s" for b using nb [OF that] by (auto simp: used_def s')
    have w: "fs_wf s'" unfolding fs_wf_def sz
      using wf u n1 fs_wfD(6) [OF wf] by (auto simp: fs_wf_def s')
    have ind: "ind_blk s' ip = ind_blk s ip" by (simp add: ind_blk_def s')
    have b: "blkno s' ip i = blkno s ip i" for i
      using no ownedI(2) [of s ip] by (auto simp: blkno_def ind s')
    have ow: "owned s' ip = owned s ip" by (simp add: owned_def b ind)
    have "ino_ok s' ip" using io(1) u unfolding ino_ok_def sz ow ind b s'(4) by auto
    moreover have "synced s' ip"
      using get_put_dinode [of ?k "f_disk s ?ib" "i_d ?i"] fs_wfD(1) [OF wf] k ino_okD(1) [OF io(1)]
      by (simp add: synced_def s' BSIZE_def)
    ultimately show ?thesis using w u by blast
  qed
  show ?thesis
  proof (rule post_mono [OF iupdate_disk])
    fix s'
    assume a: "blk_frame s s' \<and> f_sb s' = f_sb s \<and> f_disk s' = (let i = icache s ip; ib = IBLOCK (i_inum i) (f_sb s) in
       (f_disk s)(ib := put_dinode (f_disk s ib) (unat (i_inum i) mod IPB) (i_d i)))"
    then have "f_dsz s' = f_dsz s" "icache s' = icache s" by (simp_all add: blk_frame_def env_def)
    with a good [of s'] show "fs_wf s' \<and> ino_ok s' ip \<and> synced s' ip \<and> blk_frame s s' \<and> f_sb s' = f_sb s \<and>
      (\<forall>b. b \<noteq> ?ib \<longrightarrow> f_disk s' b = f_disk s b) \<and> (\<forall>b. unat b < fs_size s \<longrightarrow> used s' b = used s b)"
      by (simp add: Let_def)
  qed
qed

section \<open>Reading and writing files\<close>

text \<open>The contents of a file, and the conditions under which its operations work.\<close>

definition file_bytes :: "'a fstate_scheme \<Rightarrow> nat \<Rightarrow> uchar list" where
  "file_bytes s ip = map (fbyte s ip) [0..<isize s ip]"

definition file_ok :: "'a fstate_scheme \<Rightarrow> nat \<Rightarrow> bool" where
  "file_ok s ip \<longleftrightarrow> fs_wf s \<and> ino_ok s ip \<and> inode_here s ip \<and> synced s ip"

lemma blk_of_byte: "ino_ok s ip \<Longrightarrow> k < isize s ip \<Longrightarrow> k div BSIZE < MAXFILE \<and> blkno s ip (k div BSIZE) \<noteq> 0"
proof -
  assume a: "ino_ok s ip" "k < isize s ip"
  have "k < MAXFILE * BSIZE" using a(2) ino_okD(7) [OF a(1)] by linarith
  then have m: "k div BSIZE < MAXFILE" by (simp add: less_mult_imp_div_less)
  moreover have "k div BSIZE * BSIZE < isize s ip" using a(2) by (meson div_times_less_eq_dividend le_less_trans)
  ultimately show ?thesis using ino_okD(8) [OF a(1)] by blast
qed

lemma file_cong:
  assumes io: "ino_ok s jp" and s': "icache s' jp = icache s jp" "f_sb s' = f_sb s"
    and d: "\<And>b. b \<in> owned s jp \<Longrightarrow> f_disk s' b = f_disk s b" and u: "\<And>b. b \<in> owned s jp \<Longrightarrow> used s' b"
  shows "ino_ok s' jp" "owned s' jp = owned s jp" "file_bytes s' jp = file_bytes s jp"
proof -
  have sz: "fs_size s' = fs_size s" "dstart s' = dstart s" by (simp_all add: fs_size_def dstart_def s')
  have ind: "ind_blk s' jp = ind_blk s jp" by (simp add: ind_blk_def s')
  have b: "blkno s' jp i = blkno s jp i" for i using d [OF ownedI(2)] by (auto simp: blkno_def ind s')
  show ow: "owned s' jp = owned s jp" by (simp add: owned_def b ind)
  show "ino_ok s' jp" using io u unfolding ino_ok_def sz ow ind b s'(1) by auto
  have "fbyte s' jp k = fbyte s jp k" if "k < isize s jp" for k
    using blk_of_byte [OF io that] d [OF ownedI(1)] by (simp add: fbyte_def b)
  then show "file_bytes s' jp = file_bytes s jp" by (simp add: file_bytes_def s')
qed

lemma foreign_owned:
  assumes "fs_wf s" and "ino_ok s jp" and "owned s ip \<inter> owned s jp = {}" and "b \<in> owned s jp"
  shows "foreign s ip b"
  using assms(3,4) ino_okD(4,6) [OF assms(2,4)] owned_not_bmap [OF assms(1,2,4)] by (auto simp: foreign_def)

lemma foreign_inode:
  assumes "fs_wf s" and "ino_ok s ip" and "unat i < unat (sb_ninodes (f_sb s))"
  shows "foreign s ip (IBLOCK i (f_sb s))"
proof -
  let ?ib = "IBLOCK i (f_sb s)"
  note ib = unat_IBLOCK [OF assms(1,3)]
  have low: "unat ?ib < dstart s" using ib(3) by (simp add: dstart_def)
  then have "unat ?ib < fs_size s" using fs_wfD(6) [OF assms(1)] by linarith
  moreover have "?ib \<noteq> BBLOCK c (f_sb s)" if "unat c < fs_size s" for c using unat_BBLOCK(3) [OF assms(1) that] ib(3) by auto
  ultimately show ?thesis
    using low fs_wfD(7) [OF assms(1), of ?ib] ino_okD(5) [OF assms(2), of ?ib] by (auto simp: foreign_def)
qed

text \<open>The result of a write of \<open>n\<close> bytes at \<open>off\<close>.\<close>

definition written :: "'a fstate_scheme \<Rightarrow> nat \<Rightarrow> nat \<Rightarrow> nat \<Rightarrow> (nat \<Rightarrow> uchar) \<Rightarrow> 'a fstate_scheme \<Rightarrow> bool" where
  "written s ip off n src s' \<longleftrightarrow> file_ok s' ip \<and> d_type (i_d (icache s' ip)) = d_type (i_d (icache s ip)) \<and>
     file_bytes s' ip = take off (file_bytes s ip) @ map src [0..<n] @ drop (off + n) (file_bytes s ip) \<and>
     (\<forall>jp. jp \<noteq> ip \<and> ino_ok s jp \<and> owned s ip \<inter> owned s jp = {} \<longrightarrow>
        ino_ok s' jp \<and> owned s' ip \<inter> owned s' jp = {} \<and> file_bytes s' jp = file_bytes s jp)"

lemma write_bytes_eq:
  assumes "length f = sz" and "off \<le> sz" and "\<And>k. off \<le> k \<Longrightarrow> k < off + n \<Longrightarrow> g k = src (k - off)"
    and "\<And>k. k < sz \<Longrightarrow> \<not> (off \<le> k \<and> k < off + n) \<Longrightarrow> g k = f ! k" and "sz' = max sz (off + n)"
  shows "map g [0..<sz'] = take off f @ map src [0..<n] @ drop (off + n) f"
  using assms by (intro nth_equalityI) (auto simp: nth_append)

lemma others_kept:
  assumes wf: "fs_wf s" "ino_ok s ip" and here: "inode_here s ip" and e: "extends s ip s1" and jp: "jp \<noteq> ip" "ino_ok s jp" "owned s ip \<inter> owned s jp = {}"
    and s2: "icache s2 jp = icache s1 jp" "f_sb s2 = f_sb s1" "owned s2 ip = owned s1 ip"
    and d: "\<And>b. b \<noteq> IBLOCK (i_inum (icache s ip)) (f_sb s) \<Longrightarrow> f_disk s2 b = f_disk s1 b"
    and u: "\<And>b. unat b < fs_size s \<Longrightarrow> used s2 b = used s1 b"
  shows "ino_ok s2 jp \<and> owned s2 ip \<inter> owned s2 jp = {} \<and> file_bytes s2 jp = file_bytes s jp"
proof -
  have m: "f_sb s1 = f_sb s" "icache s1 jp = icache s jp" using extendsD(3) [OF e] jp(1) by (simp_all add: meta_kept_def)
  have nib: "IBLOCK (i_inum (icache s ip)) (f_sb s) \<notin> owned s jp"
    using ino_okD(5) [OF jp(2)] unat_IBLOCK(3) [OF wf(1) here [unfolded inode_here_def]] by (force simp: dstart_def)
  have k: "f_disk s2 b = f_disk s b" "used s2 b" if "b \<in> owned s jp" for b
  proof -
    have f: "foreign s ip b" by (rule foreign_owned [OF wf(1) jp(2,3) that])
    then show "f_disk s2 b = f_disk s b" using extendsD(7) [OF e] d [of b] nib that by auto
    show "used s2 b" using f extendsD(5) [OF e] u [of b] by (simp add: foreign_def)
  qed
  note c = file_cong [OF jp(2), of s2, OF _ _ k]
  have "owned s1 ip \<inter> owned s jp = {}" using extendsD(6) [OF e] jp(3) ino_okD(4) [OF jp(2)] by blast
  then show ?thesis using c s2 m by simp
qed

lemma wrote_size:
  assumes "wrote_bytes s ip off n src s1"
  shows "isize s1 ip = isize s ip" "i_inum (icache s1 ip) = i_inum (icache s ip)" "f_sb s1 = f_sb s" "fs_size s1 = fs_size s"
proof -
  show "isize s1 ip = isize s ip" "f_sb s1 = f_sb s" "fs_size s1 = fs_size s"
    using meta_kept_size [OF extendsD(3) [OF wrote_bytesD(1) [OF assms]]] by simp_all
  have "iids s1 ip = iids s ip" using wrote_bytesD(2) [OF assms] by (simp add: ino_frame_def)
  then show "i_inum (icache s1 ip) = i_inum (icache s ip)" by (simp add: iids_def)
qed

lemma written_inside:
  assumes ok: "file_ok s ip" and w: "wrote_bytes s ip off n src s1" and r: "off \<le> isize s ip" "n = 0 \<or> off + n \<le> isize s ip"
  shows "written s ip off n src s1"
proof -
  have wf: "fs_wf s" "ino_ok s ip" "inode_here s ip" "synced s ip" using ok by (simp_all add: file_ok_def)
  note e = wrote_bytesD(1) [OF w]
  note sz = wrote_size [OF w]
  have "icache s1 = icache s" using blk_of_byte [OF wf(2)] r(2) by (intro wrote_bytesD(6) [OF w]) auto
  moreover have "f_disk s1 (IBLOCK (i_inum (icache s ip)) (f_sb s)) = f_disk s (IBLOCK (i_inum (icache s ip)) (f_sb s))"
    by (rule extendsD(7) [OF e foreign_inode [OF wf(1,2) wf(3) [unfolded inode_here_def]]])
  ultimately have "file_ok s1 ip" using extendsD(1,2) [OF e] wf(3,4) sz by (simp add: file_ok_def inode_here_def synced_def)
  moreover have "file_bytes s1 ip = take off (file_bytes s ip) @ map src [0..<n] @ drop (off + n) (file_bytes s ip)"
    unfolding file_bytes_def [of s1] sz(1)
  proof (rule write_bytes_eq)
    show "fbyte s1 ip k = file_bytes s ip ! k" if "k < isize s ip" "\<not> (off \<le> k \<and> k < off + n)" for k
      using that wrote_bytesD(5) [OF w, of k] blk_of_byte [OF wf(2) that(1)] ino_okD(7) [OF wf(2)] by (simp add: file_bytes_def)
  qed (use r wrote_bytesD(4) [OF w] in \<open>auto simp: file_bytes_def\<close>)
  ultimately show ?thesis
    unfolding written_def using others_kept [OF wf(1-3) e, where ?s2.0 = s1] meta_kept_type [OF extendsD(3) [OF e]] by simp
qed

lemma resize_ok:
  assumes io: "ino_ok s ip" and sz: "unat sz \<le> MAXFILE * BSIZE" "\<And>i. i < MAXFILE \<Longrightarrow> i * BSIZE < unat sz \<Longrightarrow> blkno s ip i \<noteq> 0"
  defines "s2 \<equiv> upd_d ip (\<lambda>d. d\<lparr>d_size := sz\<rparr>) s"
  shows "ino_ok s2 ip" "blkno s2 ip = blkno s ip" "owned s2 ip = owned s ip" "fbyte s2 ip = fbyte s ip" "isize s2 ip = unat sz"
proof -
  have ind: "ind_blk s2 ip = ind_blk s ip" by (simp add: ind_blk_def s2_def)
  show b: "blkno s2 ip = blkno s ip" by (auto simp: fun_eq_iff blkno_def ind) (simp_all add: s2_def)
  show ow: "owned s2 ip = owned s ip" by (simp add: owned_def b ind)
  show "isize s2 ip = unat sz" by (simp add: s2_def)
  show "fbyte s2 ip = fbyte s ip" by (simp add: fun_eq_iff fbyte_def b) (simp add: s2_def)
  show "ino_ok s2 ip" using io sz unfolding ino_ok_def ow b ind by (auto simp: s2_def)
qed

lemma written_beyond:
  assumes ok: "file_ok s ip" and w: "wrote_bytes s ip off n src s1" and r: "off \<le> isize s ip" "isize s ip < off + n" "off + n \<le> MAXFILE * BSIZE"
    and sz: "unat sz = off + n"
  shows "post (iupdate (upd_d ip (\<lambda>d. d\<lparr>d_size := sz\<rparr>) s1) ip) (\<lambda>s'. written s ip off n src s')"
proof -
  let ?s2 = "upd_d ip (\<lambda>d. d\<lparr>d_size := sz\<rparr>) s1"
  have wf: "fs_wf s" "ino_ok s ip" "inode_here s ip" using ok by (simp_all add: file_ok_def)
  note e = wrote_bytesD(1) [OF w]
  note ws = wrote_size [OF w]
  have B: "0 < BSIZE" by (simp add: BSIZE_def)
  have full: "blkno s1 ip i \<noteq> 0" if "i < MAXFILE" "i * BSIZE < unat sz" for i
  proof (cases "i * BSIZE < isize s ip")
    case True
    then have "blkno s ip i \<noteq> 0" by (rule ino_okD(8) [OF wf(2) that(1)])
    then show ?thesis using extendsD(4) [OF e that(1)] by simp
  next
    case False
    then show ?thesis using wrote_bytesD(3) [OF w, of "i * BSIZE"] that(2) r(1) sz B by simp
  qed
  note rs = resize_ok [OF extendsD(2) [OF e], of sz, OF _ full]
  have r2: "fs_wf ?s2" "ino_ok ?s2 ip" "inode_here ?s2 ip"
    using extendsD(1) [OF e] rs(1) r(3) sz wf(3) ws by (simp_all add: inode_here_def)
  show ?thesis
  proof (rule post_mono [OF iupdate_ok [OF r2]])
    fix s'
    let ?ib = "IBLOCK (i_inum (icache ?s2 ip)) (f_sb ?s2)"
    assume "fs_wf s' \<and> ino_ok s' ip \<and> synced s' ip \<and> blk_frame ?s2 s' \<and> f_sb s' = f_sb ?s2 \<and>
      (\<forall>b. b \<noteq> ?ib \<longrightarrow> f_disk s' b = f_disk ?s2 b) \<and> (\<forall>b. unat b < fs_size ?s2 \<longrightarrow> used s' b = used ?s2 b)"
    then have p: "fs_wf s'" "ino_ok s' ip" "synced s' ip" "icache s' = icache ?s2" "f_sb s' = f_sb s1"
      "\<And>b. b \<noteq> ?ib \<Longrightarrow> f_disk s' b = f_disk s1 b" "\<And>b. unat b < fs_size s \<Longrightarrow> used s' b = used s1 b"
      using ws by (simp_all add: blk_frame_def)
    have "foreign ?s2 ip ?ib" using r2(3) by (intro foreign_inode [OF r2(1,2)]) (simp add: inode_here_def)
    then have "f_disk s' b = f_disk ?s2 b" if "b \<in> owned ?s2 ip" for b
      using that p(6) [of b] by (cases "b = ?ib") (auto simp: foreign_def)
    moreover have "used s' b" if "b \<in> owned ?s2 ip" for b
      using that ino_okD(4,6) [OF r2(2)] p(7) ws(4) by simp
    ultimately have c: "owned s' ip = owned ?s2 ip" "file_bytes s' ip = file_bytes ?s2 ip"
      using file_cong [OF r2(2), of s'] p(4,5) by simp_all
    have "file_bytes ?s2 ip = take off (file_bytes s ip) @ map src [0..<n] @ drop (off + n) (file_bytes s ip)"
      unfolding file_bytes_def [of ?s2]
    proof (rule write_bytes_eq)
      show "fbyte ?s2 ip k = file_bytes s ip ! k" if "k < isize s ip" "\<not> (off \<le> k \<and> k < off + n)" for k
        using that wrote_bytesD(5) [OF w, of k] blk_of_byte [OF wf(2) that(1)] ino_okD(7) [OF wf(2)] rs(4) r(3) sz
        by (simp add: file_bytes_def)
    qed (use r sz wrote_bytesD(4) [OF w] rs(4,5) in \<open>auto simp: file_bytes_def\<close>)
    moreover have "file_ok s' ip" using p(1-5) r2(3) by (simp add: file_ok_def inode_here_def)
    ultimately show "written s ip off n src s'" unfolding written_def
      using c others_kept [OF wf e, where ?s2.0 = s'] p(4-7) rs(3) r(3) sz ws meta_kept_type [OF extendsD(3) [OF e]] by simp
  qed
qed

lemma MAXFILE_bytes: "MAXFILE * BSIZE = 71680"
  by (simp add: MAXFILE_def NDIRECT_def NINDIRECT_def BSIZE_def)

lemma sint_unat: "unat n < 2147483648 \<Longrightarrow> sint (n :: u32) = int (unat n)"
proof -
  assume a: "unat n < 2147483648"
  have "sint (of_nat m :: u32) = int m" if "m < 2147483648" for m
    using that by (simp add: signed_of_nat signed_take_bit_int_eq_self)
  from this [OF a] show ?thesis by simp
qed

lemma range_words:
  assumes "unat off \<le> unat (sz :: u32)" and "unat off + unat n \<le> MAXFILE * BSIZE"
  shows "unat (off + n) = unat off + unat n" "\<not> sz < off" "\<not> off + n < off" "\<not> of_nat (MAXFILE * BSIZE) < off + n"
    "sint n = int (unat n)" "off + n > sz \<longleftrightarrow> unat sz < unat off + unat n"
proof -
  show u: "unat (off + n) = unat off + unat n" using assms(2) by (simp add: MAXFILE_bytes unat_word_ariths)
  have m: "unat (of_nat (MAXFILE * BSIZE) :: u32) = 71680" by (simp add: MAXFILE_bytes unat_of_nat)
  show "\<not> sz < off" "\<not> off + n < off" "off + n > sz \<longleftrightarrow> unat sz < unat off + unat n"
    using assms(1) by (simp_all add: word_less_nat_alt u)
  show "\<not> of_nat (MAXFILE * BSIZE) < off + n" using assms(2) by (simp only: word_less_nat_alt u m) (simp add: MAXFILE_bytes)
  show "sint n = int (unat n)" using assms(2) by (intro sint_unat) (simp add: MAXFILE_bytes)
qed

lemma writei_ok:
  assumes ok: "file_ok s ip" and ty: "d_type (i_d (icache s ip)) \<noteq> T_DEV"
    and r: "unat off \<le> isize s ip" "unat off + unat n \<le> MAXFILE * BSIZE"
  shows "post (writei devsw s ip src off n) (\<lambda>(s', x). x = int (unat n) \<and> written s ip (unat off) (unat n) src s')"
proof -
  note w = range_words [OF r]
  have wf: "fs_wf s" "ino_ok s ip" using ok by (simp_all add: file_ok_def)
  have "post (writei_loop s ip src 0 (unat off) (unat n)) (\<lambda>s'. wrote_bytes s ip (unat off) (unat n) src s')"
    using writei_loop_ok [OF wf, of 0 "unat n" "unat off" src] r by simp
  then have "post (writei_loop s ip src 0 (unat off) (unat n)) (\<lambda>s1. post
      (if n > 0 \<and> off + n > d_size (i_d (icache s1 ip)) then
          bnd (iupdate (upd_d ip (\<lambda>d. d\<lparr>d_size := off + n\<rparr>) s1) ip) (\<lambda>s. ok (s, sint n))
        else ok (s1, sint n)) (\<lambda>(s', x). x = int (unat n) \<and> written s ip (unat off) (unat n) src s'))"
  proof (rule post_mono)
    fix s1 assume b: "wrote_bytes s ip (unat off) (unat n) src s1"
    have sz: "d_size (i_d (icache s1 ip)) = d_size (i_d (icache s ip))"
      using wrote_size(1) [OF b] by (simp add: word_unat_eq_iff)
    show "post (if n > 0 \<and> off + n > d_size (i_d (icache s1 ip)) then
          bnd (iupdate (upd_d ip (\<lambda>d. d\<lparr>d_size := off + n\<rparr>) s1) ip) (\<lambda>s. ok (s, sint n))
        else ok (s1, sint n)) (\<lambda>(s', x). x = int (unat n) \<and> written s ip (unat off) (unat n) src s')"
    proof (cases "n > 0 \<and> off + n > d_size (i_d (icache s1 ip))")
      case True
      then have "isize s ip < unat off + unat n" using w(6) sz by simp
      from written_beyond [OF ok b r(1) this r(2) w(1)] True w(5) show ?thesis by (simp cong: if_cong)
    next
      case False
      then have "unat n = 0 \<or> unat off + unat n \<le> isize s ip" using w(6) sz by (auto simp: word_gt_0)
      from written_inside [OF ok b r(1) this] False w(5) show ?thesis by auto
    qed
  qed
  then show ?thesis using ty w by (simp add: writei_def Let_def)
qed

text \<open>The buffers an operation on a file may need: one free one, and nobody holds its blocks.\<close>

definition buffers_free :: "'a fstate_scheme \<Rightarrow> nat \<Rightarrow> bool" where
  "buffers_free s ip \<longleftrightarrow> i_dev (icache s ip) = 1 \<and> card (logged_blks (f_log s) \<union> set (f_held s)) < NBUF \<and>
     set (f_held s) \<inter> owned s ip = {}"

lemma fs_bread_gives:
  assumes "fs_wf s" and "ino_ok s ip" and "buffers_free s ip" and "b \<in> owned s ip"
  shows "fs_bread s (i_dev (icache s ip)) b = ok (s\<lparr>f_held := b # f_held s\<rparr>, f_disk s b)"
    "fs_brelse (s\<lparr>f_held := b # f_held s\<rparr>) b = ok s"
proof -
  have "b < f_dsz s" using ino_okD(6) [OF assms(2,4)] fs_wfD(3) [OF assms(1)] by (simp add: word_less_nat_alt)
  then show "fs_bread s (i_dev (icache s ip)) b = ok (s\<lparr>f_held := b # f_held s\<rparr>, f_disk s b)"
    using assms(3,4) by (auto simp: fs_bread_def buffers_free_def)
qed (simp add: fs_brelse_def)

lemma bmap_gives:
  assumes "fs_wf s" and "ino_ok s ip" and "buffers_free s ip" and "bn < MAXFILE" and "blkno s ip bn \<noteq> 0"
  shows "bmap s ip bn = ok (s, blkno s ip bn)"
proof (cases "bn < NDIRECT")
  case False
  then have i: "ind_blk s ip \<noteq> 0" "blkno s ip bn = get32 (f_disk s (ind_blk s ip)) (4 * (bn - NDIRECT))"
    using assms(5) by (auto simp: blkno_def split: if_splits)
  have "bn - NDIRECT < NINDIRECT" using assms(4) False by (simp add: MAXFILE_def)
  then show ?thesis
    using False i assms(5) fs_bread_gives [OF assms(1-3) ownedI(2) [OF i(1)]]
    by (simp add: bmap_def Let_def ind_blk_def bmap_indirect_def)
qed (use assms in \<open>simp add: bmap_def Let_def blkno_direct\<close>)

lemma readi_loop_gives:
  assumes "fs_wf s" and "ino_ok s ip" and "buffers_free s ip" and "off + n \<le> isize s ip"
  shows "readi_loop s ip off n = ok (s, map (fbyte s ip) [off..<off + n])"
  using assms(4)
proof (induction n arbitrary: off rule: less_induct)
  case (less n)
  show ?case
  proof (cases "n = 0")
    case False
    define m where m_def: "m = min n (BSIZE - off mod BSIZE)"
    have m: "0 < m" "m \<le> BSIZE - off mod BSIZE" "m \<le> n" using False by (simp_all add: m_def BSIZE_def)
    have b: "off div BSIZE < MAXFILE" "blkno s ip (off div BSIZE) \<noteq> 0"
      using blk_of_byte [OF assms(2), of off] less(2) False by auto
    let ?a = "blkno s ip (off div BSIZE)"
    have "take m (drop (off mod BSIZE) (f_disk s ?a)) = map (fbyte s ip) [off..<off + m]"
    proof (rule nth_equalityI)
      show "length (take m (drop (off mod BSIZE) (f_disk s ?a))) = length (map (fbyte s ip) [off..<off + m])"
        using m(2) fs_wfD(1) [OF assms(1)] by simp
      fix i assume "i < length (take m (drop (off mod BSIZE) (f_disk s ?a)))"
      then have i: "i < m" by simp
      then have e: "(off + i) div BSIZE = off div BSIZE" using chunk_block [of off "off + i" m] m(2) by simp
      then have "(off + i) mod BSIZE = off mod BSIZE + i" using block_range(2) [of off "off + i"] mod_less_divisor
        by (metis add_left_cancel div_mult_mod_eq add.assoc)
      then show "take m (drop (off mod BSIZE) (f_disk s ?a)) ! i = map (fbyte s ip) [off..<off + m] ! i"
        using i e m(2) fs_wfD(1) [OF assms(1)] by (simp add: fbyte_def)
    qed
    moreover have "readi_loop s ip (off + m) (n - m) = ok (s, map (fbyte s ip) [off + m..<off + m + (n - m)])"
      using m less(2) by (intro less(1)) auto
    moreover have "[off..<off + n] = [off..<off + m] @ [off + m..<off + m + (n - m)]"
      using m(3) upt_add_eq_append [of off "off + m" "n - m"] by simp
    ultimately show ?thesis
      using False bmap_gives [OF assms(1-3) b] fs_bread_gives [OF assms(1-3) ownedI(1) [OF b]]
      by (subst readi_loop.simps) (simp add: Let_def m_def [symmetric])
  qed (simp add: readi_loop.simps)
qed

lemma readi_gives:
  assumes ok: "fs_wf s" "ino_ok s ip" "buffers_free s ip" and ty: "d_type (i_d (icache s ip)) \<noteq> T_DEV"
    and r: "unat off \<le> isize s ip" "unat off + unat n < 4294967296"
  shows "readi devsw s ip off n = ok (s, int (min (unat n) (isize s ip - unat off)), take (unat n) (drop (unat off) (file_bytes s ip)))"
proof -
  let ?sz = "d_size (i_d (icache s ip))"
  have u: "unat (off + n) = unat off + unat n" using r(2) by (simp add: unat_word_ariths)
  define n' where "n' = (if off + n > ?sz then ?sz - off else n)"
  have n': "unat n' = min (unat n) (isize s ip - unat off)"
    using r u by (auto simp: n'_def word_less_nat_alt unat_sub word_le_nat_alt)
  have small: "isize s ip \<le> 71680" using ino_okD(7) [OF ok(2)] by (simp add: MAXFILE_bytes)
  then have si: "sint n' = int (unat n')" by (intro sint_unat) (simp add: n')
  have l: "readi_loop s ip (unat off) (unat n') = ok (s, map (fbyte s ip) [unat off..<unat off + unat n'])"
    using r n' by (intro readi_loop_gives [OF ok]) simp
  have t: "map (fbyte s ip) [unat off..<unat off + unat n'] = take (unat n) (drop (unat off) (file_bytes s ip))"
    unfolding file_bytes_def n' using r(1) by (intro nth_equalityI) auto
  have "\<not> (off > ?sz \<or> off + n < off)" using r(1) u by (simp add: word_less_nat_alt)
  then show ?thesis using ty l t si n' by (simp add: readi_def Let_def n'_def [symmetric])
qed

text \<open>
  C14. \<open>writei\<close> followed by \<open>readi\<close>: a write inside the limits of a file returns the number
  of bytes, the file then consists of its old bytes with the range replaced (and extended
  if the range goes past the end), the disk inode agrees with the one in memory, no other
  file changes, and reading the range back gives the bytes written.
\<close>

theorem writei_readi:
  assumes "file_ok s ip" and "d_type (i_d (icache s ip)) \<noteq> T_DEV"
    and "unat off \<le> isize s ip" and "unat off + unat n \<le> MAXFILE * BSIZE"
    and "writei devsw s ip src off n = ok (s', x)"
  shows "x = int (unat n) \<and> file_ok s' ip \<and>
    file_bytes s' ip = take (unat off) (file_bytes s ip) @ map src [0..<unat n] @ drop (unat off + unat n) (file_bytes s ip) \<and>
    (\<forall>jp. jp \<noteq> ip \<and> ino_ok s jp \<and> owned s ip \<inter> owned s jp = {} \<longrightarrow>
        ino_ok s' jp \<and> owned s' ip \<inter> owned s' jp = {} \<and> file_bytes s' jp = file_bytes s jp) \<and>
    (buffers_free s' ip \<longrightarrow>
       readi devsw s' ip off n = ok (s', int (unat n), map src [0..<unat n]))"
proof -
  have w: "x = int (unat n)" "written s ip (unat off) (unat n) src s'"
    using postD [OF writei_ok [OF assms(1-4)] assms(5)] by simp_all
  have f: "file_bytes s' ip = take (unat off) (file_bytes s ip) @ map src [0..<unat n] @ drop (unat off + unat n) (file_bytes s ip)"
    using w(2) by (simp add: written_def)
  have l: "length (take (unat off) (file_bytes s ip)) = unat off" using assms(3) by (simp add: file_bytes_def)
  have "isize s' ip = length (file_bytes s' ip)" by (simp add: file_bytes_def)
  then have sz: "unat off + unat n \<le> isize s' ip" using l by (simp add: f)
  have "take (unat n) (drop (unat off) (file_bytes s' ip)) = map src [0..<unat n]" using l by (simp add: f)
  then have "readi devsw s' ip off n = ok (s', int (unat n), map src [0..<unat n])"
    if "buffers_free s' ip"
    using readi_gives [of s' ip off n devsw] that w(2) sz assms(2,4) by (simp add: written_def file_ok_def MAXFILE_bytes)
  then show ?thesis using w unfolding written_def by blast
qed

section \<open>Returning\<close>

text \<open>
  \<open>room s k\<close>: the log takes \<open>k\<close> more blocks in this operation. With more room than buffers
  held, the cache has a free buffer.
\<close>

definition room :: "'a fstate_scheme \<Rightarrow> nat \<Rightarrow> bool" where
  "room s k \<longleftrightarrow> 0 \<le> lh_n (f_log s) \<and> lh_n (f_log s) + int k \<le> int LOGSIZE \<and> lh_n (f_log s) + int k \<le> log_size (f_log s) - 1 \<and>
     1 \<le> outstanding (f_log s) \<and> length (lh_block (f_log s)) = LOGSIZE"

lemma room_held [simp]: "room (s\<lparr>f_held := h\<rparr>) k = room s k"
  by (simp add: room_def)

lemma room_upd_inode [simp]: "room (upd_inode ip f s) k = room s k"
  by (simp add: room_def)

lemma fs_log_write_gives:
  assumes "room s (Suc k)"
  shows "\<exists>l. fs_log_write s b d = ok (s\<lparr>f_log := l, f_disk := (f_disk s)(b := d)\<rparr>) \<and>
    room (s\<lparr>f_log := l, f_disk := (f_disk s)(b := d)\<rparr>) k"
proof -
  obtain l where l: "log_add (f_log s) b = ok l" "length (lh_block l) = LOGSIZE"
    using assms by (auto simp: room_def log_add_def Let_def)
  then show ?thesis
    using log_add_n [OF l(1)] assms by (intro exI [of _ l]) (auto simp: fs_log_write_def room_def)
qed

lemma fs_bread_room:
  assumes "room s k" and "length (f_held s) < k" and "b < f_dsz s" and "b \<notin> set (f_held s)"
  shows "fs_bread s 1 b = ok (s\<lparr>f_held := b # f_held s\<rparr>, f_disk s b)"
proof -
  have "card (logged_blks (f_log s)) \<le> nat (lh_n (f_log s))"
    unfolding logged_blks_def by (metis card_length length_take min.cobounded2 order_trans)
  moreover have "card (set (f_held s)) \<le> length (f_held s)" by (rule card_length)
  moreover have "card (logged_blks (f_log s) \<union> set (f_held s)) \<le> card (logged_blks (f_log s)) + card (set (f_held s))"
    by (rule card_Un_le)
  moreover have "nat (lh_n (f_log s)) + length (f_held s) < 30" using assms(1,2) by (auto simp: room_def LOGSIZE_def)
  ultimately have "\<not> NBUF \<le> card (logged_blks (f_log s) \<union> set (f_held s))" unfolding NBUF_def by linarith
  then show ?thesis using assms(3,4) by (simp add: fs_bread_def)
qed

lemma iupdate_gives:
  assumes "fs_wf s" and "inode_here s ip" and "i_dev (icache s ip) = 1" and "room s 1" and "f_held s = []"
  shows "is_ok (iupdate s ip)"
proof -
  let ?ib = "IBLOCK (i_inum (icache s ip)) (f_sb s)"
  have "unat ?ib < dstart s" using unat_IBLOCK(3) [OF assms(1) assms(2) [unfolded inode_here_def]] by (simp add: dstart_def)
  then have "?ib < f_dsz s" using fs_wfD(3,6) [OF assms(1)] by (simp add: word_less_nat_alt)
  then have r: "fs_bread s 1 ?ib = ok (s\<lparr>f_held := [?ib]\<rparr>, f_disk s ?ib)" using fs_bread_room [OF assms(4)] assms(5) by simp
  have "room (s\<lparr>f_held := [?ib]\<rparr>) (Suc 0)" using assms(4) by simp
  from fs_log_write_gives [OF this] obtain l where
    "fs_log_write (s\<lparr>f_held := [?ib]\<rparr>) ?ib (put_dinode (f_disk s ?ib) (unat (i_inum (icache s ip)) mod IPB) (i_d (icache s ip))) =
       ok (s\<lparr>f_held := [?ib], f_log := l, f_disk := (f_disk s)(?ib := put_dinode (f_disk s ?ib) (unat (i_inum (icache s ip)) mod IPB) (i_d (icache s ip)))\<rparr>)"
    by auto
  then show ?thesis using r by (simp add: iupdate_def Let_def assms(3) fs_brelse_def)
qed

text \<open>A write inside one allocated block returns when the log takes two more blocks.\<close>

lemma writei_block_gives:
  assumes ok: "file_ok s ip" "i_dev (icache s ip) = 1" "f_held s = []" and ty: "d_type (i_d (icache s ip)) \<noteq> T_DEV"
    and r: "unat off \<le> isize s ip" "0 < unat n" "unat off mod BSIZE + unat n \<le> BSIZE"
    and b: "unat off div BSIZE < MAXFILE" "blkno s ip (unat off div BSIZE) \<noteq> 0" and room: "room s 2"
  shows "\<exists>s'. writei devsw s ip src off n = ok (s', int (unat n))"
proof -
  let ?a = "blkno s ip (unat off div BSIZE)"
  let ?d = "blit (f_disk s ?a) (unat off mod BSIZE) (map src [0..<unat n])"
  have wf: "fs_wf s" "ino_ok s ip" "inode_here s ip" using ok by (simp_all add: file_ok_def)
  have a: "?a \<in> owned s ip" by (rule ownedI(1) [OF b])
  have lt: "x < f_dsz s" if "x \<in> owned s ip" for x
    using ino_okD(6) [OF wf(2) that] fs_wfD(3) [OF wf(1)] by (simp add: word_less_nat_alt)
  have bf: "fs_bread s 1 x = ok (s\<lparr>f_held := [x]\<rparr>, f_disk s x)" if "x \<in> owned s ip" for x
    using fs_bread_room [OF room _ lt [OF that]] ok(3) by simp
  have bm: "bmap s ip (unat off div BSIZE) = ok (s, ?a)"
  proof (cases "unat off div BSIZE < NDIRECT")
    case False
    then have i: "ind_blk s ip \<noteq> 0" "?a = get32 (f_disk s (ind_blk s ip)) (4 * (unat off div BSIZE - NDIRECT))"
      using b(2) by (auto simp: blkno_def split: if_splits)
    have "unat off div BSIZE - NDIRECT < NINDIRECT" using b(1) False by (simp add: MAXFILE_def)
    then show ?thesis
      using False i b(2) bf [OF ownedI(2) [OF i(1)]] ok(2,3)
      by (simp add: bmap_def Let_def ind_blk_def bmap_indirect_def fs_brelse_def)
  qed (use b in \<open>simp add: bmap_def Let_def blkno_direct\<close>)
  obtain l where l: "fs_log_write (s\<lparr>f_held := [?a]\<rparr>) ?a ?d = ok (s\<lparr>f_held := [?a], f_log := l, f_disk := (f_disk s)(?a := ?d)\<rparr>)"
    "room (s\<lparr>f_held := [?a], f_log := l, f_disk := (f_disk s)(?a := ?d)\<rparr>) 1"
    using fs_log_write_gives [of "s\<lparr>f_held := [?a]\<rparr>" 1 ?a ?d] room by (auto simp: numeral_2_eq_2)
  let ?s1 = "s\<lparr>f_held := [], f_log := l, f_disk := (f_disk s)(?a := ?d)\<rparr>"
  have m: "min (unat n) (BSIZE - unat off mod BSIZE) = unat n" using r(3) by simp
  have loop: "writei_loop s ip src 0 (unat off) (unat n) = ok ?s1"
    using r(2) bm bf [OF a] l(1) ok(2)
    by (subst writei_loop.simps) (simp add: m Let_def fs_brelse_def writei_loop.simps [of _ _ _ "unat n"])
  have le: "unat off + unat n \<le> MAXFILE * BSIZE"
  proof -
    have e: "unat off = unat off div BSIZE * BSIZE + unat off mod BSIZE" by simp
    have "(unat off div BSIZE + 1) * BSIZE \<le> MAXFILE * BSIZE" using b(1) by (intro mult_le_mono1) simp
    then have "unat off div BSIZE * BSIZE + BSIZE \<le> MAXFILE * BSIZE" by (simp only: add_mult_distrib mult_1)
    with e r(3) show ?thesis by linarith
  qed
  note w = range_words [OF r(1) le]
  let ?s2 = "upd_d ip (\<lambda>d. d\<lparr>d_size := off + n\<rparr>) ?s1"
  have len: "length ?d = BSIZE" using length_blit [of "unat off mod BSIZE" "map src [0..<unat n]" "f_disk s ?a"] r(3) fs_wfD(1) [OF wf(1)] by simp
  have "fs_wf ?s1" using data_write(1) [OF wf(1,2) b len, of ?s1] by (simp add: extendsD)
  then have "is_ok (iupdate ?s2 ip)" using wf(3) ok(2) l(2) by (intro iupdate_gives) (simp_all add: inode_here_def room_def)
  then show ?thesis using loop w ty by (auto simp: writei_def Let_def is_ok_iff)
qed

section \<open>A concrete file system\<close>

text \<open>
  The smallest layout with one file of five bytes: inode 1 at block 32, the free map at block
  58, the data of the file at block 59.
\<close>

definition w_map :: block where
  "w_map = replicate 7 255 @ 15 # replicate 504 0"

definition w_inode :: dinode where
  "w_inode = zero_dinode\<lparr>d_type := T_FILE, d_nlink := 1, d_size := 5, d_addrs := 59 # replicate NDIRECT 0\<rparr>"

definition w_disk :: "dinode \<Rightarrow> u32 \<Rightarrow> block" where
  "w_disk di b =
     (if b = 1 then put32 (put32 (put32 (put32 (replicate BSIZE 0) 0 1000) 8 200) 20 32) 24 58
      else if b = 32 then put_dinode (replicate BSIZE 0) 1 di
      else if b = 58 then w_map
      else replicate BSIZE 0)"

text \<open>Inode 1 is in slot 0, referenced once and locked, as during a system call.\<close>

definition w_fs :: "dinode \<Rightarrow> fstate" where
  "w_fs di = \<lparr>f_disk = w_disk di, f_dsz = 1000, f_held = [], f_log = zero_log\<lparr>log_size := 30, outstanding := 1\<rparr>,
     f_sb = sb_of_block (w_disk di 1),
     icache = (\<lambda>i. \<lparr>i_dev = 1, i_inum = 1, i_ref = (if i = 0 then 1 else 0),
       i_lock = \<lparr>sl_locked = (i = 0), sl_pid = 7\<rparr>, i_valid = (i = 0), i_d = di\<rparr>),
     f_pid = 7, f_cwd = 0\<rparr>"

lemma w_map_bits: "n < 60 \<Longrightarrow> bit_set w_map n"
proof -
  assume n: "n < 60"
  have m: "(255 :: uchar) = mask 8" "(15 :: uchar) = mask 4" by (simp_all add: mask_eq_exp_minus_1)
  have "n div 8 < 7 \<or> n div 8 = 7 \<and> n mod 8 < 4" using n by presburger
  then show ?thesis
  proof
    assume "n div 8 < 7"
    then show ?thesis by (simp add: bit_set_bit w_map_def nth_append m bit_mask_iff)
  next
    assume "n div 8 = 7 \<and> n mod 8 < 4"
    then show ?thesis by (simp add: bit_set_bit w_map_def nth_append m bit_mask_iff)
  qed
qed

lemma w_sb:
  "sb_size (f_sb (w_fs di)) = 1000" "sb_ninodes (f_sb (w_fs di)) = 200" "sb_inodestart (f_sb (w_fs di)) = 32"
  "sb_bmapstart (f_sb (w_fs di)) = 58"
  by (simp_all add: w_fs_def w_disk_def sb_of_block_def get32_put32_other BSIZE_def)

lemma w_used: "unat b < 60 \<Longrightarrow> used (w_fs di) b"
proof -
  assume b: "unat b < 60"
  then have "unat b div BPB = 0" "unat b mod BPB = unat b" by (simp_all add: BPB_def BSIZE_def)
  then have "BBLOCK b (f_sb (w_fs di)) = 58" by (simp add: BBLOCK_def w_sb)
  then show ?thesis using w_map_bits [OF b] \<open>unat b mod BPB = unat b\<close> by (simp add: used_def w_fs_def w_disk_def)
qed

lemma w_wf: "fs_wf (w_fs di)"
proof -
  have "length (f_disk (w_fs di) b) = BSIZE" for b by (simp add: w_fs_def w_disk_def w_map_def BSIZE_def)
  moreover have "dstart (w_fs di) = 59" "fs_size (w_fs di) = 1000" by (simp_all add: dstart_def fs_size_def w_sb BPB_def BSIZE_def)
  moreover have "f_sb (w_fs di) = sb_of_block (f_disk (w_fs di) 1)" "f_dsz (w_fs di) = 1000" by (simp_all add: w_fs_def)
  moreover have "1 < unat (sb_inodestart (f_sb (w_fs di)))"
    "unat (sb_inodestart (f_sb (w_fs di))) + unat (sb_ninodes (f_sb (w_fs di))) div IPB < unat (sb_bmapstart (f_sb (w_fs di)))"
    by (simp_all add: w_sb IPB_def)
  ultimately show ?thesis
    using w_used [of _ di] unfolding fs_wf_def by auto
qed

lemma w_file:
  assumes "d_addrs di = 59 # replicate NDIRECT 0" and "0 < unat (d_size di)" and "unat (d_size di) \<le> BSIZE"
  shows "file_ok (w_fs di) 0" "owned (w_fs di) 0 = {59}"
proof -
  let ?s = "w_fs di"
  have ic: "i_d (icache ?s 0) = di" "i_inum (icache ?s 0) = 1" by (simp_all add: w_fs_def)
  have ind: "ind_blk ?s 0 = 0" by (simp add: ind_blk_def ic assms(1) NDIRECT_def)
  have b: "blkno ?s 0 i = (if i = 0 then 59 else 0)" if "i < MAXFILE" for i
    using that by (cases i) (auto simp: blkno_def ind ic assms(1) NDIRECT_def)
  have "0 < MAXFILE" by (simp add: MAXFILE_def NDIRECT_def)
  with b show ow: "owned ?s 0 = {59}" by (auto simp: owned_def ind split: if_splits)
  have sz: "dstart ?s = 59" "fs_size ?s = 1000" by (simp_all add: dstart_def fs_size_def w_sb BPB_def BSIZE_def)
  have "ino_ok ?s 0" unfolding ino_ok_def ow sz ind
    using w_used [of 59 di] assms b by (auto simp: ic MAXFILE_def NDIRECT_def BSIZE_def split: if_splits)
  moreover have "synced ?s 0"
  proof -
    have "f_disk ?s (IBLOCK 1 (f_sb ?s)) = put_dinode (replicate BSIZE 0) 1 di"
      by (simp add: IBLOCK_def w_sb IPB_def) (simp add: w_fs_def w_disk_def)
    then show ?thesis using get_put_dinode [of 1 "replicate BSIZE 0" di] assms(1)
      by (simp add: synced_def ic IPB_def BSIZE_def)
  qed
  ultimately show "file_ok ?s 0" using w_wf by (simp add: file_ok_def inode_here_def ic w_sb)
qed

lemma w_buffers: "owned (w_fs di) 0 = {59} \<Longrightarrow> buffers_free (w_fs di) 0"
  by (simp add: buffers_free_def logged_blks_def) (simp add: w_fs_def zero_log_def NBUF_def)

definition no_devices :: devtab where
  "no_devices m = \<lparr>dev_read = None, dev_write = None\<rparr>"

lemma w_inode_facts: "d_addrs w_inode = 59 # replicate NDIRECT 0" "d_size w_inode = 5" "d_type w_inode = T_FILE"
  by (simp_all add: w_inode_def)

lemmas w_ok = w_file [of w_inode, unfolded w_inode_facts, simplified BSIZE_def, simplified]

theorem writei_readi_witness:
  "\<exists>s'. writei no_devices (w_fs w_inode) 0 (\<lambda>i. of_nat (i + 1)) 3 4 = ok (s', 4) \<and> file_ok s' 0 \<and>
     file_bytes s' 0 = [0, 0, 0, 1, 2, 3, 4]"
proof -
  let ?s = "w_fs w_inode"
  have i: "i_d (icache ?s 0) = w_inode" "isize ?s 0 = 5" "i_dev (icache ?s 0) = 1" "f_held ?s = []"
    by (simp_all add: w_fs_def w_inode_facts)
  have "room ?s 2" by (simp add: room_def w_fs_def zero_log_def LOGSIZE_def)
  have b: "blkno ?s 0 0 = 59" by (simp add: blkno_def i w_inode_facts NDIRECT_def)
  have "file_bytes ?s 0 = replicate 5 0"
  proof (rule nth_equalityI)
    show "length (file_bytes ?s 0) = length (replicate 5 (0 :: uchar))" by (simp add: file_bytes_def i w_inode_facts)
    fix k assume "k < length (file_bytes ?s 0)"
    then have "k < 5" by (simp add: file_bytes_def i w_inode_facts)
    then show "file_bytes ?s 0 ! k = replicate 5 0 ! k"
      by (simp add: file_bytes_def i w_inode_facts fbyte_def BSIZE_def b) (simp add: w_fs_def w_disk_def BSIZE_def)
  qed
  obtain s' where w: "writei no_devices ?s 0 (\<lambda>i. of_nat (i + 1)) 3 4 = ok (s', 4)"
    using writei_block_gives [OF w_ok(1) i(3,4), of 3 4 no_devices "\<lambda>i. of_nat (i + 1)"] b i \<open>room ?s 2\<close>
    by (auto simp: w_inode_facts BSIZE_def MAXFILE_def NDIRECT_def)
  have l: "map (\<lambda>i. word_of_nat (i + 1)) [0..<4] = [1, 2, 3, 4 :: uchar]" by (simp add: upt_rec)
  have r: "take 3 (replicate 5 0) = [0, 0, 0 :: uchar]" "drop 7 (replicate 5 0) = ([] :: uchar list)" by (simp_all add: numeral_nat)
  have h: "d_type (i_d (icache ?s 0)) \<noteq> T_DEV" "unat (3 :: u32) \<le> isize ?s 0" "unat (3 :: u32) + unat (4 :: u32) \<le> MAXFILE * BSIZE"
    using i by (simp_all add: w_inode_facts MAXFILE_bytes)
  have u: "unat (3 :: u32) = 3" "unat (4 :: u32) = 4" "(3 :: nat) + 4 = 7" by simp_all
  from writei_readi [OF w_ok(1) h w] \<open>file_bytes ?s 0 = replicate 5 0\<close>
  have "file_ok s' 0 \<and> file_bytes s' 0 = [0, 0, 0] @ [1, 2, 3, 4] @ []" unfolding u l by (simp only: r simp_thms)
  then show ?thesis using w by auto
qed

end
