(* ===== verification/Fs_Dirs.thy ===== *)
theory Fs_Dirs
  imports Fs_Data
begin

text \<open>
  Directories and paths: a directory is the list of its 16-byte entries; \<open>dirlookup\<close> finds
  the first used entry with the name and \<open>dirlink\<close> adds one. \<open>skipelem\<close> splits a path into
  its elements.
\<close>

section \<open>Names\<close>

text \<open>The byte at \<open>k\<close> of a name as \<open>strncpy\<close> stores it.\<close>

definition nf_at :: "uchar list \<Rightarrow> nat \<Rightarrow> uchar" where
  "nf_at s k = (if \<exists>j<k. byte_at s j = 0 then 0 else byte_at s k)"

lemma cstring_prefix:
  defines "n \<equiv> \<lambda>s. takeWhile (\<lambda>c. c \<noteq> 0) (take DIRSIZ s)"
  shows "length (n s) \<le> DIRSIZ" "j < length (n s) \<Longrightarrow> byte_at s j = n s ! j \<and> n s ! j \<noteq> 0"
    "length (n s) < DIRSIZ \<Longrightarrow> byte_at s (length (n s)) = 0"
proof -
  have l: "length (n s) \<le> length (take DIRSIZ s)" unfolding n_def by (rule length_takeWhile_le)
  then show "length (n s) \<le> DIRSIZ" by simp
  show "byte_at s j = n s ! j \<and> n s ! j \<noteq> 0" if "j < length (n s)"
  proof -
    have "n s ! j = take DIRSIZ s ! j" using that unfolding n_def by (rule takeWhile_nth)
    moreover have "n s ! j \<noteq> 0" using set_takeWhileD [OF nth_mem [OF that [unfolded n_def]]] unfolding n_def by simp
    moreover have "j < length s" "j < DIRSIZ" using that l by auto
    ultimately show ?thesis by (simp add: byte_at_def)
  qed
  show "byte_at s (length (n s)) = 0" if a: "length (n s) < DIRSIZ"
  proof (cases "length (n s) < length s")
    case True
    then have t: "length (n s) < length (take DIRSIZ s)" using a by simp
    have "take DIRSIZ s ! length (n s) = 0" using nth_length_takeWhile [OF t [unfolded n_def]] unfolding n_def by simp
    then show ?thesis using True a by (simp only: byte_at_def if_True nth_take)
  qed (simp only: byte_at_def if_False)
qed

lemma name_field_nf: "name_field s = map (nf_at s) [0..<DIRSIZ]"
proof (rule nth_equalityI)
  define n where "n = takeWhile (\<lambda>c. c \<noteq> 0) (take DIRSIZ s)"
  note c = cstring_prefix [where s = s, folded n_def]
  have nf: "name_field s = n @ replicate (DIRSIZ - length n) 0" by (simp add: name_field_def n_def Let_def)
  then show "length (name_field s) = length (map (nf_at s) [0..<DIRSIZ])" using c(1) by simp
  fix k assume "k < length (name_field s)"
  then have k: "k < DIRSIZ" using c(1) by (simp add: nf)
  show "name_field s ! k = map (nf_at s) [0..<DIRSIZ] ! k"
  proof (cases "k < length n")
    case True
    then have "\<not> (\<exists>j<k. byte_at s j = 0)" using c(2) by auto
    then show ?thesis using True c(2) [OF True] k by (simp add: nf nth_append nf_at_def)
  next
    case False
    then have "nf_at s k = 0" using c(3) k by (cases "k = length n") (auto simp: nf_at_def intro!: exI [of _ "length n"])
    then show ?thesis using False k by (simp add: nf nth_append)
  qed
qed

lemma length_name_field [simp]: "length (name_field s) = DIRSIZ"
  by (simp add: name_field_nf)



lemma nf_idem: "k < DIRSIZ \<Longrightarrow> nf_at (name_field s) k = nf_at s k"
proof -
  assume k: "k < DIRSIZ"
  have b: "byte_at (name_field s) j = nf_at s j" if "j < DIRSIZ" for j
    using that by (simp add: byte_at_def) (simp add: name_field_nf)
  have "(\<exists>j<k. nf_at s j = 0) \<longleftrightarrow> (\<exists>j<k. byte_at s j = 0)"
    by (auto simp: nf_at_def split: if_splits intro: less_trans)
  then show ?thesis using b k by (auto simp: nf_at_def [of "name_field s"]) (auto simp: nf_at_def)
qed

lemma name_field_idem [simp]: "name_field (name_field s) = name_field s"
proof -
  have "name_field (name_field s) = map (nf_at (name_field s)) [0..<DIRSIZ]" by (rule name_field_nf)
  also have "\<dots> = map (nf_at s) [0..<DIRSIZ]" by (rule map_cong) (simp_all add: nf_idem)
  finally show ?thesis by (simp only: name_field_nf [of s, symmetric])
qed

section \<open>Directory entries\<close>










lemma length_mk_dirent [simp]: "length (mk_dirent inum name) = 16"
  by (simp add: mk_dirent_def DIRSIZ_def)







definition w_dir :: dinode where
  "w_dir = zero_dinode\<lparr>d_type := T_DIR, d_nlink := 1, d_size := 16, d_addrs := 59 # replicate NDIRECT 0\<rparr>"





section \<open>Path elements\<close>

text \<open>The elements of a path: the non-empty pieces between slashes.\<close>

fun pieces :: "uchar list \<Rightarrow> uchar list list" where
  "pieces [] = [[]]"
| "pieces (c # cs) = (if c = slash then [] # pieces cs else (case pieces cs of p # ps \<Rightarrow> (c # p) # ps))"

definition path_elems :: "uchar list \<Rightarrow> uchar list list" where
  "path_elems p = filter (\<lambda>e. e \<noteq> []) (pieces p)"

lemma pieces_nonempty [simp]: "pieces p \<noteq> []"
  by (induction p) (auto split: list.splits)

lemma pieces_elem: "slash \<notin> set e \<Longrightarrow> pieces (e @ slash # p) = e # pieces p"
  by (induction e) auto

lemma pieces_last: "slash \<notin> set e \<Longrightarrow> pieces e = [e]"
  by (induction e) auto

lemma path_elems_slashes: "path_elems (dropWhile (\<lambda>c. c = slash) p) = path_elems p"
  by (induction p) (auto simp: path_elems_def)

lemma path_elems_elem:
  assumes "p \<noteq> []" and "hd p \<noteq> slash"
  shows "path_elems p = takeWhile (\<lambda>c. c \<noteq> slash) p # path_elems (dropWhile (\<lambda>c. c \<noteq> slash) p)"
proof -
  let ?e = "takeWhile (\<lambda>c. c \<noteq> slash) p"
  have e: "?e \<noteq> []" "slash \<notin> set ?e" using assms by (cases p; auto dest: set_takeWhileD)+
  show ?thesis
  proof (cases "dropWhile (\<lambda>c. c \<noteq> slash) p")
    case Nil
    then have ep: "?e = p" by (metis append_Nil2 takeWhile_dropWhile_id)
    have "pieces p = [p]" using e(2) unfolding ep by (rule pieces_last)
    then have "path_elems p = [p]" using assms(1) by (simp add: path_elems_def)
    then show ?thesis unfolding Nil ep by (simp add: path_elems_def)
  next
    case (Cons c r)
    then have "c = slash" using hd_dropWhile [of "\<lambda>c. c \<noteq> slash" p] by simp
    then have "p = ?e @ slash # r" using Cons by (metis takeWhile_dropWhile_id)
    then have "pieces p = ?e # pieces r" using pieces_elem [OF e(2), of r] by metis
    then show ?thesis using e(1) Cons \<open>c = slash\<close> by (simp add: path_elems_def)
  qed
qed

lemma name_field_buffer:
  "name_field (if length e \<ge> DIRSIZ then take DIRSIZ e else e @ 0 # r) = name_field e"
proof -
  let ?b = "if length e \<ge> DIRSIZ then take DIRSIZ e else e @ 0 # r"
  have b: "byte_at ?b j = byte_at e j" if "j < DIRSIZ" "j \<le> length e" for j
    using that by (auto simp: byte_at_def nth_append)
  have z: "byte_at e (length e) = 0" by (simp add: byte_at_def)
  have "nf_at ?b k = nf_at e k" if k: "k < DIRSIZ" for k
  proof (cases "k \<le> length e")
    case True
    then show ?thesis using b k by (auto simp: nf_at_def)
  next
    case False
    then have "byte_at ?b (length e) = 0" using b [of "length e"] k z by simp
    then show ?thesis using False z by (auto simp: nf_at_def intro!: exI [of _ "length e"])
  qed
  then show ?thesis by (simp add: name_field_nf)
qed

text \<open>
  C35. \<open>skipelem\<close> takes the elements of a path one by one: it fails exactly when there is none,
  and otherwise stores the first one in the name buffer (up to \<open>DIRSIZ\<close> bytes) and returns
  a path with the other ones that does not start with a slash.
\<close>

theorem skipelem_elems:
  "case skipelem path name of
     None \<Rightarrow> path_elems path = []
   | Some (rest, nm) \<Rightarrow> \<exists>e. path_elems path = e # path_elems rest \<and> name_field nm = name_field e \<and>
       takeWhile (\<lambda>c. c = slash) rest = []"
proof -
  let ?s = "dropWhile (\<lambda>c. c = slash) path"
  let ?e = "takeWhile (\<lambda>c. c \<noteq> slash) ?s"
  let ?r = "dropWhile (\<lambda>c. c = slash) (dropWhile (\<lambda>c. c \<noteq> slash) ?s)"
  show ?thesis
  proof (cases "?s = []")
    case True
    have "path_elems path = path_elems []" using path_elems_slashes [of path] unfolding True by (rule sym)
    moreover have "skipelem path name = None" by (simp only: skipelem_def Let_def True if_True simp_thms)
    ultimately show ?thesis by (simp add: path_elems_def)
  next
    case False
    have "hd ?s \<noteq> slash" using hd_dropWhile [OF False] by simp
    then have "path_elems path = ?e # path_elems ?r"
      using path_elems_elem [OF False] path_elems_slashes by metis
    moreover have "takeWhile (\<lambda>c. c = slash) ?r = []"
      using hd_dropWhile [of "\<lambda>c. c = slash"] by (simp only: takeWhile_eq_Nil_iff) blast
    moreover have "skipelem path name =
        Some (?r, if length ?e \<ge> DIRSIZ then take DIRSIZ ?e else ?e @ 0 # drop (length ?e + 1) name)"
      using False by (simp add: skipelem_def Let_def)
    ultimately show ?thesis using name_field_buffer [of ?e] by (simp only: option.case prod.case) blast
  qed
qed

section \<open>Balance\<close>

text \<open>
  C16. Path lookup is balanced: when \<open>namex\<close> returns, found or not, for \<open>namei\<close> or
  \<open>nameiparent\<close>, exactly one reference has been added to the inode it returns and none to
  any other, no inode lock and no buffer is left held, and the transaction is as it was.
\<close>

theorem namex_balanced:
  assumes "namex devsw s path np name = ok (s', r, nm)"
  shows "irefs s' = plus_ref r (irefs s) \<and> ilocks s' = ilocks s \<and> f_held s' = f_held s \<and>
    outstanding (f_log s') = outstanding (f_log s)"
proof -
  have "post (namex devsw s path np name) (\<lambda>(s', r, nm). moved s s' (plus_ref r (irefs s)) (ilocks s))"
    by (rule namex_post) simp
  from postD [OF this assms] show ?thesis by (simp add: moved_def env_def)
qed

theorem namex_balanced_witness:
  "\<exists>s'. namex no_devices (w_fs w_dir) [47] False [] = ok (s', Some 0, []) \<and> irefs s' 0 = 2"
proof -
  let ?s = "w_fs w_dir"
  have "iget_scan (icache ?s) 1 1 None [0..<NINODE] = Inl 0"
    by (simp add: NINODE_def upt_conv_Cons w_fs_def)
  then have n: "namex no_devices ?s [47] False [] = ok (upd_inode 0 (\<lambda>i. i\<lparr>i_ref := i_ref i + 1\<rparr>) ?s, Some 0, [])"
    by (simp add: namex_def iget_def namex_loop.simps skipelem_def)
  moreover have "irefs ?s 0 = 1" by (simp add: irefs_def w_fs_def)
  ultimately show ?thesis using namex_balanced [OF n] by (simp add: plus_ref_def)
qed

end
