(* ===== verification/Vm.thy ===== *)
theory Vm
  imports Kalloc
begin

text \<open>
  Virtual memory (\<^verbatim>\<open>vm.c\<close>) and the process structure it reads (\<^verbatim>\<open>proc.h\<close>, \<^verbatim>\<open>x86.h\<close>). Page
  directories and page tables are pages of kernel memory: a \<open>pde_t *\<close> or \<open>pte_t *\<close> is the
  32-bit address of a 4-byte entry of \<open>m_mem\<close>, and following a null pointer is a \<open>Fault\<close>
  (no page table maps virtual page 0). Loops over pages run a number of times computed
  from their bounds. The TLB and the text that \<open>cprintf\<close> prints are not part of the state.
\<close>

section \<open>Processes\<close>

datatype procstate = UNUSED | EMBRYO | SLEEPING | RUNNABLE | RUNNING | ZOMBIE

record trapframe =
  tf_edi :: u32
  tf_esi :: u32
  tf_ebp :: u32
  tf_oesp :: u32
  tf_ebx :: u32
  tf_edx :: u32
  tf_ecx :: u32
  tf_eax :: u32
  tf_gs :: ushort
  tf_fs :: ushort
  tf_es :: ushort
  tf_ds :: ushort
  tf_trapno :: u32
  tf_err :: u32
  tf_eip :: u32
  tf_cs :: ushort
  tf_eflags :: u32
  tf_esp :: u32
  tf_ss :: ushort

text \<open>
  What a process can sleep on: the pointer that \<open>sleep\<close> is given, which is the address of a
  process, of the tick counter, of the counters of a pipe, of another kernel object, or of a
  word in user memory.
\<close>

datatype wchan = ChProc nat | ChTicks | ChPipeR u32 | ChPipeW u32 | ChKernel u32 | ChUser u32

text \<open>
  A process refers to its parent by its slot in the process table, to an open file by its
  slot in the file table and to its directory by its slot in the inode cache.
\<close>

record proc =
  p_sz :: u32
  p_pgdir :: u32
  p_kstack :: u32
  p_state :: procstate
  p_pid :: int
  p_parent :: "nat option"
  p_tf :: trapframe
  p_context :: u32
  p_chan :: "wchan option"
  p_killed :: bool
  p_ofile :: "nat \<Rightarrow> nat option"
  p_cwd :: "nat option"
  p_name :: "uchar list"
  stacklastpg :: u32
  stacktop :: u32
  guardpg :: u32
  shmbreak :: u32
  shmtop :: u32
  shmnextpg :: u32

text \<open>
  The globals of \<open>vm.c\<close>: \<open>kdata\<close>, \<open>vdso_impl_start\<close> and \<open>vdso_impl_size\<close> are the values of
  the linker symbols \<open>data\<close>, \<open>_binary_vdso_impl_start\<close> and \<open>_binary_vdso_impl_size\<close>, and
  \<open>cr3\<close> is the page table register of the processor.
\<close>

record vmach = mach +
  kdata :: u32
  kpgdir :: u32
  vdso_text_page :: u32
  vdso_ticks_page :: u32
  vdso_impl_start :: u32
  vdso_impl_size :: u32
  cr3 :: u32

section \<open>Page table entries\<close>

definition deref :: "'a mach_scheme \<Rightarrow> u32 \<Rightarrow> u32 outcome" where
  "deref m p = (if p = 0 then Inl Fault else ok (load32 (m_mem m) p))"

definition assign :: "'a mach_scheme \<Rightarrow> u32 \<Rightarrow> u32 \<Rightarrow> 'a mach_scheme outcome" where
  "assign m p v = (if p = 0 then Inl Fault else ok (m\<lparr>m_mem := store32 (m_mem m) p v\<rparr>))"

definition walkpgdir :: "'a mach_scheme \<Rightarrow> u32 \<Rightarrow> u32 \<Rightarrow> bool \<Rightarrow> ('a mach_scheme \<times> u32) outcome" where
  "walkpgdir m pgdir va alloc =
     (let pde = pgdir + 4 * PDX va in
      if load32 (m_mem m) pde AND PTE_P \<noteq> 0
      then ok (m, P2V (PTE_ADDR (load32 (m_mem m) pde)) + 4 * PTX va)
      else if \<not> alloc then ok (m, 0)
      else bnd (kalloc m) (\<lambda>(m, pgtab).
        if pgtab = 0 then ok (m, 0)
        else let mem = memset (m_mem m) pgtab 0 PGSIZE in
          ok (m\<lparr>m_mem := store32 mem pde (V2P pgtab OR PTE_P OR PTE_W OR PTE_U)\<rparr>, pgtab + 4 * PTX va)))"

text \<open>
  The loop of \<open>mappages\<close>: \<open>a\<close> and \<open>last\<close> are page addresses, so \<open>a == last\<close> holds after
  exactly \<open>n = (last - a) / PGSIZE\<close> increments. The result \<open>-1\<close> or \<open>0\<close> is a flag that is
  true for \<open>0\<close>.
\<close>

fun mappages_loop :: "'a mach_scheme \<Rightarrow> u32 \<Rightarrow> u32 \<Rightarrow> u32 \<Rightarrow> u32 \<Rightarrow> nat \<Rightarrow> ('a mach_scheme \<times> bool) outcome" where
  "mappages_loop m pgdir a pa perm n =
     bnd (walkpgdir m pgdir a True) (\<lambda>(m, pte).
       if pte = 0 then ok (m, False)
       else bnd (deref m pte) (\<lambda>e.
         if e AND PTE_P \<noteq> 0 then panic ''remap''
         else bnd (assign m pte (pa OR perm OR PTE_P)) (\<lambda>m.
           case n of
             0 \<Rightarrow> ok (m, True)
           | Suc n \<Rightarrow> mappages_loop m pgdir (a + PGSIZE) (pa + PGSIZE) perm n)))"

declare mappages_loop.simps [simp del]

definition mappages :: "'a mach_scheme \<Rightarrow> u32 \<Rightarrow> u32 \<Rightarrow> u32 \<Rightarrow> u32 \<Rightarrow> u32 \<Rightarrow> ('a mach_scheme \<times> bool) outcome" where
  "mappages m pgdir va sz pa perm =
     (let a = PGROUNDDOWN va; last = PGROUNDDOWN (va + sz - 1) in
      mappages_loop m pgdir a pa perm (unat ((last - a) div PGSIZE)))"

section \<open>Freeing user memory\<close>

text \<open>\<open>if (getRefCount(v) == 1) kfree(v); else declRefCount(v);\<close>\<close>

definition drop_page :: "'a mach_scheme \<Rightarrow> u32 \<Rightarrow> 'a mach_scheme outcome" where
  "drop_page m v =
     bnd (getRefCount m v) (\<lambda>(m, c). if c = 1 then kfree m v else declRefCount m v)"

text \<open>
  The body of the loop of \<open>deallocuvm\<close> after the walk. When \<open>pa == 0\<close> the code prints fields
  of \<open>currproc\<close>, a null pointer for some callers, before it stops.
\<close>

definition dealloc_page :: "'a mach_scheme \<Rightarrow> u32 \<Rightarrow> u32 \<Rightarrow> proc option \<Rightarrow> 'a mach_scheme outcome" where
  "dealloc_page m pte a currproc =
     bnd (case currproc of
            Some p \<Rightarrow> if a = guardpg p then bnd (deref m pte) (\<lambda>e. assign m pte (e OR PTE_P)) else ok m
          | None \<Rightarrow> ok m) (\<lambda>m.
       if pte = 0 then ok m
       else bnd (deref m pte) (\<lambda>e.
         if e AND PTE_P = 0 then ok m
         else if PTE_ADDR e = 0 then (if currproc = None then Inl Fault else panic ''kfree'')
         else bnd (drop_page m (P2V (PTE_ADDR e))) (\<lambda>m. assign m pte 0)))"

text \<open>
  When \<open>a\<close> wraps around, the loop condition \<open>a < oldsz\<close> can never become false and the loop
  does not return.
\<close>

function deallocuvm_loop :: "'a mach_scheme \<Rightarrow> u32 \<Rightarrow> u32 \<Rightarrow> u32 \<Rightarrow> proc option \<Rightarrow> 'a mach_scheme outcome" where
  "deallocuvm_loop m pgdir a oldsz currproc =
     (if a < oldsz
      then bnd (walkpgdir m pgdir a False) (\<lambda>(m, pte).
        bnd (dealloc_page m pte a currproc) (\<lambda>m.
          let a' = (if pte = 0 then PGADDR (PDX a + 1) 0 0 - PGSIZE else a) + PGSIZE in
          if a' \<le> a then Inl Hang else deallocuvm_loop m pgdir a' oldsz currproc))
      else ok m)"
  by pat_completeness auto

termination
  by (relation "measure (\<lambda>(m, pgdir, a, oldsz, p). 4294967296 - unat a)")
    (simp_all add: word_less_nat_alt word_le_nat_alt less_imp_diff_less diff_less_mono2 u32_bound)

declare deallocuvm_loop.simps [simp del]

definition deallocuvm :: "'a mach_scheme \<Rightarrow> u32 \<Rightarrow> u32 \<Rightarrow> u32 \<Rightarrow> proc option \<Rightarrow> ('a mach_scheme \<times> u32) outcome" where
  "deallocuvm m pgdir oldsz newsz currproc =
     (if newsz \<ge> oldsz then ok (m, oldsz)
      else bnd (deallocuvm_loop m pgdir (PGROUNDUP newsz) oldsz currproc) (\<lambda>m. ok (m, newsz)))"

definition NPDENTRIES :: nat where
  "NPDENTRIES = 1024"

fun freevm_loop :: "'a mach_scheme \<Rightarrow> u32 \<Rightarrow> nat list \<Rightarrow> 'a mach_scheme outcome" where
  "freevm_loop m pgdir [] = ok m"
| "freevm_loop m pgdir (i # is) =
     (let e = load32 (m_mem m) (pgdir + 4 * of_nat i) in
      bnd (if e AND PTE_P \<noteq> 0 then drop_page m (P2V (PTE_ADDR e)) else ok m)
        (\<lambda>m. freevm_loop m pgdir is))"

definition freevm :: "'a mach_scheme \<Rightarrow> u32 \<Rightarrow> proc option \<Rightarrow> 'a mach_scheme outcome" where
  "freevm m pgdir currproc =
     (if pgdir = 0 then panic ''freevm: no pgdir''
      else bnd (deallocuvm m pgdir KERNBASE 0 currproc) (\<lambda>(m, r).
        bnd (freevm_loop m pgdir [0..<NPDENTRIES]) (\<lambda>m. kfree m pgdir)))"

section \<open>The kernel's mappings\<close>

record kmap =
  virt :: u32
  phys_start :: u32
  phys_end :: u32
  km_perm :: u32

definition kmap_table :: "u32 \<Rightarrow> kmap list" where
  "kmap_table data =
     [\<lparr>virt = KERNBASE, phys_start = 0, phys_end = EXTMEM, km_perm = PTE_W\<rparr>,
      \<lparr>virt = KERNLINK, phys_start = V2P KERNLINK, phys_end = V2P data, km_perm = 0\<rparr>,
      \<lparr>virt = data, phys_start = V2P data, phys_end = PHYSTOP, km_perm = PTE_W\<rparr>,
      \<lparr>virt = DEVSPACE, phys_start = DEVSPACE, phys_end = 0, km_perm = PTE_W\<rparr>]"

text \<open>A null page directory is the result of a failed allocation.\<close>

fun setupkvm_loop :: "'a mach_scheme \<Rightarrow> u32 \<Rightarrow> kmap list \<Rightarrow> ('a mach_scheme \<times> u32) outcome" where
  "setupkvm_loop m pgdir [] = ok (m, pgdir)"
| "setupkvm_loop m pgdir (k # ks) =
     bnd (mappages m pgdir (virt k) (phys_end k - phys_start k) (phys_start k) (km_perm k)) (\<lambda>(m, done).
       if done then setupkvm_loop m pgdir ks
       else bnd (freevm m pgdir None) (\<lambda>m. ok (m, 0)))"

definition setupkvm :: "'a vmach_scheme \<Rightarrow> ('a vmach_scheme \<times> u32) outcome" where
  "setupkvm m =
     bnd (kalloc m) (\<lambda>(m, pgdir).
       if pgdir = 0 then ok (m, 0)
       else let m = m\<lparr>m_mem := memset (m_mem m) pgdir 0 PGSIZE\<rparr> in
         if P2V PHYSTOP > DEVSPACE then panic ''PHYSTOP too high''
         else setupkvm_loop m pgdir (kmap_table (kdata m)))"

definition switchkvm :: "'a vmach_scheme \<Rightarrow> 'a vmach_scheme" where
  "switchkvm m = m\<lparr>cr3 := V2P (kpgdir m)\<rparr>"

definition kvmalloc :: "'a vmach_scheme \<Rightarrow> 'a vmach_scheme outcome" where
  "kvmalloc m = bnd (setupkvm m) (\<lambda>(m, d). ok (switchkvm (m\<lparr>kpgdir := d\<rparr>)))"

definition KSTACKSIZE :: u32 where
  "KSTACKSIZE = 4096"

text \<open>
  \<open>switchuvm\<close> on the processor running the code. The task state is the part of \<open>struct cpu\<close>
  that it writes; the descriptor of the task state segment is not modelled.
\<close>

definition set_ts :: "u32 \<Rightarrow> cpu \<Rightarrow> cpu" where
  "set_ts kstack c = c\<lparr>ts_ss0 := push_bit 3 2, ts_esp0 := kstack + KSTACKSIZE, ts_iomb := 0xFFFF\<rparr>"

definition switchuvm :: "'a vmach_scheme \<Rightarrow> proc option \<Rightarrow> 'a vmach_scheme outcome" where
  "switchuvm m p =
     (case p of
        None \<Rightarrow> panic ''switchuvm: no process''
      | Some p \<Rightarrow>
          if p_kstack p = 0 then panic ''switchuvm: no kstack''
          else if p_pgdir p = 0 then panic ''switchuvm: no pgdir''
          else bnd (pushcli (m_smp m)) (\<lambda>s.
            bnd (mycpu s) (\<lambda>c.
            bnd (popcli (upd_cpu c (set_ts (p_kstack p)) s)) (\<lambda>s.
              ok (m\<lparr>m_smp := s, cr3 := V2P (p_pgdir p)\<rparr>)))))"

section \<open>Growing user memory\<close>

text \<open>
  Writing through the null pointer of a failed \<open>kalloc\<close> is a \<open>Fault\<close>; \<open>inituvm\<close> ignores the
  result of \<open>mappages\<close>.
\<close>

definition inituvm :: "'a mach_scheme \<Rightarrow> u32 \<Rightarrow> u32 \<Rightarrow> u32 \<Rightarrow> 'a mach_scheme outcome" where
  "inituvm m pgdir init sz =
     (if sz \<ge> PGSIZE then panic ''inituvm: more than a page''
      else bnd (kalloc m) (\<lambda>(m, mem).
        if mem = 0 then Inl Fault
        else bnd (mappages (m\<lparr>m_mem := memset (m_mem m) mem 0 PGSIZE\<rparr>) pgdir 0 PGSIZE (V2P mem) (PTE_W OR PTE_U))
          (\<lambda>(m, done). ok (m\<lparr>m_mem := memmove (m_mem m) mem init sz\<rparr>))))"

text \<open>The number of rounds of \<open>for (; a < hi; a += PGSIZE)\<close> when \<open>a\<close> does not wrap.\<close>

definition page_steps :: "u32 \<Rightarrow> u32 \<Rightarrow> nat" where
  "page_steps a hi = (unat hi - unat a + 4095) div 4096"

fun allocuvm_loop :: "'a mach_scheme \<Rightarrow> u32 \<Rightarrow> u32 \<Rightarrow> u32 \<Rightarrow> proc option \<Rightarrow> u32 \<Rightarrow> nat \<Rightarrow>
    ('a mach_scheme \<times> u32) outcome" where
  "allocuvm_loop m pgdir oldsz newsz currproc a 0 = ok (m, newsz)"
| "allocuvm_loop m pgdir oldsz newsz currproc a (Suc n) =
     bnd (kalloc m) (\<lambda>(m, mem).
       if mem = 0 then bnd (deallocuvm m pgdir newsz oldsz currproc) (\<lambda>(m, r). ok (m, 0))
       else bnd (mappages (m\<lparr>m_mem := memset (m_mem m) mem 0 PGSIZE\<rparr>) pgdir a PGSIZE (V2P mem) (PTE_W OR PTE_U))
         (\<lambda>(m, done).
           if done then allocuvm_loop m pgdir oldsz newsz currproc (a + PGSIZE) n
           else bnd (deallocuvm m pgdir newsz oldsz currproc) (\<lambda>(m, r).
             bnd (kfree m mem) (\<lambda>m. ok (m, 0)))))"

definition allocuvm :: "'a mach_scheme \<Rightarrow> u32 \<Rightarrow> u32 \<Rightarrow> u32 \<Rightarrow> proc option \<Rightarrow> ('a mach_scheme \<times> u32) outcome" where
  "allocuvm m pgdir oldsz newsz currproc =
     (if newsz \<ge> KERNBASE then ok (m, 0)
      else if newsz < oldsz then ok (m, oldsz)
      else allocuvm_loop m pgdir oldsz newsz currproc (PGROUNDUP oldsz) (page_steps (PGROUNDUP oldsz) newsz))"

section \<open>Permission bits\<close>

text \<open>\<open>pte = walkpgdir(pgdir, uva, 0); if(pte == 0) panic(msg); *pte = f(*pte)\<close>.\<close>

definition change_pte :: "string \<Rightarrow> (u32 \<Rightarrow> u32) \<Rightarrow> 'a mach_scheme \<Rightarrow> u32 \<Rightarrow> u32 \<Rightarrow> 'a mach_scheme outcome" where
  "change_pte msg f m pgdir uva =
     bnd (walkpgdir m pgdir uva False) (\<lambda>(m, pte).
       if pte = 0 then panic msg else bnd (deref m pte) (\<lambda>e. assign m pte (f e)))"

definition clearpteu :: "'a mach_scheme \<Rightarrow> u32 \<Rightarrow> u32 \<Rightarrow> 'a mach_scheme outcome" where
  "clearpteu m pgdir uva = change_pte ''clearpteu'' (\<lambda>e. e AND NOT PTE_U) m pgdir uva"

definition clearptep :: "'a mach_scheme \<Rightarrow> u32 \<Rightarrow> u32 \<Rightarrow> 'a mach_scheme outcome" where
  "clearptep m pgdir uva = change_pte ''clearptep'' (\<lambda>e. e AND NOT PTE_P) m pgdir uva"

definition markpteup :: "'a mach_scheme \<Rightarrow> u32 \<Rightarrow> u32 \<Rightarrow> 'a mach_scheme outcome" where
  "markpteup m pgdir uva = change_pte ''markpteup'' (\<lambda>e. e OR PTE_P OR PTE_U) m pgdir uva"

section \<open>Copying an address space\<close>

fun copyuvm_loop :: "'a mach_scheme \<Rightarrow> u32 \<Rightarrow> u32 \<Rightarrow> u32 \<Rightarrow> nat \<Rightarrow> ('a mach_scheme \<times> u32) outcome" where
  "copyuvm_loop m pgdir d i 0 = ok (m, d)"
| "copyuvm_loop m pgdir d i (Suc n) =
     bnd (walkpgdir m pgdir i False) (\<lambda>(m, pte).
       if pte = 0 then panic ''copyuvm: pte should exist''
       else bnd (deref m pte) (\<lambda>e.
         if e AND PTE_P = 0 then panic ''copyuvm: page not present''
         else bnd (kalloc m) (\<lambda>(m, mem).
           if mem = 0 then bnd (freevm m d None) (\<lambda>m. ok (m, 0))
           else bnd (mappages (m\<lparr>m_mem := memmove (m_mem m) mem (P2V (PTE_ADDR e)) PGSIZE\<rparr>)
                d i PGSIZE (V2P mem) (PTE_FLAGS e)) (\<lambda>(m, done).
             if done then copyuvm_loop m pgdir d (i + PGSIZE) n
             else bnd (freevm m d None) (\<lambda>m. ok (m, 0))))))"

definition copyuvm :: "'a vmach_scheme \<Rightarrow> u32 \<Rightarrow> u32 \<Rightarrow> ('a vmach_scheme \<times> u32) outcome" where
  "copyuvm m pgdir sz =
     bnd (setupkvm m) (\<lambda>(m, d).
       if d = 0 then ok (m, 0) else copyuvm_loop m pgdir d 0 (page_steps 0 sz))"

text \<open>
  Mapping the page of entry \<open>*pte\<close> at \<open>i\<close> in \<open>d\<close> too, with the same flags, and counting the
  reference. The flag is false for \<open>goto bad\<close>.
\<close>

definition share_page :: "'a mach_scheme \<Rightarrow> u32 \<Rightarrow> u32 \<Rightarrow> u32 \<Rightarrow> ('a mach_scheme \<times> bool) outcome" where
  "share_page m d i pte =
     bnd (deref m pte) (\<lambda>e.
     bnd (mappages m d i PGSIZE (PTE_ADDR e) (PTE_FLAGS e)) (\<lambda>(m, done).
       if done then bnd (inclRefCount m (P2V (PTE_ADDR e))) (\<lambda>m. ok (m, True)) else ok (m, False)))"

text \<open>The three cases of the loop of \<open>cowuvm\<close>: shared memory, stack, and the rest.\<close>

definition cow_shm :: "'a mach_scheme \<Rightarrow> u32 \<Rightarrow> u32 \<Rightarrow> u32 \<Rightarrow> proc \<Rightarrow> ('a mach_scheme \<times> bool) outcome" where
  "cow_shm m pgdir d i curproc =
     (if i \<ge> shmnextpg curproc then ok (m, True)
      else bnd (walkpgdir m pgdir i False) (\<lambda>(m, pte).
        if pte = 0 then panic ''cowuvm: pte should exist'' else share_page m d i pte))"

definition cow_stack :: "'a mach_scheme \<Rightarrow> u32 \<Rightarrow> u32 \<Rightarrow> u32 \<Rightarrow> proc \<Rightarrow> ('a mach_scheme \<times> bool) outcome" where
  "cow_stack m pgdir d i curproc =
     (if i < guardpg curproc then ok (m, True)
      else bnd (walkpgdir m pgdir i False) (\<lambda>(m, pte).
        if pte = 0 then panic ''cowuvm: pte should exist''
        else bnd (deref m pte) (\<lambda>e.
          bnd (assign m pte ((e OR PTE_COW) AND NOT PTE_W)) (\<lambda>m.
          bnd (share_page m d i pte) (\<lambda>(m, done).
            if done \<and> i = guardpg curproc
            then bnd (clearpteu m d (guardpg curproc)) (\<lambda>m.
              bnd (clearptep m d (guardpg curproc)) (\<lambda>m. ok (m, True)))
            else ok (m, done))))))"

definition cow_rest :: "'a mach_scheme \<Rightarrow> u32 \<Rightarrow> u32 \<Rightarrow> u32 \<Rightarrow> ('a mach_scheme \<times> bool) outcome" where
  "cow_rest m pgdir d i =
     bnd (walkpgdir m pgdir i False) (\<lambda>(m, pte).
       if pte = 0 then panic ''cowuvm: pte should exist''
       else bnd (deref m pte) (\<lambda>e.
         if e AND PTE_P = 0 then panic ''cowuvm: page not present''
         else bnd (if e AND PTE_W \<noteq> 0 then assign m pte ((e OR PTE_COW) AND NOT PTE_W) else ok m)
           (\<lambda>m. share_page m d i pte)))"

definition cow_page :: "'a mach_scheme \<Rightarrow> u32 \<Rightarrow> u32 \<Rightarrow> u32 \<Rightarrow> proc \<Rightarrow> ('a mach_scheme \<times> bool) outcome" where
  "cow_page m pgdir d i curproc =
     (if i \<ge> stacktop curproc \<and> i < shmtop curproc then cow_shm m pgdir d i curproc
      else if i \<ge> stacklastpg curproc \<and> i < stacktop curproc then cow_stack m pgdir d i curproc
      else cow_rest m pgdir d i)"

fun cowuvm_loop :: "'a mach_scheme \<Rightarrow> u32 \<Rightarrow> u32 \<Rightarrow> u32 \<Rightarrow> proc \<Rightarrow> nat \<Rightarrow> ('a mach_scheme \<times> u32) outcome" where
  "cowuvm_loop m pgdir d i curproc 0 = ok (m, d)"
| "cowuvm_loop m pgdir d i curproc (Suc n) =
     bnd (cow_page m pgdir d i curproc) (\<lambda>(m, good).
       if good then cowuvm_loop m pgdir d (i + PGSIZE) curproc n
       else bnd (freevm m d (Some curproc)) (\<lambda>m. ok (m, 0)))"

definition cowuvm :: "'a vmach_scheme \<Rightarrow> u32 \<Rightarrow> u32 \<Rightarrow> proc \<Rightarrow> ('a vmach_scheme \<times> u32) outcome" where
  "cowuvm m pgdir sz curproc =
     bnd (setupkvm m) (\<lambda>(m, d).
       if d = 0 then ok (m, 0) else cowuvm_loop m pgdir d PGSIZE curproc (page_steps PGSIZE sz))"

section \<open>Copying to user memory\<close>

definition uva2ka :: "'a mach_scheme \<Rightarrow> u32 \<Rightarrow> u32 \<Rightarrow> u32 outcome" where
  "uva2ka m pgdir uva =
     bnd (walkpgdir m pgdir uva False) (\<lambda>(m, pte).
     bnd (deref m pte) (\<lambda>e.
       if e AND PTE_P = 0 then ok 0
       else if e AND PTE_U = 0 then ok 0
       else ok (P2V (PTE_ADDR e))))"

text \<open>The bytes of the page of \<open>va\<close> from \<open>va\<close> on, at most \<open>len\<close>.\<close>

definition chunk :: "u32 \<Rightarrow> u32 \<Rightarrow> u32" where
  "chunk va len = (let n = PGSIZE - (va - PGROUNDDOWN va) in if n > len then len else n)"

lemma chunk_bounds:
  assumes "len \<noteq> 0"
  shows "chunk va len \<noteq> 0" "chunk va len \<le> len"
proof -
  have "unat (va - PGROUNDDOWN va) < 4096"
    using PGROUNDDOWN_offset [of va] by simp
  then have "va - PGROUNDDOWN va < PGSIZE" by (simp add: word_less_nat_alt)
  then show "chunk va len \<noteq> 0" using assms by (auto simp: chunk_def Let_def)
  show "chunk va len \<le> len" by (auto simp: chunk_def Let_def not_less)
qed

function copyout :: "'a mach_scheme \<Rightarrow> u32 \<Rightarrow> u32 \<Rightarrow> u32 \<Rightarrow> u32 \<Rightarrow> ('a mach_scheme \<times> bool) outcome" where
  "copyout m pgdir va buf len =
     (if len = 0 then ok (m, True)
      else let va0 = PGROUNDDOWN va; n = chunk va len in
        bnd (uva2ka m pgdir va0) (\<lambda>pa0.
          if pa0 = 0 then ok (m, False)
          else copyout (m\<lparr>m_mem := memmove (m_mem m) (pa0 + (va - va0)) buf n\<rparr>)
            pgdir (va0 + PGSIZE) (buf + n) (len - n)))"
  by pat_completeness auto

termination
proof (relation "measure (\<lambda>(m, pgdir, va, buf, len). unat len)", goal_cases)
  case (2 m pgdir va buf len)
  then show ?case
    using chunk_bounds [of len va] by (simp add: unat_sub word_le_nat_alt word_neq_0_conv word_less_nat_alt)
qed simp

declare copyout.simps [simp del]

section \<open>The vDSO pages\<close>

text \<open>
  The code page and the ticks page are shared by all processes, the pid page is private.
  The three steps of \<open>allocvdso\<close>; each returns whether to go on. A failure leaves what was
  mapped before it.
\<close>

definition vdso_code :: "'a vmach_scheme \<Rightarrow> u32 \<Rightarrow> ('a vmach_scheme \<times> bool) outcome" where
  "vdso_code m pgdir =
     bnd (if vdso_text_page m = 0
          then bnd (kalloc m) (\<lambda>(m, v).
            if v = 0 then ok (m\<lparr>vdso_text_page := v\<rparr>, False)
            else ok (m\<lparr>vdso_text_page := v,
              m_mem := memmove (m_mem m) v (vdso_impl_start m) (vdso_impl_size m)\<rparr>, True))
          else ok (m, True)) (\<lambda>(m, good).
       if \<not> good then ok (m, False)
       else if sint (vdso_impl_size m) > 4096 then panic ''vdso text larger than a page''
       else bnd (mappages m pgdir VDSOTEXT PGSIZE (V2P (vdso_text_page m)) PTE_U) (\<lambda>(m, done).
         if done then bnd (inclRefCount m (vdso_text_page m)) (\<lambda>m. ok (m, True)) else ok (m, False)))"

definition vdso_pid :: "'a vmach_scheme \<Rightarrow> u32 \<Rightarrow> proc \<Rightarrow> ('a vmach_scheme \<times> bool) outcome" where
  "vdso_pid m pgdir p =
     bnd (kalloc m) (\<lambda>(m, v).
       if v = 0 then ok (m, False)
       else mappages (m\<lparr>m_mem := store32 (memset (m_mem m) v 0 PGSIZE) v (word_of_int (p_pid p))\<rparr>)
         pgdir (VDSOTEXT + 2 * PGSIZE) PGSIZE (V2P v) PTE_U)"

definition vdso_ticks :: "'a vmach_scheme \<Rightarrow> u32 \<Rightarrow> ('a vmach_scheme \<times> bool) outcome" where
  "vdso_ticks m pgdir =
     bnd (if vdso_ticks_page m = 0
          then bnd (kalloc m) (\<lambda>(m, v).
            if v = 0 then ok (m\<lparr>vdso_ticks_page := v\<rparr>, False)
            else ok (m\<lparr>vdso_ticks_page := v, m_mem := memset (m_mem m) v 0 PGSIZE\<rparr>, True))
          else ok (m, True)) (\<lambda>(m, good).
       if \<not> good then ok (m, False)
       else bnd (mappages m pgdir (VDSOTEXT + 1 * PGSIZE) PGSIZE (V2P (vdso_ticks_page m)) PTE_U) (\<lambda>(m, done).
         if done then bnd (inclRefCount m (vdso_ticks_page m)) (\<lambda>m. ok (m, True)) else ok (m, False)))"

definition allocvdso :: "'a vmach_scheme \<Rightarrow> u32 \<Rightarrow> proc \<Rightarrow> ('a vmach_scheme \<times> bool) outcome" where
  "allocvdso m pgdir p =
     bnd (vdso_code m pgdir) (\<lambda>(m, good).
       if \<not> good then ok (m, False)
       else bnd (vdso_pid m pgdir p) (\<lambda>(m, good).
         if \<not> good then ok (m, False) else vdso_ticks m pgdir))"

section \<open>Page faults\<close>

text \<open>
  \<open>pagefault\<close> handles a fault of the process \<open>p\<close> at the address \<open>cr2\<close>, with the error code in
  the trap frame, and returns the process as it leaves it. \<open>pf_kill\<close> sets \<open>killed\<close>, after a
  message.
\<close>

definition pf_kill :: "proc \<Rightarrow> proc" where
  "pf_kill p = p\<lparr>p_killed := True\<rparr>"

text \<open>The page guarding the stack becomes inaccessible again.\<close>

definition restore_guard :: "'a mach_scheme \<Rightarrow> proc \<Rightarrow> u32 \<Rightarrow> 'a mach_scheme outcome" where
  "restore_guard m p cr2 =
     (if PGROUNDDOWN cr2 \<noteq> guardpg p then panic ''not guard pg''
      else bnd (clearpteu m (p_pgdir p) (PGROUNDDOWN cr2)) (\<lambda>m.
        clearptep m (p_pgdir p) (PGROUNDDOWN cr2)))"

text \<open>Copy on write, more than one reference: the process gets a copy of the page.\<close>

definition cow_copy :: "'a mach_scheme \<Rightarrow> proc \<Rightarrow> u32 \<Rightarrow> u32 \<Rightarrow> u32 \<Rightarrow> ('a mach_scheme \<times> proc) outcome" where
  "cow_copy m p cr2 pte v =
     bnd (kalloc m) (\<lambda>(m, newpg).
       if newpg = 0 then Inl Fault
       else let m = m\<lparr>m_mem := memmove (m_mem m) newpg v PGSIZE\<rparr> in
         bnd (deref m pte) (\<lambda>e.
         bnd (assign m pte ((V2P newpg OR PTE_FLAGS e OR PTE_P OR PTE_W OR PTE_U) AND NOT PTE_COW)) (\<lambda>m.
         bnd (declRefCount m v) (\<lambda>m.
         bnd (deref m pte) (\<lambda>e.
         bnd (if e AND PTE_P = 0 then restore_guard m p cr2 else ok m) (\<lambda>m. ok (m, p)))))))"

text \<open>Copy on write, one reference: the page becomes writable in place.\<close>

definition cow_own :: "'a mach_scheme \<Rightarrow> proc \<Rightarrow> u32 \<Rightarrow> u32 \<Rightarrow> u32 \<Rightarrow> ('a mach_scheme \<times> proc) outcome" where
  "cow_own m p cr2 pte e =
     bnd (assign m pte ((e OR PTE_W) AND NOT PTE_COW)) (\<lambda>m.
     bnd (deref m pte) (\<lambda>e.
     bnd (if e AND PTE_P = 0 \<and> e AND PTE_COW \<noteq> 0 then restore_guard m p cr2 else ok m) (\<lambda>m. ok (m, p))))"

definition cow_fault :: "'a mach_scheme \<Rightarrow> proc \<Rightarrow> u32 \<Rightarrow> u32 \<Rightarrow> u32 \<Rightarrow> ('a mach_scheme \<times> proc) outcome" where
  "cow_fault m p cr2 pte e =
     (let v = P2V (PTE_ADDR e) in
      bnd (getRefCount m v) (\<lambda>(m, ref_count).
        if ref_count > 1 then cow_copy m p cr2 pte v
        else if ref_count = 1 then cow_own m p cr2 pte e
        else panic ''something went really wrong''))"

text \<open>The pages between the new guard page and the old one.\<close>

fun add_stack_pages :: "'a mach_scheme \<Rightarrow> proc \<Rightarrow> u32 \<Rightarrow> nat \<Rightarrow> 'a mach_scheme outcome" where
  "add_stack_pages m p i 0 = ok m"
| "add_stack_pages m p i (Suc n) =
     bnd (allocuvm m (p_pgdir p) i (i + PGSIZE) (Some p)) (\<lambda>(m, addpage).
       if addpage = 0 then panic ''addpage failed''
       else bnd (markpteup m (p_pgdir p) i) (\<lambda>m. add_stack_pages m p (i + PGSIZE) n))"

definition stack_fault :: "'a mach_scheme \<Rightarrow> proc \<Rightarrow> u32 \<Rightarrow> ('a mach_scheme \<times> proc) outcome" where
  "stack_fault m p cr2 =
     (let newguardpg = PGROUNDDOWN cr2 - PGSIZE in
      if newguardpg < stacklastpg p then ok (m, pf_kill p)
      else bnd (allocuvm m (p_pgdir p) newguardpg (newguardpg + PGSIZE) (Some p)) (\<lambda>(m, addguard).
        if addguard = 0 then panic ''addguard failed''
        else bnd (clearpteu m (p_pgdir p) newguardpg) (\<lambda>m.
          bnd (clearptep m (p_pgdir p) newguardpg) (\<lambda>m.
          bnd (markpteup m (p_pgdir p) (guardpg p)) (\<lambda>m.
          bnd (add_stack_pages m p addguard (page_steps addguard (guardpg p))) (\<lambda>m.
            ok (m, p\<lparr>guardpg := newguardpg\<rparr>)))))))"

text \<open>A page that is neither present nor copy on write: inside the stack area the stack grows.\<close>

definition absent_fault :: "'a mach_scheme \<Rightarrow> proc \<Rightarrow> u32 \<Rightarrow> ('a mach_scheme \<times> proc) outcome" where
  "absent_fault m p cr2 =
     (if cr2 \<ge> stacklastpg p \<and> cr2 < stacktop p then stack_fault m p cr2 else ok (m, pf_kill p))"

text \<open>A page that is present and not copy on write is read-only.\<close>

definition readonly_fault :: "'a mach_scheme \<Rightarrow> proc \<Rightarrow> ('a mach_scheme \<times> proc) outcome" where
  "readonly_fault m p = ok (m, pf_kill p)"

text \<open>
  An address with no page table makes the code print \<open>*pte\<close> with \<open>pte\<close> null before it can
  kill the process. The cases cover every entry, so that the panic at the end of the
  function cannot be reached.
\<close>

definition pagefault :: "'a mach_scheme \<Rightarrow> proc \<Rightarrow> u32 \<Rightarrow> ('a mach_scheme \<times> proc) outcome" where
  "pagefault m p cr2 =
     (if cr2 = 0 then ok (m, pf_kill p)
      else bnd (walkpgdir m (p_pgdir p) (PGROUNDDOWN cr2) False) (\<lambda>(m, pte).
        bnd (deref m pte) (\<lambda>e.
          if tf_err (p_tf p) AND FEC_WR = 0 then ok (m, pf_kill p)
          else if e AND PTE_COW \<noteq> 0 then cow_fault m p cr2 pte e
          else if e AND PTE_P = 0 then absent_fault m p cr2
          else readonly_fault m p)))"

end
