(* ===== verification/Vm_Map.thy ===== *)
theory Vm_Map
  imports Vm
begin

text \<open>
  Page tables as the mappings they stand for. \<open>xlate mem d va\<close> is the present entry that the
  two-level walk from the directory \<open>d\<close> finds for the page of \<open>va\<close>; \<open>pt_wf\<close> says that the
  directory and its tables are distinct pages taken from the allocator. With these,
  \<open>walkpgdir\<close> and \<open>mappages\<close> become an update of a partial function, and page faults on
  copy-on-write pages a change of one entry.
\<close>

section \<open>Pages and entries\<close>

lemma in_page:
  assumes "aligned v"
  shows "in_bytes v 4096 x \<longleftrightarrow> PGROUNDDOWN x = v"
proof -
  obtain k where k: "unat v = 4096 * k" using assms by (auto simp: aligned_def elim: dvdE)
  have b: "unat v \<le> 4294963200" "unat x < 4294967296" using u32_bound [of v] u32_bound [of x] k by auto
  have "in_bytes v 4096 x \<longleftrightarrow> unat v \<le> unat x \<and> unat x < unat v + 4096"
  proof (cases "unat v \<le> unat x")
    case True
    then show ?thesis by (auto simp: in_bytes_def unat_sub word_le_nat_alt)
  next
    case False
    then show ?thesis using unat_diff_wrap [of x v] b by (simp add: in_bytes_def)
  qed
  also have "\<dots> \<longleftrightarrow> unat x div 4096 * 4096 = unat v" using k by auto
  finally show ?thesis by (simp add: word_unat_eq_iff unat_PGROUNDDOWN)
qed

lemma unat_entry:
  assumes "aligned v" and "unat i < 1024" and "unat k < 4"
  shows "unat (v + 4 * i + k) = unat v + 4 * unat i + unat k"
proof -
  obtain q where "unat v = 4096 * q" using assms(1) by (auto simp: aligned_def elim: dvdE)
  then have "unat v \<le> 4294963200" using u32_bound [of v] by auto
  then show ?thesis using assms(2,3) by (simp add: unat_word_ariths)
qed

lemma entry_page:
  assumes "aligned v" and "unat i < 1024" and "unat k < 4"
  shows "PGROUNDDOWN (v + 4 * i + k) = v"
proof -
  obtain q where "unat v = 4096 * q" using assms(1) by (auto simp: aligned_def elim: dvdE)
  then have "(unat v + 4 * unat i + unat k) div 4096 * 4096 = unat v" using assms(2,3) by simp
  then show ?thesis using unat_entry [OF assms] by (simp add: word_unat_eq_iff unat_PGROUNDDOWN)
qed

lemma entry_page0: "aligned v \<Longrightarrow> unat i < 1024 \<Longrightarrow> PGROUNDDOWN (v + 4 * i) = v"
  using entry_page [of v i 0] by simp

lemma entry_inj:
  assumes "aligned v" "aligned w" "unat i < 1024" "unat j < 1024" and "v + 4 * i = w + 4 * j"
  shows "v = w" "i = j"
proof -
  show "v = w" using entry_page0 [of v i] entry_page0 [of w j] assms by simp
  then show "i = j"
    using unat_entry [of v i 0] unat_entry [of w j 0] assms by (auto simp: word_unat_eq_iff)
qed

text \<open>A byte of an entry is a byte of its page, and of no other entry.\<close>

lemma entry_bytes:
  assumes "aligned v" "aligned w" "unat i < 1024" "unat j < 1024" "unat k < 4" "unat l < 4"
    and "v + 4 * i + k = w + 4 * j + l"
  shows "v + 4 * i = w + 4 * j"
proof -
  have "v = w" using entry_page [of v i k] entry_page [of w j l] assms by simp
  moreover have "unat (v + 4 * i + k) = unat (w + 4 * j + l)" using assms(7) by (rule arg_cong)
  then have "4 * unat i + unat k = 4 * unat j + unat l"
    using \<open>v = w\<close> unat_entry [OF assms(1,3,5)] unat_entry [OF assms(2,4,6)] by simp
  then have "unat i = unat j" using assms(5,6) by presburger
  then have "i = j" by (simp only: word_unat_eq_iff)
  ultimately show ?thesis by simp
qed

lemma small_u32: "i \<in> {0, 1, 2, 3} \<Longrightarrow> unat (i :: u32) < 4"
  by auto

lemma load_store_entry:
  assumes "aligned v" "aligned w" "unat i < 1024" "unat j < 1024"
  shows "load32 (store32 mem (v + 4 * i) e) (w + 4 * j) =
    (if v = w \<and> i = j then e else load32 mem (w + 4 * j))"
proof (cases "v = w \<and> i = j")
  case False
  have "load32 (store32 mem (v + 4 * i) e) (w + 4 * j) = load32 mem (w + 4 * j)"
  proof (rule load32_cong, rule store32_other)
    fix l :: u32 assume l: "l \<in> {0, 1, 2, 3}"
    have "w + 4 * j + l \<noteq> v + 4 * i + k" if "k \<in> {0, 1, 2, 3}" for k
      using entry_bytes [of w v j i l k] entry_inj [of w v j i] assms small_u32 [OF l] small_u32 [OF that] False
      by auto
    from this [of 0] this [of 1] this [of 2] this [of 3]
    show "w + 4 * j + l \<notin> {v + 4 * i, v + 4 * i + 1, v + 4 * i + 2, v + 4 * i + 3}" by simp
  qed
  then show ?thesis using False by auto
qed simp

text \<open>Memory that agrees on a page agrees on its entries.\<close>

lemma load_entry_cong:
  assumes "aligned v" "unat i < 1024" and "\<And>x. PGROUNDDOWN x = v \<Longrightarrow> mem x = mem' x"
  shows "load32 mem (v + 4 * i) = load32 mem' (v + 4 * i)"
  by (rule load32_cong) (rule assms(3), rule entry_page [OF assms(1,2) small_u32])

lemma store_entry_other:
  assumes "aligned v" "unat i < 1024" and "PGROUNDDOWN x \<noteq> v"
  shows "store32 mem (v + 4 * i) e x = mem x"
  using entry_page [OF assms(1,2), of 0] entry_page [OF assms(1,2), of 1]
    entry_page [OF assms(1,2), of 2] entry_page [OF assms(1,2), of 3] assms(3)
  by (intro store32_other) auto

lemma memset_page: "aligned v \<Longrightarrow> memset mem v c PGSIZE x = (if PGROUNDDOWN x = v then ucast c else mem x)"
  by (simp add: memset_apply in_page)

lemma load_zero: "(\<And>i. i \<in> {0, 1, 2, 3} \<Longrightarrow> mem (a + i) = 0) \<Longrightarrow> load32 mem a = 0"
  using add_0_right [of a] by (fastforce simp: load32_def)

lemma load_zeroed_page:
  assumes "aligned v" "aligned w" "unat j < 1024"
  shows "load32 (memset mem v 0 PGSIZE) (w + 4 * j) = (if v = w then 0 else load32 mem (w + 4 * j))"
proof (cases "v = w")
  case True
  then show ?thesis using load_zero [of "memset mem v 0 PGSIZE" "w + 4 * j"] assms
    by (auto simp: memset_page entry_page small_u32)
next
  case False
  then show ?thesis using assms by (auto simp: memset_page intro!: load_entry_cong)
qed

section \<open>The mapping of a page directory\<close>

definition pde_at :: "memory \<Rightarrow> u32 \<Rightarrow> u32 \<Rightarrow> u32" where
  "pde_at mem d va = load32 mem (d + 4 * PDX va)"

definition has_tab :: "memory \<Rightarrow> u32 \<Rightarrow> u32 \<Rightarrow> bool" where
  "has_tab mem d va \<longleftrightarrow> pde_at mem d va AND PTE_P \<noteq> 0"

definition tab_at :: "memory \<Rightarrow> u32 \<Rightarrow> u32 \<Rightarrow> u32" where
  "tab_at mem d va = P2V (PTE_ADDR (pde_at mem d va))"

definition pte_ptr :: "memory \<Rightarrow> u32 \<Rightarrow> u32 \<Rightarrow> u32" where
  "pte_ptr mem d va = tab_at mem d va + 4 * PTX va"

definition pte_at :: "memory \<Rightarrow> u32 \<Rightarrow> u32 \<Rightarrow> u32" where
  "pte_at mem d va = load32 mem (pte_ptr mem d va)"

definition xlate :: "memory \<Rightarrow> u32 \<Rightarrow> u32 \<Rightarrow> u32 option" where
  "xlate mem d va =
     (if has_tab mem d va \<and> pte_at mem d va AND PTE_P \<noteq> 0 then Some (pte_at mem d va) else None)"

text \<open>The directory and its tables are different pages of \<open>U\<close>.\<close>

definition pt_wf :: "memory \<Rightarrow> u32 \<Rightarrow> u32 set \<Rightarrow> bool" where
  "pt_wf mem d U \<longleftrightarrow> d \<in> U \<and>
     (\<forall>va. has_tab mem d va \<longrightarrow> tab_at mem d va \<in> U \<and> tab_at mem d va \<noteq> d) \<and>
     (\<forall>va vb. has_tab mem d va \<and> has_tab mem d vb \<and> tab_at mem d va = tab_at mem d vb \<longrightarrow> PDX va = PDX vb)"

definition live_pages :: "'a mach_scheme \<Rightarrow> u32 set" where
  "live_pages m = usable_pages m - free_pages m"

definition pt_pages :: "memory \<Rightarrow> u32 \<Rightarrow> u32 set" where
  "pt_pages mem d = insert d {tab_at mem d va | va. has_tab mem d va}"

definition pt_ok :: "'a mach_scheme \<Rightarrow> u32 \<Rightarrow> bool" where
  "pt_ok m d \<longleftrightarrow> alloc_inv m \<and> pt_wf (m_mem m) d (live_pages m)"

text \<open>
  \<open>pt_ext m m' d\<close>: from \<open>m\<close> to \<open>m'\<close> the tables of \<open>d\<close> may have changed and grown by pages that
  were free; everything else is as it was.
\<close>

definition pt_ext :: "'a mach_scheme \<Rightarrow> 'a mach_scheme \<Rightarrow> u32 \<Rightarrow> bool" where
  "pt_ext m m' d \<longleftrightarrow> pt_ok m' d \<and> usable_pages m' = usable_pages m \<and> free_pages m' \<subseteq> free_pages m \<and>
     pt_pages (m_mem m) d \<subseteq> pt_pages (m_mem m') d \<and>
     pt_pages (m_mem m') d \<subseteq> pt_pages (m_mem m) d \<union> (free_pages m - free_pages m') \<and>
     (\<forall>x. PGROUNDDOWN x \<notin> pt_pages (m_mem m') d \<longrightarrow> m_mem m' x = m_mem m x) \<and>
     (\<forall>v. refs m' v = (if v \<in> free_pages m - free_pages m' then 1 else refs m v)) \<and>
     kend m' = kend m \<and> mach.more m' = mach.more m"

lemma usable_aligned: "v \<in> usable_pages m \<Longrightarrow> aligned v \<and> v \<noteq> 0"
  by (elim usable_cases) (simp add: page_valid aligned_iff)

lemma live_aligned: "v \<in> live_pages m \<Longrightarrow> aligned v \<and> v \<noteq> 0"
  using usable_aligned by (auto simp: live_pages_def)

lemma pt_wfD:
  assumes "pt_wf mem d U"
  shows "d \<in> U" "has_tab mem d va \<Longrightarrow> tab_at mem d va \<in> U" "has_tab mem d va \<Longrightarrow> tab_at mem d va \<noteq> d"
    "has_tab mem d va \<Longrightarrow> has_tab mem d vb \<Longrightarrow> tab_at mem d va = tab_at mem d vb \<Longrightarrow> PDX va = PDX vb"
  using assms unfolding pt_wf_def by blast+

lemma aligned_tab_at [simp]: "aligned (tab_at mem d va)"
  by (simp add: tab_at_def)

lemma same_page_iff: "PDX x = PDX y \<and> PTX x = PTX y \<longleftrightarrow> PGROUNDDOWN x = PGROUNDDOWN y"
proof -
  have 1: "unat (PDX (PGROUNDDOWN z)) = unat (PDX z)" "unat (PTX (PGROUNDDOWN z)) = unat (PTX z)" for z
    by (simp_all add: unat_PDX unat_PTX unat_PGROUNDDOWN div_mult2_eq [of _ 4096 1024, simplified])
  then have "PDX (PGROUNDDOWN z) = PDX z" "PTX (PGROUNDDOWN z) = PTX z" for z
    by (simp_all add: word_unat_eq_iff)
  then show ?thesis
    using page_index_inj [of "PGROUNDDOWN x" "PGROUNDDOWN y"] by (metis aligned_PGROUNDDOWN)
qed

text \<open>Writing an entry of a table changes one page's mapping.\<close>

lemma set_pte:
  fixes e :: u32
  assumes wf: "pt_wf mem d U" and al: "aligned d" and tab: "has_tab mem d va"
  defines "mem' \<equiv> store32 mem (pte_ptr mem d va) e"
  shows "pde_at mem' d x = pde_at mem d x"
    "has_tab mem d x \<Longrightarrow> pte_at mem' d x = (if PGROUNDDOWN x = PGROUNDDOWN va then e else pte_at mem d x)"
    "PGROUNDDOWN y \<noteq> tab_at mem d va \<Longrightarrow> mem' y = mem y"
proof -
  show pde: "pde_at mem' d x = pde_at mem d x" for x
    unfolding pde_at_def mem'_def pte_ptr_def
    using pt_wfD(3) [OF wf tab] al PTX_bound PDX_bound by (simp add: load_store_entry)
  show "PGROUNDDOWN y \<noteq> tab_at mem d va \<Longrightarrow> mem' y = mem y"
    unfolding mem'_def pte_ptr_def by (rule store_entry_other) (simp_all add: PTX_bound)
  assume x: "has_tab mem d x"
  have t: "tab_at mem' d x = tab_at mem d x" by (simp add: tab_at_def pde)
  have "PDX x = PDX va" if "tab_at mem d va = tab_at mem d x" using pt_wfD(4) [OF wf tab x that] by simp
  moreover have "tab_at mem d va = tab_at mem d x" if "PDX x = PDX va" using that by (simp add: tab_at_def pde_at_def)
  ultimately have "tab_at mem d va = tab_at mem d x \<and> PTX va = PTX x \<longleftrightarrow> PGROUNDDOWN x = PGROUNDDOWN va"
    using same_page_iff [of x va] by metis
  then show "pte_at mem' d x = (if PGROUNDDOWN x = PGROUNDDOWN va then e else pte_at mem d x)"
    unfolding pte_at_def pte_ptr_def t unfolding mem'_def pte_ptr_def by (simp add: load_store_entry PTX_bound)
qed

text \<open>A zeroed page as a new table maps nothing new.\<close>

lemma new_table:
  assumes wf: "pt_wf mem d U" and al: "aligned d" "aligned v" and new: "v \<notin> U" and no: "\<not> has_tab mem d va"
  defines "mem' \<equiv> store32 (memset mem v 0 PGSIZE) (d + 4 * PDX va) (V2P v OR PTE_P OR PTE_W OR PTE_U)"
  shows "has_tab mem' d x \<longleftrightarrow> has_tab mem d x \<or> PDX x = PDX va"
    "PDX x = PDX va \<Longrightarrow> tab_at mem' d x = v" "PDX x \<noteq> PDX va \<Longrightarrow> tab_at mem' d x = tab_at mem d x"
    "xlate mem' d x = xlate mem d x"
    "PGROUNDDOWN y \<notin> {d, v} \<Longrightarrow> mem' y = mem y"
proof -
  have vd: "v \<noteq> d" using pt_wfD(1) [OF wf] new by auto
  let ?e = "V2P v OR PTE_P OR PTE_W OR PTE_U"
  have "(7 :: u32) AND - 4096 = 0" by simp
  then have addr: "PTE_ADDR (V2P v OR 7) = V2P v" using PTE_ADDR_or [of "V2P v" 7] al(2) by simp
  have p: "?e AND PTE_P \<noteq> 0" by (auto simp: bit_eq_iff bit_simps intro: exI [of _ 0])
  have pde: "pde_at mem' d x = (if PDX x = PDX va then ?e else pde_at mem d x)" for x
    unfolding pde_at_def mem'_def using al vd PDX_bound by (simp add: load_store_entry load_zeroed_page)
  show ht: "has_tab mem' d x \<longleftrightarrow> has_tab mem d x \<or> PDX x = PDX va" for x
    using p by (auto simp: has_tab_def pde)
  show t1: "PDX x = PDX va \<Longrightarrow> tab_at mem' d x = v" for x by (simp add: tab_at_def pde addr)
  show t2: "PDX x \<noteq> PDX va \<Longrightarrow> tab_at mem' d x = tab_at mem d x" for x by (simp add: tab_at_def pde)
  show other: "PGROUNDDOWN y \<notin> {d, v} \<Longrightarrow> mem' y = mem y" for y
    unfolding mem'_def using al PDX_bound by (simp add: store_entry_other memset_page)
  have nx: "\<not> has_tab mem d x" if "PDX x = PDX va" for x using no that by (simp add: has_tab_def pde_at_def)
  have z: "pte_at mem' d x = 0" if "PDX x = PDX va" for x
    unfolding pte_at_def pte_ptr_def t1 [OF that] unfolding mem'_def
    using al vd PDX_bound PTX_bound by (simp add: load_store_entry load_zeroed_page)
  have o: "pte_at mem' d x = pte_at mem d x" if "has_tab mem d x" "PDX x \<noteq> PDX va" for x
  proof -
    have "tab_at mem d x \<notin> {d, v}" using pt_wfD(2,3) [OF wf that(1)] new by auto
    then show ?thesis unfolding pte_at_def pte_ptr_def t2 [OF that(2)]
      by (intro load_entry_cong) (auto simp: PTX_bound other)
  qed
  show "xlate mem' d x = xlate mem d x"
    using ht [of x] z [of x] o [of x] nx [of x] unfolding xlate_def by (cases "PDX x = PDX va") auto
qed

section \<open>Walking and mapping\<close>

lemma alloc_mem [simp]:
  "alloc_inv (m\<lparr>m_mem := x\<rparr>) = alloc_inv m" "usable_pages (m\<lparr>m_mem := x\<rparr>) = usable_pages m"
  "free_pages (m\<lparr>m_mem := x\<rparr>) = free_pages m" "refs (m\<lparr>m_mem := x\<rparr>) = refs m"
  "live_pages (m\<lparr>m_mem := x\<rparr>) = live_pages m"
  by (auto simp: alloc_inv_def usable_pages_def free_pages_def refs_def live_pages_def fun_eq_iff)

lemma kalloc_rest: "post (kalloc m) (\<lambda>(m', v). kend m' = kend m \<and> mach.more m' = mach.more m)"
  by (auto simp: kalloc_def kmem_acquire_def kmem_release_def pop_run_def run_upd_defs Let_def intro!: postI
      elim!: bnd_eq_Inr [THEN iffD1, THEN exE] split: if_splits option.splits prod.splits sum.splits)

lemma kalloc_gives:
  assumes "alloc_inv m"
  shows "gives (kalloc m) (\<lambda>(m', v). alloc_inv m' \<and> m_mem m' = m_mem m \<and> usable_pages m' = usable_pages m \<and>
    kend m' = kend m \<and> mach.more m' = mach.more m \<and>
    (v = 0 \<and> free_pages m = {} \<and> free_pages m' = {} \<and> refs m' = refs m \<or>
     v \<in> free_pages m \<and> v \<in> usable_pages m \<and> v \<noteq> 0 \<and> free_pages m' = free_pages m - {v} \<and> refs m' = (refs m)(v := 1)))"
proof (cases "free_pages m = {}")
  case True
  from km.alloc_none [OF assms True] kalloc_rest [of m] show ?thesis using True by (auto simp: gives_def post_def)
next
  case False
  from km.alloc_some [OF assms False] obtain m' v where "kalloc m = ok (m', v)" "v \<in> free_pages m" "alloc_inv m'"
    "free_pages m' = free_pages m - {v}" "usable_pages m' = usable_pages m" "refs m' = (refs m)(v := 1)"
    "m_mem m' = m_mem m" by blast
  with kalloc_rest [of m] km.free_page [OF assms, of v] show ?thesis by (auto simp: gives_def post_def)
qed

lemma pt_okD:
  assumes "pt_ok m d"
  shows "alloc_inv m" "pt_wf (m_mem m) d (live_pages m)" "aligned d" "d \<in> live_pages m"
    "has_tab (m_mem m) d va \<Longrightarrow> tab_at (m_mem m) d va \<in> live_pages m"
proof -
  show wf: "alloc_inv m" "pt_wf (m_mem m) d (live_pages m)" using assms by (simp_all add: pt_ok_def)
  show "d \<in> live_pages m" "has_tab (m_mem m) d va \<Longrightarrow> tab_at (m_mem m) d va \<in> live_pages m"
    using pt_wfD(1,2) [OF wf(2)] by blast+
  then show "aligned d" using live_aligned by blast
qed

lemma pt_ext_refl: "pt_ok m d \<Longrightarrow> pt_ext m m d"
  by (simp add: pt_ext_def)

lemma pt_ext_trans:
  assumes "pt_ext a b d" and "pt_ext b c d"
  shows "pt_ext a c d"
proof -
  have "refs c v = (if v \<in> free_pages a - free_pages c then 1 else refs a v)" for v
    using assms by (auto simp: pt_ext_def)
  moreover have "PGROUNDDOWN x \<notin> pt_pages (m_mem c) d \<longrightarrow> m_mem c x = m_mem a x" for x
    using assms unfolding pt_ext_def by (metis subsetD)
  ultimately show ?thesis using assms unfolding pt_ext_def by auto
qed

lemma pt_ext_ok: "pt_ext m m' d \<Longrightarrow> pt_ok m' d"
  by (simp add: pt_ext_def)

lemma set_pte_ext:
  fixes e :: u32 and m :: "'a mach_scheme"
  assumes ok: "pt_ok m d" and tab: "has_tab (m_mem m) d va"
  defines "m' \<equiv> m\<lparr>m_mem := store32 (m_mem m) (pte_ptr (m_mem m) d va) e\<rparr>"
  shows "pt_ext m m' d"
    "xlate (m_mem m') d x = (if PGROUNDDOWN x = PGROUNDDOWN va then if e AND PTE_P \<noteq> 0 then Some e else None
       else xlate (m_mem m) d x)"
proof -
  note wf = pt_okD(2) [OF ok] and al = pt_okD(3) [OF ok]
  note s = set_pte [OF wf al tab, where e = e]
  have pde: "pde_at (m_mem m') d x = pde_at (m_mem m) d x" for x using s(1) by (simp add: m'_def)
  then have eq: "has_tab (m_mem m') d x = has_tab (m_mem m) d x" "tab_at (m_mem m') d x = tab_at (m_mem m) d x" for x
    by (simp_all add: has_tab_def tab_at_def)
  then have pp: "pt_pages (m_mem m') d = pt_pages (m_mem m) d" by (simp add: pt_pages_def)
  have "tab_at (m_mem m) d va \<in> pt_pages (m_mem m) d" using tab by (auto simp: pt_pages_def)
  then have "PGROUNDDOWN y \<notin> pt_pages (m_mem m) d \<longrightarrow> m_mem m' y = m_mem m y" for y
    using s(3) [of y] unfolding m'_def by (metis mach.select_convs(3) mach.update_convs(3) mach.surjective)
  moreover have "pt_ok m' d" using ok unfolding pt_ok_def pt_wf_def eq by (simp add: m'_def)
  ultimately show "pt_ext m m' d" unfolding pt_ext_def pp by (simp add: m'_def)
  have "has_tab (m_mem m) d x" if "PGROUNDDOWN x = PGROUNDDOWN va"
    using tab that same_page_iff [of x va] by (simp add: has_tab_def pde_at_def)
  then show "xlate (m_mem m') d x = (if PGROUNDDOWN x = PGROUNDDOWN va then if e AND PTE_P \<noteq> 0 then Some e else None
       else xlate (m_mem m) d x)"
    using s(2) [of x] unfolding xlate_def eq by (auto simp: m'_def split: if_splits)
qed

lemma new_table_ext:
  fixes m m1 :: "'a mach_scheme"
  assumes ok: "pt_ok m d" and no: "\<not> has_tab (m_mem m) d va"
    and k: "alloc_inv m1" "m_mem m1 = m_mem m" "usable_pages m1 = usable_pages m" "kend m1 = kend m"
      "mach.more m1 = mach.more m" "v \<in> free_pages m" "v \<in> usable_pages m"
      "free_pages m1 = free_pages m - {v}" "refs m1 = (refs m)(v := 1)"
  defines "m' \<equiv> m1\<lparr>m_mem := store32 (memset (m_mem m1) v 0 PGSIZE) (d + 4 * PDX va) (V2P v OR PTE_P OR PTE_W OR PTE_U)\<rparr>"
  shows "pt_ext m m' d" "has_tab (m_mem m') d va" "pte_ptr (m_mem m') d va = v + 4 * PTX va"
    "xlate (m_mem m') d = xlate (m_mem m) d"
proof -
  note wf = pt_okD(2) [OF ok] and al = pt_okD(3) [OF ok]
  have av: "aligned v" using usable_aligned [OF k(7)] by simp
  have new: "v \<notin> live_pages m" using k(6) by (simp add: live_pages_def)
  note t = new_table [OF wf al av new no, folded k(2)]
  show "xlate (m_mem m') d = xlate (m_mem m) d" by (rule ext) (use t(4) k(2) in \<open>simp add: m'_def\<close>)
  show ht: "has_tab (m_mem m') d va" using t(1) by (simp add: m'_def)
  show "pte_ptr (m_mem m') d va = v + 4 * PTX va" using t(2) by (simp add: m'_def pte_ptr_def)
  have live: "live_pages m' = insert v (live_pages m)"
    using k by (auto simp: live_pages_def m'_def)
  have cases: "PDX x = PDX va \<and> tab_at (m_mem m') d x = v \<or>
      PDX x \<noteq> PDX va \<and> has_tab (m_mem m) d x \<and> tab_at (m_mem m') d x = tab_at (m_mem m) d x"
    if "has_tab (m_mem m') d x" for x
    using that t(1-3) [of x] k(2) by (auto simp: m'_def)
  have old: "has_tab (m_mem m') d x \<and> tab_at (m_mem m') d x = tab_at (m_mem m) d x" if "has_tab (m_mem m) d x" for x
  proof -
    have "PDX x \<noteq> PDX va" using no that by (auto simp: has_tab_def pde_at_def)
    then show ?thesis using t(1,3) [of x] that k(2) by (simp add: m'_def)
  qed
  have "d \<in> live_pages m'" using live pt_wfD(1) [OF wf] by simp
  moreover have "tab_at (m_mem m') d x \<in> live_pages m' \<and> tab_at (m_mem m') d x \<noteq> d" if "has_tab (m_mem m') d x" for x
    using cases [OF that] pt_wfD(1-3) [OF wf] new unfolding live by (metis insertCI)
  moreover have "PDX x = PDX y" if "has_tab (m_mem m') d x" "has_tab (m_mem m') d y"
      "tab_at (m_mem m') d x = tab_at (m_mem m') d y" for x y
    using cases [OF that(1)] cases [OF that(2)] that(3) pt_wfD(2,4) [OF wf] new by metis
  ultimately have ok': "pt_ok m' d"
    using k(1) unfolding pt_ok_def pt_wf_def by (simp add: m'_def)
  have tv: "tab_at (m_mem m') d va = v" using t(2) by (simp add: m'_def)
  have "{tab_at (m_mem m') d x |x. has_tab (m_mem m') d x} = insert v {tab_at (m_mem m) d x |x. has_tab (m_mem m) d x}"
    (is "?L = ?R")
  proof (intro equalityI subsetI)
    fix w assume "w \<in> ?L"
    then obtain x where "has_tab (m_mem m') d x" "w = tab_at (m_mem m') d x" by blast
    with cases [of x] show "w \<in> ?R" by blast
  next
    fix w assume "w \<in> ?R"
    then consider "w = v" | x where "has_tab (m_mem m) d x" "w = tab_at (m_mem m) d x" by blast
    then show "w \<in> ?L" by cases (use ht tv in blast, metis (mono_tags, lifting) mem_Collect_eq old)
  qed
  then have "pt_pages (m_mem m') d = insert v (pt_pages (m_mem m) d)"
    unfolding pt_pages_def by blast
  moreover have "d \<in> pt_pages (m_mem m) d" by (simp add: pt_pages_def)
  moreover have "m_mem m' y = m_mem m y" if "PGROUNDDOWN y \<notin> {d, v}" for y
    using t(5) [OF that] k(2) by (simp add: m'_def)
  ultimately have "\<forall>x. PGROUNDDOWN x \<notin> pt_pages (m_mem m') d \<longrightarrow> m_mem m' x = m_mem m x"
    "pt_pages (m_mem m) d \<subseteq> pt_pages (m_mem m') d" "pt_pages (m_mem m') d \<subseteq> insert v (pt_pages (m_mem m) d)"
    by (metis insert_iff empty_iff, blast, blast)
  moreover have "usable_pages m' = usable_pages m" "free_pages m' = free_pages m - {v}" "refs m' = (refs m)(v := 1)"
    "kend m' = kend m" "mach.more m' = mach.more m" using k by (simp_all add: m'_def)
  ultimately show "pt_ext m m' d" using ok' k(6) unfolding pt_ext_def by auto
qed

lemma pte_ptr_page: "PGROUNDDOWN (pte_ptr mem d va) = tab_at mem d va"
  by (simp add: pte_ptr_def entry_page0 PTX_bound)

lemma pte_ptr_nonnull: "pt_ok m d \<Longrightarrow> has_tab (m_mem m) d va \<Longrightarrow> pte_ptr (m_mem m) d va \<noteq> 0"
proof
  assume "pt_ok m d" "has_tab (m_mem m) d va" "pte_ptr (m_mem m) d va = 0"
  then have "tab_at (m_mem m) d va \<in> live_pages m" "tab_at (m_mem m) d va = 0"
    using pte_ptr_page [of "m_mem m" d va] pt_okD(5) [of m d va] by (simp_all add: PGROUNDDOWN_def)
  then show False using live_aligned by blast
qed

lemma walkpgdir_find:
  "walkpgdir m d va False = ok (m, if has_tab (m_mem m) d va then pte_ptr (m_mem m) d va else 0)"
  by (simp add: walkpgdir_def Let_def has_tab_def pte_ptr_def tab_at_def pde_at_def)

lemma walkpgdir_alloc:
  assumes "pt_ok m d"
  shows "gives (walkpgdir m d va True) (\<lambda>(m', p). pt_ext m m' d \<and> xlate (m_mem m') d = xlate (m_mem m) d \<and>
    (p = 0 \<and> free_pages m' = {} \<or> p \<noteq> 0 \<and> has_tab (m_mem m') d va \<and> p = pte_ptr (m_mem m') d va))"
proof (cases "has_tab (m_mem m) d va")
  case True
  have "walkpgdir m d va True = ok (m, pte_ptr (m_mem m) d va)"
    using True by (simp add: walkpgdir_def Let_def has_tab_def pte_ptr_def tab_at_def pde_at_def)
  then show ?thesis using True pte_ptr_nonnull [OF assms True] pt_ext_refl [OF assms] by simp
next
  case False
  have inv: "alloc_inv m" using assms by (simp add: pt_ok_def)
  obtain m1 v where k: "kalloc m = ok (m1, v)" "alloc_inv m1" "m_mem m1 = m_mem m" "usable_pages m1 = usable_pages m"
    "kend m1 = kend m" "mach.more m1 = mach.more m"
    and v: "v = 0 \<and> free_pages m = {} \<and> free_pages m1 = {} \<and> refs m1 = refs m \<or>
     v \<in> free_pages m \<and> v \<in> usable_pages m \<and> v \<noteq> 0 \<and> free_pages m1 = free_pages m - {v} \<and> refs m1 = (refs m)(v := 1)"
    using kalloc_gives [OF inv] by (auto elim!: givesE)
  have no: "load32 (m_mem m) (d + 4 * PDX va) AND PTE_P = 0"
    using False by (simp add: has_tab_def pde_at_def)
  show ?thesis
  proof (cases "v = 0")
    case True
    then have "pt_ext m m1 d"
      using assms k v km.free_page [OF inv, of 0] unfolding pt_ext_def pt_ok_def live_pages_def by auto
    then show ?thesis using True k v no km.free_page [OF inv, of 0] by (auto simp: walkpgdir_def Let_def)
  next
    case False
    note n = new_table_ext [OF assms \<open>\<not> has_tab (m_mem m) d va\<close> k(2-6), of v]
    show ?thesis using False k v no n pte_ptr_nonnull [OF pt_ext_ok [OF n(1)], of va]
      by (simp add: walkpgdir_def Let_def)
  qed
qed

text \<open>A mapping with \<open>n\<close> pages added at \<open>a\<close>.\<close>

definition with_pages :: "(u32 \<Rightarrow> u32 option) \<Rightarrow> u32 \<Rightarrow> nat \<Rightarrow> u32 \<Rightarrow> u32 \<Rightarrow> u32 \<Rightarrow> u32 option" where
  "with_pages f a n pa perm x =
     (if unat (PGROUNDDOWN x - a) < n * 4096 then Some ((pa + (PGROUNDDOWN x - a)) OR perm OR PTE_P) else f x)"

lemma with_pages_0 [simp]: "with_pages f a 0 pa perm = f"
  by (simp add: with_pages_def fun_eq_iff)

lemma page_cons:
  assumes "aligned z" and "Suc n * 4096 \<le> 4294967296"
  shows "unat z < Suc n * 4096 \<longleftrightarrow> z = 0 \<or> unat (z - PGSIZE) < n * 4096" "z = 0 \<Longrightarrow> \<not> unat (z - PGSIZE) < n * 4096"
proof -
  obtain q where q: "unat z = 4096 * q" using assms(1) by (auto simp: aligned_def elim: dvdE)
  have z0: "unat (0 - PGSIZE :: u32) = 4294963200" by simp
  show "z = 0 \<Longrightarrow> \<not> unat (z - PGSIZE) < n * 4096" using z0 assms(2) by simp
  show "unat z < Suc n * 4096 \<longleftrightarrow> z = 0 \<or> unat (z - PGSIZE) < n * 4096"
  proof (cases "z = 0")
    case False
    then have "4096 \<le> unat z" using q by (auto simp: word_unat_eq_iff)
    then have "unat (z - PGSIZE) = unat z - 4096" by (simp add: unat_sub word_le_nat_alt)
    with False \<open>4096 \<le> unat z\<close> show ?thesis by auto
  qed simp
qed

lemma aligned_add_iff: "aligned b \<Longrightarrow> aligned (a + b) \<longleftrightarrow> aligned a"
proof -
  assume b: "aligned b"
  have "unat (a + b) mod 4096 = (unat a + unat b) mod 4096"
    by (simp add: unat_word_ariths mod_mod_cancel)
  also have "\<dots> = unat a mod 4096" using b mod_add_right_eq [of "unat a" "unat b" 4096] by (simp add: aligned_def)
  finally show ?thesis by (simp add: aligned_def)
qed

lemma aligned_diff: "aligned a \<Longrightarrow> aligned b \<Longrightarrow> aligned (a - b)"
  using aligned_add_iff [of b "a - b"] by simp

lemma aligned_4096 [simp]: "aligned PGSIZE"
  by (simp add: aligned_def)

lemma with_pages_cons:
  assumes "aligned a" and "Suc n * 4096 \<le> 4294967296"
    and "\<And>x. g x = (if PGROUNDDOWN x = a then Some (pa OR perm OR PTE_P) else f x)"
  shows "with_pages g (a + PGSIZE) n (pa + PGSIZE) perm = with_pages f a (Suc n) pa perm"
proof
  fix x
  let ?z = "PGROUNDDOWN x - a"
  have z: "aligned ?z" using assms(1) by (simp add: aligned_diff)
  have e: "PGROUNDDOWN x - (a + PGSIZE) = ?z - PGSIZE" "pa + PGSIZE + (?z - PGSIZE) = pa + ?z" by simp_all
  have "?z = 0 \<longleftrightarrow> PGROUNDDOWN x = a" by auto
  then show "with_pages g (a + PGSIZE) n (pa + PGSIZE) perm x = with_pages f a (Suc n) pa perm x"
    using page_cons [OF z assms(2)] unfolding with_pages_def e assms(3) by auto
qed

lemma with_pages_none:
  assumes "aligned a" "Suc n * 4096 \<le> 4294967296"
    and "\<And>x. unat (PGROUNDDOWN x - a) < Suc n * 4096 \<Longrightarrow> f x = None"
    and "\<And>x. g x = (if PGROUNDDOWN x = a then e else f x)"
    and "unat (PGROUNDDOWN x - (a + PGSIZE)) < n * 4096"
  shows "g x = None"
proof -
  let ?z = "PGROUNDDOWN x - a"
  have z: "aligned ?z" and e: "PGROUNDDOWN x - (a + PGSIZE) = ?z - PGSIZE" using assms(1) by (simp_all add: aligned_diff)
  have "unat ?z < Suc n * 4096" "?z \<noteq> 0" using page_cons [OF z assms(2)] assms(5) unfolding e by blast+
  then show ?thesis using assms(3,4) by auto
qed

lemma xlate_None_pte: "xlate mem d va = None \<Longrightarrow> has_tab mem d va \<Longrightarrow> pte_at mem d va AND PTE_P = 0"
  by (auto simp: xlate_def split: if_splits)

lemma map_one:
  assumes "pt_ok m d" and "aligned a" and none: "\<And>x. PGROUNDDOWN x = a \<Longrightarrow> xlate (m_mem m) d x = None"
    and cont: "\<And>m'. pt_ext m m' d \<Longrightarrow> (\<And>x. xlate (m_mem m') d x =
      (if PGROUNDDOWN x = a then Some (pa OR perm OR PTE_P) else xlate (m_mem m) d x)) \<Longrightarrow> gives (f m') P"
    and stop: "\<And>m'. pt_ext m m' d \<Longrightarrow> free_pages m' = {} \<Longrightarrow> xlate (m_mem m') d = xlate (m_mem m) d \<Longrightarrow> P (m', False)"
  shows "gives (bnd (walkpgdir m d a True) (\<lambda>(m, pte). if pte = 0 then ok (m, False)
    else bnd (deref m pte) (\<lambda>e. if e AND PTE_P \<noteq> 0 then panic ''remap''
      else bnd (assign m pte (pa OR perm OR PTE_P)) f))) P"
proof -
  obtain m1 p where w: "walkpgdir m d a True = ok (m1, p)" "pt_ext m m1 d" "xlate (m_mem m1) d = xlate (m_mem m) d"
    and p: "p = 0 \<and> free_pages m1 = {} \<or> p \<noteq> 0 \<and> has_tab (m_mem m1) d a \<and> p = pte_ptr (m_mem m1) d a"
    using walkpgdir_alloc [OF assms(1), of a] by (auto elim!: givesE)
  show ?thesis
  proof (cases "p = 0")
    case True
    then show ?thesis using w p stop [of m1] by auto
  next
    case False
    then have p: "has_tab (m_mem m1) d a" "p = pte_ptr (m_mem m1) d a" using p by auto
    note ok1 = pt_ext_ok [OF w(2)]
    let ?m2 = "m1\<lparr>m_mem := store32 (m_mem m1) p (pa OR perm OR PTE_P)\<rparr>"
    have "pte_at (m_mem m1) d a AND PTE_P = 0"
      using none [of a] w(3) p(1) assms(2) by (intro xlate_None_pte) simp_all
    then have e: "load32 (m_mem m1) p AND PTE_P = 0" using p(2) by (simp add: pte_at_def)
    have b: "(pa OR perm OR PTE_P) AND PTE_P \<noteq> 0" by (auto simp: bit_eq_iff bit_simps intro: exI [of _ 0])
    have "pt_ext m ?m2 d"
      using pt_ext_trans [OF w(2)] set_pte_ext(1) [OF ok1 p(1)] p(2) by metis
    moreover have "xlate (m_mem ?m2) d x =
        (if PGROUNDDOWN x = a then Some (pa OR perm OR PTE_P) else xlate (m_mem m) d x)" for x
      using set_pte_ext(2) [OF ok1 p(1), of "pa OR perm OR PTE_P" x] b w(3) p(2) assms(2) by simp
    ultimately have "gives (f ?m2) P" by (rule cont)
    then show ?thesis using False w(1) e by (simp add: deref_def assign_def)
  qed
qed

lemma mappages_loop_gives:
  assumes "pt_ok m d" and "aligned a" and "Suc n * 4096 \<le> 4294967296"
    and "\<And>x. unat (PGROUNDDOWN x - a) < Suc n * 4096 \<Longrightarrow> xlate (m_mem m) d x = None"
  shows "gives (mappages_loop m d a pa perm n) (\<lambda>(m', good). pt_ext m m' d \<and>
    (\<exists>j. (if good then j = Suc n else j \<le> n \<and> free_pages m' = {}) \<and>
       xlate (m_mem m') d = with_pages (xlate (m_mem m) d) a j pa perm))"
  using assms
proof (induction n arbitrary: m a pa)
  case (0 m a pa)
  have none: "xlate (m_mem m) d x = None" if "PGROUNDDOWN x = a" for x using 0(4) [of x] that by simp
  show ?case
  proof (subst mappages_loop.simps, rule map_one [OF 0(1,2) none], assumption, goal_cases)
    case (1 m')
    then have "xlate (m_mem m') d = with_pages (xlate (m_mem m) d) a (Suc 0) pa perm"
      using with_pages_cons [OF 0(2,3), of "xlate (m_mem m') d" pa perm "xlate (m_mem m) d"] by simp
    with 1 show ?case by auto
  next
    case (2 m')
    then show ?case by (auto intro!: exI [of _ 0])
  qed
next
  case (Suc n m a pa)
  have none: "xlate (m_mem m) d x = None" if "PGROUNDDOWN x = a" for x using Suc.prems(4) [of x] that by simp
  have a: "aligned (a + PGSIZE)" using Suc.prems(2) aligned_add_iff by simp
  have n: "Suc n * 4096 \<le> 4294967296" using Suc.prems(3) by simp
  show ?case
  proof (subst mappages_loop.simps, rule map_one [OF Suc.prems(1,2) none], assumption, goal_cases)
    case (1 m')
    note rest = with_pages_none [OF Suc.prems(2,3,4) 1(2)]
    from Suc.IH [OF pt_ext_ok [OF 1(1)] a n rest, of "pa + PGSIZE"] obtain m'' good j where
      r: "mappages_loop m' d (a + PGSIZE) (pa + PGSIZE) perm n = ok (m'', good)" "pt_ext m' m'' d"
      and j: "if good then j = Suc n else j \<le> n \<and> free_pages m'' = {}"
      and x: "xlate (m_mem m'') d = with_pages (xlate (m_mem m') d) (a + PGSIZE) j (pa + PGSIZE) perm"
      by (auto elim!: givesE)
    have "Suc j * 4096 \<le> 4294967296" using Suc.prems(3) j by (simp split: if_splits)
    from with_pages_cons [OF Suc.prems(2) this 1(2)] x
    have "xlate (m_mem m'') d = with_pages (xlate (m_mem m) d) a (Suc j) pa perm" by simp
    with r j pt_ext_trans [OF 1(1) r(2)] show ?case by (auto intro!: exI [of _ "Suc j"] split: if_splits)
  next
    case (2 m')
    then show ?case by (auto intro!: exI [of _ 0])
  qed
qed

lemma last_page:
  assumes "aligned va" and "Suc n * 4096 \<le> 4294967296"
  shows "unat ((PGROUNDDOWN (va + of_nat (Suc n) * PGSIZE - 1) - va) div PGSIZE) = n"
proof -
  let ?k = "of_nat n * 4096 :: u32"
  have u: "unat ?k = n * 4096"
    using assms(2) by (simp add: unat_word_ariths unat_of_nat_u32)
  then have "aligned ?k" by (simp add: aligned_def)
  then have "aligned (va + ?k)" using assms(1) aligned_add_iff by simp
  from PGROUNDUP_aligned [OF this]
  have "PGROUNDDOWN (va + ?k + 4095) = va + ?k" by (simp add: PGROUNDUP_down)
  moreover have "va + of_nat (Suc n) * PGSIZE - 1 = va + ?k + 4095" by (simp add: algebra_simps)
  ultimately have "PGROUNDDOWN (va + of_nat (Suc n) * PGSIZE - 1) - va = ?k" by (metis add_diff_cancel_left')
  then show ?thesis using u by (simp add: unat_div_distrib)
qed

lemma mappages_gives:
  assumes "pt_ok m d" and "aligned va" and "0 < n" and "n * 4096 \<le> 4294967296"
    and "\<And>x. unat (PGROUNDDOWN x - va) < n * 4096 \<Longrightarrow> xlate (m_mem m) d x = None"
  shows "gives (mappages m d va (of_nat n * PGSIZE) pa perm) (\<lambda>(m', good). pt_ext m m' d \<and>
    (\<exists>j. (if good then j = n else j < n \<and> free_pages m' = {}) \<and>
       xlate (m_mem m') d = with_pages (xlate (m_mem m) d) va j pa perm))"
proof -
  obtain k where n: "n = Suc k" using assms(3) by (cases n) auto
  have "mappages m d va (of_nat n * PGSIZE) pa perm = mappages_loop m d va pa perm k"
    using last_page [OF assms(2), of k] assms(2,4) unfolding n by (simp add: mappages_def Let_def)
  then show ?thesis
    using mappages_loop_gives [OF assms(1,2), of k pa perm] assms(4,5) unfolding n
    by (simp only: less_Suc_eq_le)
qed

text \<open>
  C13. \<open>mappages\<close> on \<open>n\<close> unmapped pages returns; on success the directory maps exactly these
  pages, in order, to the physical pages from \<open>pa\<close> on with the given permissions and the
  present bit, and every other address as before; it fails only when no page is left for a
  page table, with the first \<open>j\<close> pages mapped. Besides the page tables of the directory, which
  grow by free pages only, no byte of memory and no reference count changes.
\<close>

theorem mappages_maps:
  assumes "pt_ok m d" and "aligned va" and "0 < n" and "n * 4096 \<le> 4294967296"
    and "\<And>x. unat (PGROUNDDOWN x - va) < n * 4096 \<Longrightarrow> xlate (m_mem m) d x = None"
  shows "gives (mappages m d va (of_nat n * PGSIZE) pa perm) (\<lambda>(m', good). pt_ext m m' d \<and>
    (\<exists>j. (if good then j = n else j < n \<and> free_pages m' = {}) \<and>
       xlate (m_mem m') d = with_pages (xlate (m_mem m) d) va j pa perm))"
  using assms by (rule mappages_gives)

section \<open>A concrete directory\<close>

text \<open>
  The directory at \<open>0x8012D000\<close> has one table, at \<open>0x8012E000\<close>, that maps virtual page
  \<open>0x1000\<close> to the page at \<open>0x8012F000\<close>, shared and copy on write. One page is free.
\<close>

definition w_vmem :: memory where
  "w_vmem = store32 (store32 (\<lambda>a. 0) 0x8012D000 0x12E007) 0x8012E004 0x12F805"

definition w_vm :: mach where
  "w_vm = m_one\<lparr>m_mem := w_vmem,
     m_kmem := (m_kmem m_one)\<lparr>runs := (runs (m_kmem m_one))(303 := \<lparr>ref_count = 2, run_next = None\<rparr>)\<rparr>\<rparr>"

lemma w_vm_alloc: "alloc_inv w_vm" "free_pages w_vm = {0x8012C000}" "usable_pages w_vm = usable_pages m_one"
proof -
  have k: "kinv [300] w_vm" using kinv_m_one by (auto simp: kinv_def w_vm_def m_one_def lock_ok_def)
  show "alloc_inv w_vm" using k unfolding alloc_inv_def by blast
  show "free_pages w_vm = {0x8012C000}" using free_pages_eq [OF k] by (simp add: page300)
  show "usable_pages w_vm = usable_pages m_one" by (simp add: usable_pages_def bad_page_def w_vm_def)
qed

lemma w_vm_usable: "v \<in> {0x8012D000, 0x8012E000, 0x8012F000} \<Longrightarrow> v \<in> live_pages w_vm"
  by (auto simp: live_pages_def w_vm_alloc) (auto simp: usable_pages_def bad_page_def m_one_def V2P_def)

lemma w_vm_pde: "pde_at w_vmem 0x8012D000 x = (if PDX x = 0 then 0x12E007 else 0)"
proof -
  have a: "aligned 0x8012D000" "aligned 0x8012E000" by (simp_all add: aligned_def)
  have z: "load32 (\<lambda>a. 0) y = 0" for y by (simp add: load32_def)
  show ?thesis
    using load_store_entry [OF a(1) a(1), of 0 "PDX x" "\<lambda>a. 0" "0x12E007"]
      load_store_entry [OF a(2) a(1), of 1 "PDX x" "store32 (\<lambda>a. 0) 0x8012D000 0x12E007" "0x12F805"] PDX_bound [of x] z
    by (auto simp: pde_at_def w_vmem_def)
qed

lemma w_vm_tab: "has_tab w_vmem 0x8012D000 x \<longleftrightarrow> PDX x = 0" "PDX x = 0 \<Longrightarrow> tab_at w_vmem 0x8012D000 x = 0x8012E000"
  by (simp_all add: has_tab_def tab_at_def w_vm_pde PTE_ADDR_def P2V_def)

lemma w_vm_ok: "pt_ok w_vm 0x8012D000"
  using w_vm_alloc(1) w_vm_usable w_vm_tab by (auto simp: pt_ok_def pt_wf_def w_vm_def)

lemma w_vm_pte: "PDX x = 0 \<Longrightarrow> pte_at w_vmem 0x8012D000 x = (if PTX x = 1 then 0x12F805 else 0)"
proof -
  assume x: "PDX x = 0"
  have a: "aligned 0x8012D000" "aligned 0x8012E000" by (simp_all add: aligned_def)
  have z: "load32 (\<lambda>a. 0) y = 0" for y by (simp add: load32_def)
  show ?thesis
    using load_store_entry [OF a(1) a(2), of 0 "PTX x" "\<lambda>a. 0" "0x12E007"]
      load_store_entry [OF a(2) a(2), of 1 "PTX x" "store32 (\<lambda>a. 0) 0x8012D000 0x12E007" "0x12F805"] PTX_bound [of x] z
    by (auto simp: pte_at_def pte_ptr_def w_vm_tab x) (auto simp: w_vmem_def)
qed

theorem mappages_maps_witness:
  "gives (mappages w_vm 0x8012D000 0x2000 (of_nat 2 * PGSIZE) 0x300000 (PTE_W OR PTE_U)) (\<lambda>(m', good).
    \<exists>j. (if good then j = 2 else j < 2 \<and> free_pages m' = {}) \<and>
      xlate (m_mem m') 0x8012D000 = with_pages (xlate w_vmem 0x8012D000) 0x2000 j 0x300000 6)"
proof -
  have none: "xlate (m_mem w_vm) 0x8012D000 x = None" if "unat (PGROUNDDOWN x - 0x2000) < 2 * 4096" for x
  proof -
    have "PTX x \<noteq> 1" if "PDX x = 0"
    proof
      assume "PTX x = 1"
      then have "PGROUNDDOWN x = PGROUNDDOWN 0x1000"
        using same_page_iff [of x "0x1000"] that by (simp add: PDX_def PTX_def)
      with \<open>unat (PGROUNDDOWN x - 0x2000) < 2 * 4096\<close> show False by (simp add: PGROUNDDOWN_def)
    qed
    then show ?thesis by (simp add: xlate_def w_vm_def w_vm_tab w_vm_pte)
  qed
  show ?thesis
    using mappages_maps [OF w_vm_ok, where va = "0x2000" and n = 2 and pa = "0x300000" and perm = 6] none
    by (auto simp: aligned_def w_vm_def elim!: gives_mono)
qed

end
