(* ===== verification/Vm_Fault.thy ===== *)
theory Vm_Fault
  imports Vm_Map
begin

text \<open>
  What \<open>pagefault\<close> does to an address space: a write to a shared copy-on-write page gives the
  process its own copy, a write to one that is no longer shared makes it writable in place,
  and the other faults kill the process or grow its stack. \<open>copyout\<close> writes the bytes of
  user pages through the same mapping.
\<close>

section \<open>Changes outside a page table\<close>

lemma pt_cong:
  assumes "aligned d" and "\<And>x. PGROUNDDOWN x \<in> pt_pages mem d \<Longrightarrow> mem' x = mem x"
  shows "pde_at mem' d x = pde_at mem d x" "has_tab mem' d x = has_tab mem d x" "tab_at mem' d x = tab_at mem d x"
    "pte_ptr mem' d x = pte_ptr mem d x" "has_tab mem d x \<Longrightarrow> pte_at mem' d x = pte_at mem d x"
    "xlate mem' d x = xlate mem d x" "pt_pages mem' d = pt_pages mem d"
proof -
  show pde: "pde_at mem' d x = pde_at mem d x" for x
    unfolding pde_at_def by (intro load_entry_cong assms PDX_bound) (simp add: pt_pages_def)
  show ht: "has_tab mem' d x = has_tab mem d x" for x by (simp add: has_tab_def pde)
  show ta: "tab_at mem' d x = tab_at mem d x" for x by (simp add: tab_at_def pde)
  show "pte_ptr mem' d x = pte_ptr mem d x" by (simp add: pte_ptr_def ta)
  show pte: "has_tab mem d x \<Longrightarrow> pte_at mem' d x = pte_at mem d x"
    unfolding pte_at_def pte_ptr_def ta
    by (intro load_entry_cong assms PTX_bound aligned_tab_at) (auto simp: pt_pages_def)
  show "xlate mem' d x = xlate mem d x" using pte by (auto simp: xlate_def ht)
  show "pt_pages mem' d = pt_pages mem d" by (simp add: pt_pages_def ht ta)
qed

lemma pt_ok_cong:
  assumes "pt_ok m d" and "alloc_inv m'" and "live_pages m \<subseteq> live_pages m'"
    and "\<And>x. PGROUNDDOWN x \<in> pt_pages (m_mem m) d \<Longrightarrow> m_mem m' x = m_mem m x"
  shows "pt_ok m' d"
proof -
  note c = pt_cong [OF pt_okD(3) [OF assms(1)] assms(4)]
  show ?thesis using assms(1-3) c(2,3) unfolding pt_ok_def pt_wf_def by (simp add: subset_iff)
qed

lemma pt_pages_live: "pt_ok m d \<Longrightarrow> pt_pages (m_mem m) d \<subseteq> live_pages m"
  using pt_okD(4,5) by (fastforce simp: pt_pages_def)

text \<open>The allocator's view of memory.\<close>

definition same_view :: "'a mach_scheme \<Rightarrow> 'a mach_scheme \<Rightarrow> bool" where
  "same_view m m' \<longleftrightarrow> alloc_inv m' \<and> m_mem m' = m_mem m \<and> free_pages m' = free_pages m \<and>
     usable_pages m' = usable_pages m \<and> refs m' = refs m"

lemma getRefCount_gives:
  "alloc_inv m \<Longrightarrow> v \<in> usable_pages m \<Longrightarrow> gives (getRefCount m v) (\<lambda>(m', c). c = refs m v \<and> same_view m m')"
  using km.count_ok [of m v] by (auto simp: gives_def same_view_def)

lemma declRefCount_gives:
  "alloc_inv m \<Longrightarrow> v \<in> live_pages m \<Longrightarrow> gives (declRefCount m v) (\<lambda>m'. alloc_inv m' \<and> m_mem m' = m_mem m \<and>
    live_pages m' = live_pages m \<and> refs m' = (refs m)(v := refs m v - 1))"
  using km.decr_ok [of m v] by (auto simp: gives_def live_pages_def)

lemma same_view_pt: "pt_ok m d \<Longrightarrow> same_view m m' \<Longrightarrow> pt_ok m' d"
  by (auto simp: pt_ok_def same_view_def live_pages_def)

lemma memmove_page:
  assumes "aligned w" and "aligned v"
  shows "memmove mem w v PGSIZE x = (if PGROUNDDOWN x = w then mem (v + (x - w)) else mem x)"
proof -
  have b: "unat a + 4096 \<le> 4294967296" if a: "aligned a" for a
  proof -
    obtain q where "unat a = 4096 * q" using a by (auto simp: aligned_def elim: dvdE)
    then show ?thesis using u32_bound [of a] by simp
  qed
  show ?thesis using memmove_apply [of v PGSIZE w mem x] b [OF assms(1)] b [OF assms(2)] in_page [OF assms(1)] by simp
qed

section \<open>Copy on write\<close>

text \<open>The entry that \<open>cow_copy\<close> writes.\<close>

definition private_pte :: "u32 \<Rightarrow> u32 \<Rightarrow> u32" where
  "private_pte w e = (V2P w OR PTE_FLAGS e OR PTE_P OR PTE_W OR PTE_U) AND NOT PTE_COW"

lemma private_pte_bits:
  "private_pte w e AND PTE_P \<noteq> 0" "private_pte w e AND PTE_W \<noteq> 0" "private_pte w e AND PTE_U \<noteq> 0"
  "private_pte w e AND PTE_COW = 0"
proof -
  have "bit (private_pte w e AND PTE_P) 0" "bit (private_pte w e AND PTE_W) 1" "bit (private_pte w e AND PTE_U) 2"
    by (simp_all add: private_pte_def bit_simps)
  then show "private_pte w e AND PTE_P \<noteq> 0" "private_pte w e AND PTE_W \<noteq> 0" "private_pte w e AND PTE_U \<noteq> 0"
    by (metis bit_0_eq bot_apply bot_bool_def)+
  show "private_pte w e AND PTE_COW = 0" by (rule bit_word_eqI) (auto simp: private_pte_def bit_simps)
qed

lemma private_pte_addr:
  assumes "aligned w"
  shows "PTE_ADDR (private_pte w e) = V2P w"
proof (rule bit_word_eqI)
  fix n assume "n < LENGTH(32)"
  have c: "(0xFFF :: u32) = mask 12" "(0x800 :: u32) = 2 ^ 11" "(PTE_P OR PTE_W OR PTE_U :: u32) = mask 3"
    by (simp_all add: mask_eq_exp_minus_1)
  have "V2P w AND mask 12 = 0" using assms aligned_low_bits [of "V2P w"] by (simp only: mask12 aligned_V2P)
  then have low: "\<not> bit (V2P w) n" if "n < 12" using that by (metis bit_0_eq bit_and_iff bit_mask_iff bot_apply bot_bool_def possible_bit_word \<open>n < LENGTH(32)\<close>)
  have cow: "bit (0x800 :: u32) n \<Longrightarrow> n = 11" unfolding c(2) bit_exp_iff by simp
  show "bit (PTE_ADDR (private_pte w e)) n = bit (V2P w) n"
    unfolding PTE_ADDR_def private_pte_def PTE_FLAGS_def c(1,3)
    using low cow \<open>n < LENGTH(32)\<close> by (cases "n < 12") (auto simp: bit_simps)
qed

text \<open>
  A shared page: the process gets a free page with the same bytes, mapped writable.
\<close>

lemma cow_copy_gives:
  fixes m :: "'a mach_scheme" and p :: proc
  defines "d \<equiv> p_pgdir p"
  assumes ok: "pt_ok m d" and tab: "has_tab (m_mem m) d a" and v: "v \<in> live_pages m" "v \<notin> pt_pages (m_mem m) d"
    and free: "free_pages m \<noteq> {}"
  shows "gives (cow_copy m p cr2 (pte_ptr (m_mem m) d a) v) (\<lambda>(m', p'). p' = p \<and> (\<exists>w \<in> free_pages m.
    pt_ok m' d \<and> refs m' = (refs m)(w := 1, v := refs m v - 1) \<and>
    (\<forall>x. xlate (m_mem m') d x = (if PGROUNDDOWN x = PGROUNDDOWN a then Some (private_pte w (pte_at (m_mem m) d a))
       else xlate (m_mem m) d x)) \<and>
    (\<forall>x. PGROUNDDOWN x = w \<longrightarrow> m_mem m' x = m_mem m (v + (x - w))) \<and>
    (\<forall>x. PGROUNDDOWN x \<notin> {w, tab_at (m_mem m) d a} \<longrightarrow> m_mem m' x = m_mem m x)))"
proof -
  let ?mem = "m_mem m" let ?q = "pte_ptr ?mem d a" let ?t = "tab_at ?mem d a"
  obtain m1 w where k: "kalloc m = ok (m1, w)" "alloc_inv m1" "m_mem m1 = ?mem" "usable_pages m1 = usable_pages m"
    and w: "w \<in> free_pages m" "w \<in> usable_pages m" "w \<noteq> 0" "free_pages m1 = free_pages m - {w}" "refs m1 = (refs m)(w := 1)"
    using kalloc_gives [OF pt_okD(1) [OF ok]] free by (auto elim!: givesE)
  define m2 where "m2 = m1\<lparr>m_mem := memmove ?mem w v PGSIZE\<rparr>"
  have al: "aligned w" "aligned v" using usable_aligned w(2) live_aligned v(1) by blast+
  have mm: "m_mem m2 x = (if PGROUNDDOWN x = w then ?mem (v + (x - w)) else ?mem x)" for x
    unfolding m2_def using memmove_page [OF al] by simp
  have wl: "w \<notin> live_pages m" "w \<noteq> v" using w(1) v(1) by (auto simp: live_pages_def)
  have tl: "?t \<in> live_pages m" using pt_okD(5) [OF ok tab] .
  have eqs: "m_mem m2 x = ?mem x" if "PGROUNDDOWN x \<in> pt_pages ?mem d" for x
    using that pt_pages_live [OF ok] wl(1) mm by auto
  note c = pt_cong [OF pt_okD(3) [OF ok], where mem = ?mem and mem' = "m_mem m2", OF eqs]
  have live: "live_pages m2 = insert w (live_pages m)" using k w unfolding m2_def live_pages_def by auto
  have ok2: "pt_ok m2 d" using ok k(2) live eqs by (intro pt_ok_cong [OF ok]) (auto simp: m2_def)
  have tab2: "has_tab (m_mem m2) d a" using tab c(2) by simp
  let ?e = "private_pte w (pte_at ?mem d a)"
  define m3 where "m3 = m2\<lparr>m_mem := store32 (m_mem m2) (pte_ptr (m_mem m2) d a) ?e\<rparr>"
  have ext: "pt_ext m2 m3 d" "xlate (m_mem m3) d x = (if PGROUNDDOWN x = PGROUNDDOWN a then Some ?e else xlate ?mem d x)" for x
    using set_pte_ext [OF ok2 tab2, of ?e] private_pte_bits(1) c(6) unfolding m3_def by simp_all
  have m3: "m_mem m3 x = m_mem m2 x" if "PGROUNDDOWN x \<noteq> ?t" for x
    using set_pte(3) [OF pt_okD(2,3) [OF ok2] tab2, of x ?e] that c(3) by (simp add: m3_def)
  have "v \<in> live_pages m3" using live v(1) by (simp add: m3_def)
  from declRefCount_gives [OF _ this] obtain m4 where d4: "declRefCount m3 v = ok m4" "alloc_inv m4" "m_mem m4 = m_mem m3"
    "live_pages m4 = live_pages m3" "refs m4 = (refs m3)(v := refs m3 v - 1)"
    using pt_okD(1) [OF pt_ext_ok [OF ext(1)]] by (auto elim: givesE)
  have q: "?q \<noteq> 0" "pte_ptr (m_mem m2) d a = ?q" using pte_ptr_nonnull [OF ok tab] c(4) by simp_all
  have e2: "load32 (m_mem m2) ?q = pte_at ?mem d a" using c(5) [of a] tab q(2) unfolding pte_at_def by simp
  have "declRefCount (m2\<lparr>m_mem := store32 (m_mem m2) ?q ((V2P w OR PTE_FLAGS (pte_at ?mem d a) OR 7) AND - 2049)\<rparr>) v = ok m4"
    using d4(1) unfolding m3_def q(2) by (simp add: private_pte_def)
  moreover have "load32 (m_mem m4) ?q AND 1 \<noteq> 0"
    using private_pte_bits(1) q(2) unfolding d4(3) m3_def by simp
  ultimately have "cow_copy m p cr2 ?q v = ok (m4, p)"
    using k(1,3) w(3) q e2 by (simp add: cow_copy_def Let_def deref_def assign_def m2_def [symmetric])
  moreover have "pt_ok m4 d"
    using pt_ok_cong [OF pt_ext_ok [OF ext(1)] d4(2)] d4(3,4) by simp
  moreover have "refs m4 = (refs m)(w := 1, v := refs m v - 1)"
    using d4(5) w(5) wl(2) by (simp add: m3_def m2_def)
  moreover have "m_mem m4 x = ?mem (v + (x - w))" if "PGROUNDDOWN x = w" for x
    using m3 [of x] mm [of x] tl wl d4(3) that by metis
  moreover have "m_mem m4 x = ?mem x" if "PGROUNDDOWN x \<notin> {w, ?t}" for x
    using m3 [of x] mm [of x] d4(3) that by simp
  ultimately show ?thesis using w(1) ext(2) d4(3) by (auto intro!: bexI [of _ w])
qed

lemma page_down [simp]:
  "has_tab mem d (PGROUNDDOWN x) = has_tab mem d x" "pte_ptr mem d (PGROUNDDOWN x) = pte_ptr mem d x"
proof -
  have "PDX (PGROUNDDOWN x) = PDX x" "PTX (PGROUNDDOWN x) = PTX x"
    using same_page_iff [of "PGROUNDDOWN x" x] by simp_all
  then show "has_tab mem d (PGROUNDDOWN x) = has_tab mem d x" "pte_ptr mem d (PGROUNDDOWN x) = pte_ptr mem d x"
    by (simp_all add: has_tab_def pte_ptr_def tab_at_def pde_at_def)
qed

text \<open>A write fault of \<open>p\<close> at \<open>cr2\<close> in a copy-on-write page that is kept at \<open>v\<close>.\<close>

definition cow_write :: "'a mach_scheme \<Rightarrow> proc \<Rightarrow> u32 \<Rightarrow> u32 \<Rightarrow> bool" where
  "cow_write m p cr2 v \<longleftrightarrow> cr2 \<noteq> 0 \<and> tf_err (p_tf p) AND FEC_WR \<noteq> 0 \<and> pt_ok m (p_pgdir p) \<and>
     has_tab (m_mem m) (p_pgdir p) cr2 \<and> pte_at (m_mem m) (p_pgdir p) cr2 AND PTE_COW \<noteq> 0 \<and>
     v = P2V (PTE_ADDR (pte_at (m_mem m) (p_pgdir p) cr2)) \<and> v \<in> live_pages m \<and>
     v \<notin> pt_pages (m_mem m) (p_pgdir p)"

lemma pagefault_cow:
  assumes "cow_write m p cr2 v"
  obtains m1 where "same_view m m1"
    "pagefault m p cr2 = (if refs m v > 1 then cow_copy m1 p cr2 (pte_ptr (m_mem m) (p_pgdir p) cr2) v
       else if refs m v = 1 then cow_own m1 p cr2 (pte_ptr (m_mem m) (p_pgdir p) cr2) (pte_at (m_mem m) (p_pgdir p) cr2)
       else panic ''something went really wrong'')"
proof -
  let ?d = "p_pgdir p"
  have c: "cr2 \<noteq> 0" "tf_err (p_tf p) AND FEC_WR \<noteq> 0" "pt_ok m ?d" "has_tab (m_mem m) ?d cr2"
    "pte_at (m_mem m) ?d cr2 AND PTE_COW \<noteq> 0" "P2V (PTE_ADDR (pte_at (m_mem m) ?d cr2)) = v" "v \<in> usable_pages m"
    using assms unfolding cow_write_def live_pages_def by blast+
  obtain m1 where g: "getRefCount m v = ok (m1, refs m v)" "same_view m m1"
    using getRefCount_gives [OF pt_okD(1) [OF c(3)] c(7)] by (auto elim: givesE)
  have q: "pte_ptr (m_mem m) ?d cr2 \<noteq> 0" using pte_ptr_nonnull [OF c(3,4)] .
  show ?thesis
    by (rule that [OF g(2)]) (use c g(1) q in \<open>simp add: pagefault_def walkpgdir_find deref_def cow_fault_def pte_at_def\<close>)
qed

text \<open>
  C12. A write to a shared copy-on-write page: when a page is free, \<open>pagefault\<close> returns with the
  process alive and the faulting page mapped, present, writable for the user and no longer
  copy on write, to a page that was free, holds the bytes of the shared page and has one
  reference. The shared page has one reference less and keeps its bytes, and so does every
  page but the new one and the page table of the address: no other process and no other
  address sees a change.
\<close>

theorem pagefault_copies:
  assumes "cow_write m p cr2 v" and "refs m v > 1" and "free_pages m \<noteq> {}"
  shows "gives (pagefault m p cr2) (\<lambda>(m', p'). p' = p \<and> (\<exists>w \<in> free_pages m. \<exists>e.
    pt_ok m' (p_pgdir p) \<and> refs m' = (refs m)(w := 1, v := refs m v - 1) \<and>
    xlate (m_mem m') (p_pgdir p) cr2 = Some e \<and> PTE_ADDR e = V2P w \<and>
    e AND PTE_W \<noteq> 0 \<and> e AND PTE_U \<noteq> 0 \<and> e AND PTE_COW = 0 \<and>
    (\<forall>x. PGROUNDDOWN x \<noteq> PGROUNDDOWN cr2 \<longrightarrow> xlate (m_mem m') (p_pgdir p) x = xlate (m_mem m) (p_pgdir p) x) \<and>
    (\<forall>x. PGROUNDDOWN x = w \<longrightarrow> m_mem m' x = m_mem m (v + (x - w))) \<and>
    (\<forall>x. PGROUNDDOWN x \<notin> {w, tab_at (m_mem m) (p_pgdir p) cr2} \<longrightarrow> m_mem m' x = m_mem m x)))"
proof -
  have c: "pt_ok m (p_pgdir p)" "has_tab (m_mem m) (p_pgdir p) cr2" "v \<in> live_pages m"
    "v \<notin> pt_pages (m_mem m) (p_pgdir p)" using assms(1) unfolding cow_write_def by blast+
  obtain m1 where m1: "same_view m m1" "pagefault m p cr2 = cow_copy m1 p cr2 (pte_ptr (m_mem m) (p_pgdir p) cr2) v"
    using pagefault_cow [OF assms(1)] assms(2) by (metis (no_types, lifting))
  have s: "m_mem m1 = m_mem m" "live_pages m1 = live_pages m" "free_pages m1 = free_pages m" "refs m1 = refs m"
    using m1(1) by (simp_all add: same_view_def live_pages_def)
  have al: "aligned w" if "w \<in> free_pages m" for w
    using km.free_page [OF pt_okD(1) [OF c(1)] that] usable_aligned by blast
  note g = cow_copy_gives [OF same_view_pt [OF c(1) m1(1)], of cr2 v cr2, unfolded s, OF c(2-4) assms(3)]
  show ?thesis unfolding m1(2) using g
  proof (rule gives_mono, clarsimp, goal_cases)
    case (1 m' w)
    then show ?case using al [of w] private_pte_bits [of w] private_pte_addr [of w] by (intro bexI [of _ w]) auto
  qed
qed

text \<open>
  A write to a copy-on-write page with one reference left: \<open>pagefault\<close> makes the page
  writable in place. The page keeps its address and its contents, no page is allocated or
  freed, and only the entry of the page changes.
\<close>

theorem pagefault_owns:
  assumes "cow_write m p cr2 v" and "refs m v = 1"
  defines "e \<equiv> pte_at (m_mem m) (p_pgdir p) cr2"
  shows "gives (pagefault m p cr2) (\<lambda>(m', p'). p' = p \<and> pt_ok m' (p_pgdir p) \<and> refs m' = refs m \<and>
    free_pages m' = free_pages m \<and>
    (e AND PTE_P \<noteq> 0 \<longrightarrow> xlate (m_mem m') (p_pgdir p) cr2 = Some ((e OR PTE_W) AND NOT PTE_COW)) \<and>
    (\<forall>x. PGROUNDDOWN x \<noteq> PGROUNDDOWN cr2 \<longrightarrow> xlate (m_mem m') (p_pgdir p) x = xlate (m_mem m) (p_pgdir p) x) \<and>
    (\<forall>x. PGROUNDDOWN x \<noteq> tab_at (m_mem m) (p_pgdir p) cr2 \<longrightarrow> m_mem m' x = m_mem m x))"
proof -
  let ?d = "p_pgdir p" let ?e = "(e OR PTE_W) AND NOT PTE_COW"
  have c: "pt_ok m ?d" "has_tab (m_mem m) ?d cr2" using assms(1) unfolding cow_write_def by blast+
  obtain m1 where m1: "same_view m m1" "pagefault m p cr2 = cow_own m1 p cr2 (pte_ptr (m_mem m) ?d cr2) e"
    using pagefault_cow [OF assms(1)] assms(2) unfolding e_def by (metis (no_types, lifting) less_irrefl)
  have s: "m_mem m1 = m_mem m" "free_pages m1 = free_pages m" "refs m1 = refs m"
    using m1(1) by (simp_all add: same_view_def)
  note ok1 = same_view_pt [OF c(1) m1(1)]
  have tab1: "has_tab (m_mem m1) ?d cr2" using c(2) s(1) by simp
  define m2 where "m2 = m1\<lparr>m_mem := store32 (m_mem m1) (pte_ptr (m_mem m1) ?d cr2) ?e\<rparr>"
  note x = set_pte_ext [OF ok1 tab1, of ?e, folded m2_def]
  have q: "pte_ptr (m_mem m) ?d cr2 \<noteq> 0" using pte_ptr_nonnull [OF c] .
  have "bit (PTE_COW :: u32) n \<Longrightarrow> \<not> bit ?e n" for n by (simp add: bit_simps)
  then have "?e AND PTE_COW = 0" by (intro bit_word_eqI) (auto simp: bit_simps)
  then have "pagefault m p cr2 = ok (m2, p)"
    using q s(1) unfolding m1(2) by (simp add: cow_own_def deref_def assign_def m2_def)
  moreover have "?e AND PTE_P = e AND PTE_P"
    by (rule bit_word_eqI) (auto simp: bit_simps bit_1_iff)
  moreover have "m_mem m2 y = m_mem m y" if "PGROUNDDOWN y \<noteq> tab_at (m_mem m) ?d cr2" for y
    using set_pte(3) [OF pt_okD(2,3) [OF ok1] tab1, of y ?e] that s(1) by (simp add: m2_def)
  ultimately show ?thesis
    using x(2) s(1) pt_ext_ok [OF x(1)] s by (simp add: m2_def)
qed


section \<open>Copying out\<close>

text \<open>The kernel address of a byte of user memory.\<close>

definition user_byte :: "memory \<Rightarrow> u32 \<Rightarrow> u32 \<Rightarrow> u32 option" where
  "user_byte mem d va =
     (case xlate mem d va of
        Some e \<Rightarrow> if e AND PTE_U \<noteq> 0 then Some (P2V (PTE_ADDR e) + (va - PGROUNDDOWN va)) else None
      | None \<Rightarrow> None)"

lemma xlate_page: "PGROUNDDOWN x = PGROUNDDOWN y \<Longrightarrow> xlate mem d x = xlate mem d y"
proof -
  assume "PGROUNDDOWN x = PGROUNDDOWN y"
  then have "PDX x = PDX y" "PTX x = PTX y" using same_page_iff [of x y] by simp_all
  then show ?thesis by (simp add: xlate_def has_tab_def pte_at_def pte_ptr_def tab_at_def pde_at_def)
qed

lemma chunk_page:
  assumes "i < unat (chunk va len)"
  shows "PGROUNDDOWN (va + of_nat i) = PGROUNDDOWN va"
proof -
  let ?o = "va - PGROUNDDOWN va"
  have o: "unat ?o < 4096" by (simp add: PGROUNDDOWN_offset)
  then have "unat (PGSIZE - ?o) = 4096 - unat ?o" by (simp add: unat_sub word_le_nat_alt)
  then have "unat ?o + i < 4096" using assms by (auto simp: chunk_def Let_def word_less_nat_alt split: if_splits)
  moreover from this have "unat (?o + of_nat i) = unat ?o + i" by (simp add: unat_word_ariths unat_of_nat_u32)
  ultimately have "in_bytes (PGROUNDDOWN va) 4096 (va + of_nat i)"
    unfolding in_bytes_def by (simp add: algebra_simps)
  then show ?thesis by (simp only: in_page [OF aligned_PGROUNDDOWN])
qed

lemma user_byte_chunk:
  assumes "i < unat (chunk va len)"
  shows "user_byte mem d (va + of_nat i) = map_option (\<lambda>a. a + of_nat i) (user_byte mem d va)"
  using xlate_page [OF chunk_page [OF assms], of mem d] chunk_page [OF assms]
  by (auto simp: user_byte_def algebra_simps split: option.splits)

lemma chunk_next:
  assumes "chunk va len \<noteq> len"
  shows "PGROUNDDOWN va + PGSIZE = va + chunk va len"
  using assms by (auto simp: chunk_def Let_def split: if_splits)

lemma unat_chunk_le: "unat (chunk va len) \<le> unat len"
  by (auto simp: chunk_def Let_def word_less_nat_alt)

lemma uva2ka_user:
  assumes "pt_ok m d" and "user_byte (m_mem m) d va = Some a"
  shows "uva2ka m d (PGROUNDDOWN va) = ok (a - (va - PGROUNDDOWN va))"
proof -
  obtain e where e: "xlate (m_mem m) d va = Some e" "e AND PTE_U \<noteq> 0" "a = P2V (PTE_ADDR e) + (va - PGROUNDDOWN va)"
    using assms(2) by (auto simp: user_byte_def split: option.splits if_splits)
  then have "has_tab (m_mem m) d va" "load32 (m_mem m) (pte_ptr (m_mem m) d va) = e" "e AND PTE_P \<noteq> 0"
    by (auto simp: xlate_def pte_at_def split: if_splits)
  with e pte_ptr_nonnull [OF assms(1), of va] show ?thesis
    by (simp add: uva2ka_def walkpgdir_find deref_def)
qed

text \<open>
  The bytes \<open>va .. va + n\<close> can be written from \<open>buf\<close>: all are user memory at different
  kernel addresses, outside the page table, and none is a byte of the source.
\<close>

definition target_ok :: "memory \<Rightarrow> u32 \<Rightarrow> u32 \<Rightarrow> u32 \<Rightarrow> nat \<Rightarrow> bool" where
  "target_ok mem d va buf n \<longleftrightarrow> unat buf + n \<le> 4294967296 \<and>
     (\<forall>i < n. \<exists>a. user_byte mem d (va + of_nat i) = Some a \<and> PGROUNDDOWN a \<notin> pt_pages mem d \<and>
        PGROUNDDOWN a \<noteq> 0 \<and> (\<forall>j < n. a \<noteq> buf + of_nat j \<and> (i \<noteq> j \<longrightarrow> user_byte mem d (va + of_nat j) \<noteq> Some a)))"

definition copied :: "memory \<Rightarrow> u32 \<Rightarrow> u32 \<Rightarrow> u32 \<Rightarrow> nat \<Rightarrow> memory \<Rightarrow> bool" where
  "copied mem d va buf n mem' \<longleftrightarrow>
     (\<forall>i < n. \<exists>a. user_byte mem d (va + of_nat i) = Some a \<and> mem' a = mem (buf + of_nat i)) \<and>
     (\<forall>x. (\<forall>i < n. user_byte mem d (va + of_nat i) \<noteq> Some x) \<longrightarrow> mem' x = mem x)"

lemma targetD:
  assumes "target_ok mem d va buf n" and "i < n"
  obtains a where "user_byte mem d (va + of_nat i) = Some a" "PGROUNDDOWN a \<notin> pt_pages mem d" "PGROUNDDOWN a \<noteq> 0"
    "\<And>j. j < n \<Longrightarrow> a \<noteq> buf + of_nat j" "\<And>j. j < n \<Longrightarrow> user_byte mem d (va + of_nat j) = Some a \<Longrightarrow> j = i"
  using assms unfolding target_ok_def by metis

lemma user_byte_addr:
  assumes "user_byte mem d va = Some a"
  shows "PGROUNDDOWN a = a - (va - PGROUNDDOWN va)"
proof -
  obtain e where e: "a = P2V (PTE_ADDR e) + (va - PGROUNDDOWN va)"
    using assms by (auto simp: user_byte_def split: option.splits if_splits)
  have "in_bytes (P2V (PTE_ADDR e)) 4096 a" unfolding in_bytes_def e by (simp add: PGROUNDDOWN_offset)
  then have "PGROUNDDOWN a = P2V (PTE_ADDR e)" by (simp add: in_page)
  then show ?thesis by (simp add: e)
qed

lemma target_user:
  assumes "target_ok mem d va buf n" and "i < n"
  shows "\<exists>a. user_byte mem d (va + of_nat i) = Some a \<and> PGROUNDDOWN a \<notin> pt_pages mem d \<and> PGROUNDDOWN a \<noteq> 0"
  using assms unfolding target_ok_def by blast

lemma chunk_fits: "unat (va - PGROUNDDOWN va) + unat (chunk va len) \<le> 4096"
proof -
  let ?o = "va - PGROUNDDOWN va"
  have "unat ?o < 4096" by (simp add: PGROUNDDOWN_offset)
  moreover from this have "unat (PGSIZE - ?o) = 4096 - unat ?o" by (simp add: unat_sub word_le_nat_alt)
  ultimately show ?thesis by (auto simp: chunk_def Let_def word_less_nat_alt)
qed

lemma chunk_target:
  assumes "user_byte mem d va = Some a"
  shows "unat a + unat (chunk va len) \<le> 4294967296"
proof -
  let ?o = "va - PGROUNDDOWN va"
  have a: "a = PGROUNDDOWN a + ?o" using user_byte_addr [OF assms] by simp
  obtain q where q: "unat (PGROUNDDOWN a) = 4096 * q"
    using aligned_PGROUNDDOWN [of a] unfolding aligned_def by (auto elim: dvdE)
  then have "unat (PGROUNDDOWN a) \<le> 4294963200" using u32_bound [of "PGROUNDDOWN a"] by simp
  moreover have "unat a \<le> unat (PGROUNDDOWN a) + unat ?o" by (subst a) (simp only: unat_word_ariths mod_less_eq_dividend)
  ultimately show ?thesis using chunk_fits [of va len] by simp
qed

text \<open>One round of the loop.\<close>

lemma copy_chunk:
  fixes m :: "'a mach_scheme"
  assumes ok: "pt_ok m d" and t: "target_ok (m_mem m) d va buf (unat len)" and len: "len \<noteq> 0"
  defines "n \<equiv> chunk va len"
  obtains m1 where "copyout m d va buf len = copyout m1 d (PGROUNDDOWN va + PGSIZE) (buf + n) (len - n)"
    "pt_ok m1 d" "user_byte (m_mem m1) d = user_byte (m_mem m) d" "pt_pages (m_mem m1) d = pt_pages (m_mem m) d"
    "copied (m_mem m) d va buf (unat n) (m_mem m1)"
proof -
  let ?mem = "m_mem m"
  have n: "n \<noteq> 0" "unat n \<le> unat len" using chunk_bounds(1) [OF len] unat_chunk_le by (simp_all add: n_def)
  then have pos: "0 < unat n" "0 < unat len" using len by (simp_all add: unat_gt_0)
  obtain a where a: "user_byte ?mem d va = Some a" "PGROUNDDOWN a \<noteq> 0"
    using target_user [OF t pos(2)] by auto
  have ub: "user_byte ?mem d (va + of_nat i) = Some (a + of_nat i)" if "i < unat n" for i
    using user_byte_chunk [of i va len ?mem d] that a(1) by (simp add: n_def)
  define m1 where "m1 = m\<lparr>m_mem := memmove ?mem a buf n\<rparr>"
  have d0: "a - (va - PGROUNDDOWN va) = PGROUNDDOWN a" "PGROUNDDOWN a + (va - PGROUNDDOWN va) = a"
    using user_byte_addr [OF a(1)] by simp_all
  have step: "copyout m d va buf len = copyout m1 d (PGROUNDDOWN va + PGSIZE) (buf + n) (len - n)"
    by (subst copyout.simps) (use len a(2) uva2ka_user [OF ok a(1)] d0 in \<open>simp add: Let_def m1_def n_def [symmetric]\<close>)
  have bounds: "unat a + unat n \<le> 4294967296" "unat buf + unat n \<le> 4294967296"
    using chunk_target [OF a(1)] t n(2) by (simp_all add: target_ok_def n_def)
  have mm: "m_mem m1 x = (if in_bytes a (unat n) x then ?mem (buf + (x - a)) else ?mem x)" for x
    unfolding m1_def using memmove_apply [OF bounds(2,1), of ?mem x] by simp
  have out: "\<not> in_bytes a (unat n) x" if "\<And>i. i < unat n \<Longrightarrow> user_byte ?mem d (va + of_nat i) \<noteq> Some x" for x
    using that ub by (auto elim!: in_bytesE)
  have "PGROUNDDOWN x \<notin> pt_pages ?mem d" if x: "in_bytes a (unat n) x" for x
  proof -
    obtain i where i: "i < unat n" "x = a + of_nat i" using in_bytesE [OF x] .
    then have "i < unat len" using n(2) by simp
    from target_user [OF t this] show ?thesis using ub [OF i(1)] i(2) by auto
  qed
  then have eqs: "m_mem m1 x = ?mem x" if "PGROUNDDOWN x \<in> pt_pages ?mem d" for x using that mm by auto
  note c = pt_cong [OF pt_okD(3) [OF ok], where mem = ?mem and mem' = "m_mem m1", OF eqs]
  have ok1: "pt_ok m1 d" using ok eqs pt_okD(1) [OF ok] by (intro pt_ok_cong [OF ok]) (auto simp: m1_def)
  have ub1: "user_byte (m_mem m1) d = user_byte ?mem d" using c(6) by (simp add: user_byte_def fun_eq_iff)
  have inb: "in_bytes a (unat n) (a + of_nat i)" if "i < unat n" for i
    using in_bytes_add [OF that] that u32_bound [of n] by simp
  have cp: "copied ?mem d va buf (unat n) (m_mem m1)"
    unfolding copied_def
  proof (intro conjI allI impI)
    fix i assume i: "i < unat n"
    show "\<exists>a. user_byte ?mem d (va + of_nat i) = Some a \<and> m_mem m1 a = ?mem (buf + of_nat i)"
      using ub [OF i] inb [OF i] mm [of "a + of_nat i"] by simp
  next
    fix x assume "\<forall>i<unat n. user_byte ?mem d (va + of_nat i) \<noteq> Some x"
    then show "m_mem m1 x = ?mem x" using out [of x] mm [of x] by simp
  qed
  have pp: "pt_pages (m_mem m1) d = pt_pages ?mem d" using c(7) by simp
  show ?thesis by (rule that [OF step ok1 ub1 pp cp])
qed

lemma target_inj:
  assumes "target_ok mem d va buf n" and "i < n" "j < n"
    and "user_byte mem d (va + of_nat i) = Some a" "user_byte mem d (va + of_nat j) = Some a"
  shows "i = j"
  using assms unfolding target_ok_def by (metis option.inject)

lemma target_rest:
  assumes t: "target_ok mem d va buf (k + n)" and "k + n < 4294967296"
    and e: "user_byte mem' d = user_byte mem d" "pt_pages mem' d = pt_pages mem d"
  shows "target_ok mem' d (va + of_nat k) (buf + of_nat k) n"
proof -
  have "unat (buf + of_nat k) \<le> unat buf + unat (of_nat k :: u32)"
    by (simp only: unat_word_ariths mod_less_eq_dividend)
  moreover have "unat buf + (k + n) \<le> 4294967296" using t unfolding target_ok_def by blast
  ultimately have "unat (buf + of_nat k) + n \<le> 4294967296" using assms(2) by (simp add: unat_of_nat_u32)
  moreover have "\<exists>a. user_byte mem' d (va + of_nat k + of_nat i) = Some a \<and> PGROUNDDOWN a \<notin> pt_pages mem' d \<and>
        PGROUNDDOWN a \<noteq> 0 \<and> (\<forall>j < n. a \<noteq> buf + of_nat k + of_nat j \<and>
          (i \<noteq> j \<longrightarrow> user_byte mem' d (va + of_nat k + of_nat j) \<noteq> Some a))" if i: "i < n" for i
  proof -
    have s: "va + of_nat k + of_nat j = va + of_nat (k + j)" "buf + of_nat k + of_nat j = buf + of_nat (k + j)" for j
      by (simp_all add: algebra_simps)
    have "k + i < k + n" using i by simp
    from targetD [OF t this] show ?thesis unfolding s e by (metis add_less_cancel_left add_left_cancel)
  qed
  ultimately show ?thesis by (simp add: target_ok_def)
qed

lemma copied_trans:
  assumes t: "target_ok mem d va buf (k + n)"
    and 1: "copied mem d va buf k mem1" and u: "user_byte mem1 d = user_byte mem d"
    and 2: "copied mem1 d (va + of_nat k) (buf + of_nat k) n mem2"
  shows "copied mem d va buf (k + n) mem2"
  unfolding copied_def
proof (intro conjI allI impI)
  have s: "va + of_nat k + of_nat j = va + of_nat (k + j)" "buf + of_nat k + of_nat j = buf + of_nat (k + j)" for j
    by (simp_all add: algebra_simps)
  have src: "mem1 (buf + of_nat i) = mem (buf + of_nat i)" if "i < k + n" for i
  proof -
    have "user_byte mem d (va + of_nat j) \<noteq> Some (buf + of_nat i)" if "j < k" for j
      by (rule targetD [OF t, of j]) (use that \<open>i < k + n\<close> in auto)
    then show ?thesis using 1 by (simp add: copied_def)
  qed
  have keep: "mem2 x = mem1 x" if "\<And>j. j < n \<Longrightarrow> user_byte mem d (va + of_nat (k + j)) \<noteq> Some x" for x
    using 2 that unfolding copied_def u s by blast
  fix i assume i: "i < k + n"
  show "\<exists>a. user_byte mem d (va + of_nat i) = Some a \<and> mem2 a = mem (buf + of_nat i)"
  proof (cases "i < k")
    case True
    then obtain a where a: "user_byte mem d (va + of_nat i) = Some a" "mem1 a = mem (buf + of_nat i)"
      using 1 by (auto simp: copied_def)
    have "user_byte mem d (va + of_nat (k + j)) \<noteq> Some a" if "j < n" for j
      using target_inj [OF t i, of "k + j" a] a(1) that True by auto
    then show ?thesis using a keep by auto
  next
    case False
    then obtain j where j: "i = k + j" "j < n" using i le_Suc_ex [of k i] by auto
    then obtain a where "user_byte mem d (va + of_nat i) = Some a" "mem2 a = mem1 (buf + of_nat i)"
      using 2 unfolding copied_def u s by blast
    then show ?thesis using src [OF i] by auto
  qed
next
  fix x assume x: "\<forall>i < k + n. user_byte mem d (va + of_nat i) \<noteq> Some x"
  have s: "va + of_nat k + of_nat j = va + of_nat (k + j)" for j by (simp add: algebra_simps)
  have "user_byte mem d (va + of_nat (k + j)) \<noteq> Some x" if "j < n" for j using x that add_less_cancel_left by blast
  then have "mem2 x = mem1 x" using 2 unfolding copied_def u s by blast
  also have "mem1 x = mem x" using 1 x by (auto simp: copied_def)
  finally show "mem2 x = mem x" .
qed

lemma copyout_gives:
  assumes "pt_ok m d" and "target_ok (m_mem m) d va buf (unat len)"
  shows "gives (copyout m d va buf len) (\<lambda>(m', good). good \<and> pt_ok m' d \<and>
    user_byte (m_mem m') d = user_byte (m_mem m) d \<and> copied (m_mem m) d va buf (unat len) (m_mem m'))"
  using assms
proof (induction "unat len" arbitrary: m va buf len rule: less_induct)
  case (less len m va buf)
  show ?case
  proof (cases "len = 0")
    case True
    then show ?thesis using less.prems(1) by (subst copyout.simps) (simp add: copied_def)
  next
    case False
    define n where "n = chunk va len"
    obtain m1 where m1: "copyout m d va buf len = copyout m1 d (PGROUNDDOWN va + PGSIZE) (buf + n) (len - n)" "pt_ok m1 d"
      "user_byte (m_mem m1) d = user_byte (m_mem m) d" "pt_pages (m_mem m1) d = pt_pages (m_mem m) d"
      "copied (m_mem m) d va buf (unat n) (m_mem m1)"
      using copy_chunk [OF less.prems False] unfolding n_def by metis
    have n: "n \<noteq> 0" "unat n \<le> unat len" using chunk_bounds(1) [OF False] unat_chunk_le by (simp_all add: n_def)
    have r: "unat (len - n) = unat len - unat n" using n(2) by (simp add: unat_sub word_le_nat_alt)
    have sum: "unat n + unat (len - n) = unat len" using r n(2) by simp
    show ?thesis
    proof (cases "n = len")
      case True
      then show ?thesis using m1 unfolding m1(1) by (subst copyout.simps) simp
    next
      case nl: False
      have va: "PGROUNDDOWN va + PGSIZE = va + of_nat (unat n)" "buf + n = buf + of_nat (unat n)"
        using chunk_next [of va len] nl by (simp_all add: n_def)
      have t: "target_ok (m_mem m) d va buf (unat n + unat (len - n))" using less.prems(2) unfolding sum .
      have t1: "target_ok (m_mem m1) d (va + of_nat (unat n)) (buf + of_nat (unat n)) (unat (len - n))"
        by (rule target_rest [OF t _ m1(3,4)]) (simp only: sum u32_bound)
      have lt: "unat (len - n) < unat len" using r n unat_gt_0 [of n] by linarith
      from less.hyps [OF lt m1(2) t1] show ?thesis unfolding m1(1) va
        by (rule gives_mono) (use copied_trans [OF t m1(5,3)] m1(3) sum in auto)
    qed
  qed
qed

text \<open>
  C24. \<open>copyout\<close> to user memory that is mapped, at kernel addresses apart from each other, from
  the page table and from the source, returns success with every byte of the source at the
  place its user address is mapped to, across page boundaries; all other bytes of memory
  and the mapping are unchanged.
\<close>

theorem copyout_writes:
  assumes "pt_ok m d" and "target_ok (m_mem m) d va buf (unat len)"
  shows "gives (copyout m d va buf len) (\<lambda>(m', good). good \<and> pt_ok m' d \<and>
    user_byte (m_mem m') d = user_byte (m_mem m) d \<and> copied (m_mem m) d va buf (unat len) (m_mem m'))"
  using assms by (rule copyout_gives)

section \<open>Witnesses\<close>

definition w_tf :: trapframe where
  "w_tf = \<lparr>tf_edi = 0, tf_esi = 0, tf_ebp = 0, tf_oesp = 0, tf_ebx = 0, tf_edx = 0, tf_ecx = 0, tf_eax = 0,
     tf_gs = 0, tf_fs = 0, tf_es = 0x23, tf_ds = 0x23, tf_trapno = 14, tf_err = 7, tf_eip = 0x1000, tf_cs = 0x1B,
     tf_eflags = 0x200, tf_esp = 0x5000, tf_ss = 0x23\<rparr>"

definition w_proc :: proc where
  "w_proc = \<lparr>p_sz = 0x2000, p_pgdir = 0x8012D000, p_kstack = 0x80130000, p_state = RUNNING, p_pid = 4,
     p_parent = None, p_tf = w_tf, p_context = 0, p_chan = None, p_killed = False, p_ofile = (\<lambda>i. None), p_cwd = None, p_name = [],
     stacklastpg = 0x4000, stacktop = 0x104000, guardpg = 0x102000, shmbreak = 0x104000, shmtop = 0x1104000,
     shmnextpg = 0x104000\<rparr>"

lemma w_xlate: "xlate w_vmem 0x8012D000 x = (if PGROUNDDOWN x = 0x1000 then Some 0x12F805 else None)"
proof -
  have "PGROUNDDOWN x = 0x1000 \<longleftrightarrow> PDX x = 0 \<and> PTX x = 1"
    using same_page_iff [of x "0x1000"] by (simp add: PGROUNDDOWN_def PDX_def PTX_def)
  then show ?thesis by (auto simp: xlate_def w_vm_tab w_vm_pte)
qed

lemma w_vm_pages: "pt_pages w_vmem 0x8012D000 \<subseteq> {0x8012D000, 0x8012E000}"
  by (auto simp: pt_pages_def w_vm_tab)

lemma w_cow_write: "cow_write w_vm w_proc 0x1234 0x8012F000" "refs w_vm 0x8012F000 = 2"
proof -
  have x: "PDX 0x1234 = 0" "PTX 0x1234 = 1" by (simp_all add: PDX_def PTX_def)
  have "m_mem w_vm = w_vmem" by (simp add: w_vm_def)
  then show "cow_write w_vm w_proc 0x1234 0x8012F000"
    using w_vm_ok w_vm_pages w_vm_usable [of "0x8012F000"]
    by (auto simp: cow_write_def w_proc_def w_tf_def w_vm_tab w_vm_pte x PTE_ADDR_def P2V_def)
  have "page_index 0x8012F000 = 303" by (simp add: page_index_def V2P_def unat_div_distrib)
  then show "refs w_vm 0x8012F000 = 2" by (simp add: refs_def bad_page_def w_vm_def m_one_def V2P_def)
qed

theorem pagefault_copies_witness:
  "gives (pagefault w_vm w_proc 0x1234) (\<lambda>(m', p'). p' = w_proc \<and> (\<exists>e. xlate (m_mem m') 0x8012D000 0x1234 = Some e \<and>
     PTE_ADDR e = 0x12C000 \<and> e AND PTE_W \<noteq> 0) \<and> refs m' 0x8012F000 = 1)"
proof -
  have "p_pgdir w_proc = 0x8012D000" by (simp add: w_proc_def)
  with pagefault_copies [OF w_cow_write(1)] w_cow_write(2) w_vm_alloc(2) show ?thesis
    by (auto simp: V2P_def elim!: gives_mono)
qed

definition w_vm1 :: mach where
  "w_vm1 = w_vm\<lparr>m_kmem := (m_kmem m_one)\<lparr>runs := (runs (m_kmem m_one))(303 := \<lparr>ref_count = 1, run_next = None\<rparr>)\<rparr>\<rparr>"

lemma w_vm1_alloc: "alloc_inv w_vm1" "live_pages w_vm1 = live_pages w_vm" "m_mem w_vm1 = w_vmem" "refs w_vm1 0x8012F000 = 1"
proof -
  have k: "kinv [300] w_vm1" using kinv_m_one by (auto simp: kinv_def w_vm1_def w_vm_def m_one_def lock_ok_def)
  then show "alloc_inv w_vm1" unfolding alloc_inv_def by blast
  have "usable_pages w_vm1 = usable_pages w_vm" by (simp add: usable_pages_def bad_page_def w_vm1_def)
  then show "live_pages w_vm1 = live_pages w_vm"
    using free_pages_eq [OF k] w_vm_alloc(2) by (simp add: live_pages_def page300)
  show "m_mem w_vm1 = w_vmem" by (simp add: w_vm1_def w_vm_def)
  have "page_index 0x8012F000 = 303" by (simp add: page_index_def V2P_def unat_div_distrib)
  then show "refs w_vm1 0x8012F000 = 1" by (simp add: refs_def bad_page_def w_vm1_def w_vm_def m_one_def V2P_def)
qed

theorem pagefault_owns_witness:
  "gives (pagefault w_vm1 w_proc 0x1234) (\<lambda>(m', p'). p' = w_proc \<and> xlate (m_mem m') 0x8012D000 0x1234 = Some 0x12F007)"
proof -
  have p: "p_pgdir w_proc = 0x8012D000" "m_mem w_vm = w_vmem" by (simp_all add: w_proc_def w_vm_def)
  have x: "pte_at w_vmem 0x8012D000 0x1234 = 0x12F805" by (simp add: w_vm_pte PDX_def PTX_def)
  have "cow_write w_vm1 w_proc 0x1234 0x8012F000"
    using w_cow_write(1) w_vm1_alloc p unfolding cow_write_def pt_ok_def by simp
  from pagefault_owns [OF this w_vm1_alloc(4)] show ?thesis
    unfolding p w_vm1_alloc(3) x by (auto elim!: gives_mono)
qed


theorem copyout_writes_witness:
  "gives (copyout w_vm 0x8012D000 0x1010 0x80100100 2) (\<lambda>(m', good). good \<and>
    copied w_vmem 0x8012D000 0x1010 0x80100100 2 (m_mem m'))"
proof -
  have m: "m_mem w_vm = w_vmem" by (simp add: w_vm_def)
  have u: "user_byte w_vmem 0x8012D000 (0x1010 + i) = Some (0x8012F010 + i)" if "i \<in> {0, 1}" for i
    using that by (auto simp: user_byte_def w_xlate PGROUNDDOWN_def PTE_ADDR_def P2V_def)
  have "target_ok (m_mem w_vm) 0x8012D000 0x1010 0x80100100 (unat (2 :: u32))"
    using w_vm_pages u [of 0] u [of 1] unfolding target_ok_def m
    by (auto simp: less_2_cases_iff PGROUNDDOWN_def)
  from copyout_writes [OF w_vm_ok this] show ?thesis by (auto simp: m elim!: gives_mono)
qed

end
