(* ===== verification/Proc.thy ===== *)
theory Proc
  imports Vm
begin

text \<open>
  The process table (\<^verbatim>\<open>proc.c\<close>). What a function does while it holds \<open>ptable.lock\<close> is one
  operation on the table; the functions that go on without the lock (\<open>fork\<close>, \<open>exit\<close>, \<open>wait\<close>)
  are in the theory of the kernel's state. The second part interleaves the operations of all
  processes and the scheduler, and shows what holds between them.
\<close>

section \<open>The table\<close>

definition NPROC :: nat where
  "NPROC = 64"

record ptab =
  pt_proc :: "nat \<Rightarrow> proc"
  initproc :: "nat option"
  nextpid :: int

definition upd_proc :: "nat \<Rightarrow> (proc \<Rightarrow> proc) \<Rightarrow> ptab \<Rightarrow> ptab" where
  "upd_proc i f t = t\<lparr>pt_proc := (pt_proc t)(i := f (pt_proc t i))\<rparr>"

definition cmpinit :: "ptab \<Rightarrow> nat \<Rightarrow> bool" where
  "cmpinit t a \<longleftrightarrow> initproc t = Some a"

text \<open>The part of \<open>allocproc\<close> under the lock: the first unused slot becomes an embryo.\<close>

definition alloc_slot :: "ptab \<Rightarrow> (ptab \<times> nat) option" where
  "alloc_slot t =
     (case find (\<lambda>i. p_state (pt_proc t i) = UNUSED) [0..<NPROC] of
        None \<Rightarrow> None
      | Some i \<Rightarrow> Some (upd_proc i (\<lambda>p. p\<lparr>p_state := EMBRYO, p_pid := nextpid t\<rparr>) t\<lparr>nextpid := nextpid t + 1\<rparr>, i))"

text \<open>
  The failure paths of \<open>allocproc\<close> and \<open>fork\<close> make the slot unused again; the kernel stack is
  null in both cases.
\<close>

definition abandon :: "nat \<Rightarrow> ptab \<Rightarrow> ptab" where
  "abandon j = upd_proc j (\<lambda>p. p\<lparr>p_kstack := 0, p_state := UNUSED\<rparr>)"

definition set_state :: "procstate \<Rightarrow> nat \<Rightarrow> ptab \<Rightarrow> ptab" where
  "set_state st i = upd_proc i (\<lambda>p. p\<lparr>p_state := st\<rparr>)"

section \<open>Sleeping and waking\<close>

definition sleeps_on :: "wchan option \<Rightarrow> proc \<Rightarrow> bool" where
  "sleeps_on chan p \<longleftrightarrow> p_state p = SLEEPING \<and> p_chan p = chan"

definition wakeup1 :: "wchan option \<Rightarrow> ptab \<Rightarrow> ptab" where
  "wakeup1 chan t = t\<lparr>pt_proc := \<lambda>i.
     if i < NPROC \<and> sleeps_on chan (pt_proc t i) then pt_proc t i\<lparr>p_state := RUNNABLE\<rparr> else pt_proc t i\<rparr>"

text \<open>\<open>wakeupfutex1\<close> counts the processes it wakes.\<close>

definition wakeupfutex1 :: "wchan option \<Rightarrow> ptab \<Rightarrow> ptab \<times> int" where
  "wakeupfutex1 chan t =
     (wakeup1 chan t, int (length (filter (\<lambda>i. sleeps_on chan (pt_proc t i)) [0..<NPROC])))"

text \<open>The two sides of \<open>sched\<close> in \<open>sleep\<close>: before the switch, and after it.\<close>

definition sleep_on :: "nat \<Rightarrow> wchan \<Rightarrow> ptab \<Rightarrow> ptab" where
  "sleep_on i chan = upd_proc i (\<lambda>p. p\<lparr>p_chan := Some chan, p_state := SLEEPING\<rparr>)"

definition sleep_tidy :: "nat \<Rightarrow> ptab \<Rightarrow> ptab" where
  "sleep_tidy i = upd_proc i (\<lambda>p. p\<lparr>p_chan := None\<rparr>)"

definition kill :: "ptab \<Rightarrow> int \<Rightarrow> ptab \<times> int" where
  "kill t pid =
     (case find (\<lambda>i. p_pid (pt_proc t i) = pid) [0..<NPROC] of
        None \<Rightarrow> (t, -1)
      | Some i \<Rightarrow> (upd_proc i (\<lambda>p. if p_state p = SLEEPING then p\<lparr>p_killed := True, p_state := RUNNABLE\<rparr>
                     else p\<lparr>p_killed := True\<rparr>) t, 0))"

section \<open>Exit and wait\<close>

definition adopt :: "nat \<Rightarrow> ptab \<Rightarrow> nat \<Rightarrow> ptab" where
  "adopt cur t i =
     (if p_parent (pt_proc t i) = Some cur
      then let t = upd_proc i (\<lambda>p. p\<lparr>p_parent := initproc t\<rparr>) t in
        if p_state (pt_proc t i) = ZOMBIE then wakeup1 (map_option ChProc (initproc t)) t else t
      else t)"

text \<open>The part of \<open>exit\<close> under the lock.\<close>

definition exit_table :: "nat \<Rightarrow> ptab \<Rightarrow> ptab" where
  "exit_table cur t =
     (let t = wakeup1 (map_option ChProc (p_parent (pt_proc t cur))) t in
      set_state ZOMBIE cur (foldl (adopt cur) t [0..<NPROC]))"

text \<open>One scan of \<open>wait\<close>: whether there are children, and the first zombie among them.\<close>

fun wait_scan :: "ptab \<Rightarrow> nat \<Rightarrow> nat list \<Rightarrow> bool \<Rightarrow> bool \<times> nat option" where
  "wait_scan t cur [] havekids = (havekids, None)"
| "wait_scan t cur (i # is) havekids =
     (if p_parent (pt_proc t i) \<noteq> Some cur then wait_scan t cur is havekids
      else if p_state (pt_proc t i) = ZOMBIE then (True, Some i)
      else wait_scan t cur is True)"

text \<open>The table entry of a child whose stack and memory have been freed.\<close>

definition reap :: "nat \<Rightarrow> ptab \<Rightarrow> ptab" where
  "reap i = upd_proc i (\<lambda>p. p\<lparr>p_kstack := 0, p_pid := 0, p_parent := None, p_name := (p_name p)[0 := 0],
     p_killed := False, p_state := UNUSED\<rparr>)"

text \<open>
  \<open>safestrcpy\<close> from the array \<open>t\<close> to the array \<open>s\<close> of 16 bytes: the function on memory, with the
  arrays next to each other.
\<close>

definition name_copy :: "uchar list \<Rightarrow> uchar list \<Rightarrow> uchar list" where
  "name_copy s t =
     (let at = (\<lambda>xs i. if i < length xs then xs ! i else 0);
        m = safestrcpy (\<lambda>a. if a < 16 then at s (unat a) else at t (unat (a - 16))) 0 16 16 in
      map (\<lambda>i. m (of_nat i)) [0..<16])"

text \<open>
  The end of \<open>fork\<close>: the child's entry. \<open>pgdir\<close>, the files and the directory are the copies
  made before.
\<close>

definition fork_entry :: "proc \<Rightarrow> nat \<Rightarrow> proc \<Rightarrow> proc" where
  "fork_entry curproc cur np = np\<lparr>p_sz := p_sz curproc, guardpg := guardpg curproc,
     stacklastpg := stacklastpg curproc, stacktop := stacktop curproc, shmbreak := shmbreak curproc,
     shmnextpg := shmnextpg curproc, shmtop := shmtop curproc, p_parent := Some cur,
     p_tf := (p_tf curproc)\<lparr>tf_eax := 0\<rparr>, p_name := name_copy (p_name np) (p_name curproc)\<rparr>"

definition fork_table :: "nat \<Rightarrow> nat \<Rightarrow> ptab \<Rightarrow> ptab" where
  "fork_table cur j t = set_state RUNNABLE j (upd_proc j (fork_entry (pt_proc t cur) cur) t)"

section \<open>All processes together\<close>

text \<open>
  A state of the system: the table, and for each process in \<open>fork\<close> the slot of the child it
  is making. A process does something when it runs; \<open>st_run\<close> is the scheduler's choice,
  together with what \<open>sleep\<close> does when it comes back. The steps of \<open>wait\<close> follow its scan.
\<close>

record psys =
  tab :: ptab
  making :: "nat \<Rightarrow> nat option"

definition runs_now :: "psys \<Rightarrow> nat \<Rightarrow> bool" where
  "runs_now s i \<longleftrightarrow> i < NPROC \<and> p_state (pt_proc (tab s) i) = RUNNING"

inductive pt_step :: "psys \<Rightarrow> psys \<Rightarrow> bool" where
  st_fork: "runs_now s c \<Longrightarrow> making s c = None \<Longrightarrow> alloc_slot (tab s) = Some (t, j) \<Longrightarrow>
    pt_step s (s\<lparr>tab := t, making := (making s)(c := Some j)\<rparr>)"
| st_fork_fail: "runs_now s c \<Longrightarrow> making s c = Some j \<Longrightarrow>
    pt_step s (s\<lparr>tab := abandon j (tab s), making := (making s)(c := None)\<rparr>)"
| st_fork_done: "runs_now s c \<Longrightarrow> making s c = Some j \<Longrightarrow>
    pt_step s (s\<lparr>tab := fork_table c j (tab s), making := (making s)(c := None)\<rparr>)"
| st_exit: "runs_now s c \<Longrightarrow> making s c = None \<Longrightarrow> \<not> cmpinit (tab s) c \<Longrightarrow>
    pt_step s (s\<lparr>tab := exit_table c (tab s)\<rparr>)"
| st_reap: "runs_now s c \<Longrightarrow> making s c = None \<Longrightarrow> wait_scan (tab s) c [0..<NPROC] False = (k, Some i) \<Longrightarrow>
    pt_step s (s\<lparr>tab := reap i (tab s)\<rparr>)"
| st_wait: "runs_now s c \<Longrightarrow> making s c = None \<Longrightarrow> wait_scan (tab s) c [0..<NPROC] False = (True, None) \<Longrightarrow>
    \<not> p_killed (pt_proc (tab s) c) \<Longrightarrow> pt_step s (s\<lparr>tab := sleep_on c (ChProc c) (tab s)\<rparr>)"
| st_sleep: "runs_now s c \<Longrightarrow> (\<And>i. ch \<noteq> ChProc i) \<Longrightarrow> pt_step s (s\<lparr>tab := sleep_on c ch (tab s)\<rparr>)"
| st_wakeup: "pt_step s (s\<lparr>tab := wakeup1 (Some ch) (tab s)\<rparr>)"
| st_kill: "pt_step s (s\<lparr>tab := fst (kill (tab s) pid)\<rparr>)"
| st_yield: "runs_now s c \<Longrightarrow> pt_step s (s\<lparr>tab := set_state RUNNABLE c (tab s)\<rparr>)"
| st_run: "i < NPROC \<Longrightarrow> p_state (pt_proc (tab s) i) = RUNNABLE \<Longrightarrow>
    pt_step s (s\<lparr>tab := sleep_tidy i (set_state RUNNING i (tab s))\<rparr>)"

text \<open>After \<open>userinit\<close>: one process, the first one, ready to run.\<close>

definition pt_start :: "psys \<Rightarrow> bool" where
  "pt_start s \<longleftrightarrow> making s = (\<lambda>i. None) \<and> (\<exists>k < NPROC. initproc (tab s) = Some k \<and>
     p_state (pt_proc (tab s) k) = RUNNABLE \<and> 0 < p_pid (pt_proc (tab s) k) \<and>
     p_pid (pt_proc (tab s) k) < nextpid (tab s) \<and> p_parent (pt_proc (tab s) k) = None \<and>
     (\<forall>i < NPROC. i \<noteq> k \<longrightarrow> p_state (pt_proc (tab s) i) = UNUSED \<and> p_parent (pt_proc (tab s) i) = None))"

inductive pt_reach :: "psys \<Rightarrow> bool" where
  pt_reach_start: "pt_start s \<Longrightarrow> pt_reach s"
| pt_reach_step: "pt_reach s \<Longrightarrow> pt_step s s' \<Longrightarrow> pt_reach s'"

end
