(* ===== verification/File.thy ===== *)
theory File
  imports Fs Pipe Vm
begin

text \<open>
  Open files (\<^verbatim>\<open>file.c\<close>). The file table, the pipes and the descriptor table of the calling
  process extend the state of the file system. A pipe is known by the address of the page that
  holds it. Freeing that page and waking processes up are effects a function returns; reading
  and writing a pipe is a pass of the call, which may end asleep.
\<close>

section \<open>State\<close>

definition NFILE :: nat where
  "NFILE = 100"

definition NOFILE :: nat where
  "NOFILE = 16"

datatype fdtype = FD_NONE | FD_PIPE | FD_INODE

record filerec =
  fl_type :: fdtype
  fl_ref :: int
  fl_readable :: bool
  fl_writable :: bool
  fl_pipe :: u32
  fl_ip :: nat
  fl_off :: u32

text \<open>\<open>f_ofile\<close> and \<open>f_killed\<close> are the fields \<open>ofile\<close> and \<open>killed\<close> of the calling process.\<close>

record fsys = fstate +
  ftable :: "nat \<Rightarrow> filerec"
  pipes :: "u32 \<Rightarrow> pipe"
  f_ofile :: "nat \<Rightarrow> nat option"
  f_killed :: bool

datatype effect = Wake wchan | Free u32

definition upd_file :: "nat \<Rightarrow> (filerec \<Rightarrow> filerec) \<Rightarrow> 'a fsys_scheme \<Rightarrow> 'a fsys_scheme" where
  "upd_file f g s = s\<lparr>ftable := (ftable s)(f := g (ftable s f))\<rparr>"

text \<open>The channel of a pipe's counter.\<close>

definition pipe_chan :: "u32 \<Rightarrow> chan \<Rightarrow> wchan" where
  "pipe_chan p c = (case c of NRead \<Rightarrow> ChPipeR p | NWrite \<Rightarrow> ChPipeW p)"

section \<open>Transactions on the logical disk\<close>

definition fs_begin_op :: "'a fstate_scheme \<Rightarrow> 'a fstate_scheme outcome" where
  "fs_begin_op s = (case begin_op_pass (f_log s) of None \<Rightarrow> Inl Hang | Some l \<Rightarrow> ok (s\<lparr>f_log := l\<rparr>))"

text \<open>A commit empties the log; the logical disk has the blocks already.\<close>

definition fs_end_op :: "'a fstate_scheme \<Rightarrow> 'a fstate_scheme outcome" where
  "fs_end_op s =
     bnd (end_op_enter (f_log s)) (\<lambda>(l, do_commit).
       ok (s\<lparr>f_log := if do_commit then l\<lparr>lh_n := if lh_n l > 0 then 0 else lh_n l, committing := False\<rparr> else l\<rparr>))"

section \<open>Operations\<close>

definition filealloc :: "'a fsys_scheme \<Rightarrow> 'a fsys_scheme \<times> nat option" where
  "filealloc s =
     (case find (\<lambda>f. fl_ref (ftable s f) = 0) [0..<NFILE] of
        None \<Rightarrow> (s, None)
      | Some f \<Rightarrow> (upd_file f (\<lambda>x. x\<lparr>fl_ref := 1\<rparr>) s, Some f))"

definition filedup :: "'a fsys_scheme \<Rightarrow> nat \<Rightarrow> 'a fsys_scheme outcome" where
  "filedup s f =
     (if fl_ref (ftable s f) < 1 then panic ''filedup''
      else ok (upd_file f (\<lambda>x. x\<lparr>fl_ref := fl_ref x + 1\<rparr>) s))"

text \<open>The last reference is gone: \<open>ff\<close> is the copy of the entry.\<close>

definition close_last :: "'a fsys_scheme \<Rightarrow> filerec \<Rightarrow> ('a fsys_scheme \<times> effect list) outcome" where
  "close_last s ff =
     (case fl_type ff of
        FD_PIPE \<Rightarrow>
          (case pipeclose (pipes s (fl_pipe ff)) (fl_writable ff) of (p, w, freed) \<Rightarrow>
            ok (s\<lparr>pipes := (pipes s)(fl_pipe ff := p)\<rparr>,
              map (\<lambda>c. Wake (pipe_chan (fl_pipe ff) c)) w @ (if freed then [Free (fl_pipe ff)] else [])))
      | FD_INODE \<Rightarrow>
          bnd (fs_begin_op s) (\<lambda>s. bnd (iput s (fl_ip ff)) (\<lambda>s. bnd (fs_end_op s) (\<lambda>s. ok (s, []))))
      | FD_NONE \<Rightarrow> ok (s, []))"

definition fileclose :: "'a fsys_scheme \<Rightarrow> nat \<Rightarrow> ('a fsys_scheme \<times> effect list) outcome" where
  "fileclose s f =
     (let ff = ftable s f in
      if fl_ref ff < 1 then panic ''fileclose''
      else if fl_ref ff - 1 > 0 then ok (upd_file f (\<lambda>x. x\<lparr>fl_ref := fl_ref x - 1\<rparr>) s, [])
      else close_last (upd_file f (\<lambda>x. x\<lparr>fl_ref := 0, fl_type := FD_NONE\<rparr>) s) ff)"

definition filestat :: "'a fsys_scheme \<Rightarrow> nat \<Rightarrow> ('a fsys_scheme \<times> stat option) outcome" where
  "filestat s f =
     (let ip = fl_ip (ftable s f) in
      if fl_type (ftable s f) = FD_INODE
      then bnd (ilock s ip) (\<lambda>s. let st = stati s ip in bnd (iunlock s ip) (\<lambda>s. ok (s, Some st)))
      else ok (s, None))"

text \<open>
  The result of a pass of a read or a write: the call returns a value (and, for a read, the
  bytes it copied to the caller), or it sleeps on a channel, after byte \<open>i\<close> for a write.
\<close>

datatype ioret = IoRet int "uchar list" | IoSleep wchan nat

definition fileread ::
  "devtab \<Rightarrow> 'a fsys_scheme \<Rightarrow> nat \<Rightarrow> u32 \<Rightarrow> ('a fsys_scheme \<times> ioret \<times> effect list) outcome" where
  "fileread devsw s f n =
     (let x = ftable s f; ip = fl_ip x; p = fl_pipe x in
      if \<not> fl_readable x then ok (s, IoRet (-1) [], [])
      else case fl_type x of
        FD_PIPE \<Rightarrow>
          (case piperead (f_killed s) (sint n) (pipes s p) of (q, w, r) \<Rightarrow>
             ok (s\<lparr>pipes := (pipes s)(p := q)\<rparr>,
               (case r of RDone cs \<Rightarrow> IoRet (int (length cs)) cs | RFail \<Rightarrow> IoRet (-1) [] | RSleep \<Rightarrow> IoSleep (ChPipeR p) 0),
               map (\<lambda>c. Wake (pipe_chan p c)) w))
      | FD_INODE \<Rightarrow>
          bnd (ilock s ip) (\<lambda>s.
          bnd (readi devsw s ip (fl_off (ftable s f)) n) (\<lambda>(s, r, bs).
          let s = (if r > 0 then upd_file f (\<lambda>x. x\<lparr>fl_off := fl_off x + word_of_int r\<rparr>) s else s) in
          bnd (iunlock s ip) (\<lambda>s. ok (s, IoRet r bs, []))))
      | FD_NONE \<Rightarrow> panic ''fileread'')"

text \<open>The largest write in one transaction.\<close>

definition max_write :: nat where
  "max_write = ((LOGSIZE - 1 - 1 - 2) div 2) * 512"

text \<open>
  One round of the loop of \<open>filewrite\<close>: \<open>n1\<close> bytes from byte \<open>i\<close> of the buffer on. The result
  is what \<open>writei\<close> returned.
\<close>

definition write_some ::
  "devtab \<Rightarrow> 'a fsys_scheme \<Rightarrow> nat \<Rightarrow> (nat \<Rightarrow> uchar) \<Rightarrow> nat \<Rightarrow> nat \<Rightarrow> ('a fsys_scheme \<times> int) outcome" where
  "write_some devsw s f addr i n1 =
     (let ip = fl_ip (ftable s f) in
      bnd (fs_begin_op s) (\<lambda>s.
      bnd (ilock s ip) (\<lambda>s.
      bnd (writei devsw s ip (\<lambda>k. addr (i + k)) (fl_off (ftable s f)) (of_nat n1)) (\<lambda>(s, r).
      let s = (if r > 0 then upd_file f (\<lambda>x. x\<lparr>fl_off := fl_off x + word_of_int r\<rparr>) s else s) in
      bnd (iunlock s ip) (\<lambda>s.
      bnd (fs_end_op s) (\<lambda>s. ok (s, r)))))))"

function filewrite_loop ::
  "devtab \<Rightarrow> 'a fsys_scheme \<Rightarrow> nat \<Rightarrow> (nat \<Rightarrow> uchar) \<Rightarrow> nat \<Rightarrow> nat \<Rightarrow> ('a fsys_scheme \<times> int) outcome" where
  "filewrite_loop devsw s f addr n i =
     (if i < n then
        let n1 = min (n - i) max_write in
        bnd (write_some devsw s f addr i n1) (\<lambda>(s, r).
          if r < 0 then ok (s, -1)
          else if r \<noteq> int n1 then panic ''short filewrite''
          else filewrite_loop devsw s f addr n (i + n1))
      else ok (s, int n))"
  by pat_completeness auto
termination
  by (relation "measure (\<lambda>(devsw, s, f, addr, n, i). n - i)") (auto simp: max_write_def LOGSIZE_def)

declare filewrite_loop.simps [simp del]

text \<open>\<open>i\<close> is where a write to a pipe goes on after it slept; \<open>n\<close> is a C \<open>int\<close>.\<close>

definition filewrite ::
  "devtab \<Rightarrow> 'a fsys_scheme \<Rightarrow> nat \<Rightarrow> (nat \<Rightarrow> uchar) \<Rightarrow> int \<Rightarrow> nat \<Rightarrow> ('a fsys_scheme \<times> ioret \<times> effect list) outcome" where
  "filewrite devsw s f addr n i =
     (let x = ftable s f; p = fl_pipe x in
      if \<not> fl_writable x then ok (s, IoRet (-1) [], [])
      else case fl_type x of
        FD_PIPE \<Rightarrow>
          (case pipewrite (f_killed s) addr n (pipes s p) i of (q, w, r) \<Rightarrow>
             ok (s\<lparr>pipes := (pipes s)(p := q)\<rparr>,
               (case r of WDone \<Rightarrow> IoRet n [] | WFail \<Rightarrow> IoRet (-1) [] | WSleep i \<Rightarrow> IoSleep (ChPipeW p) i),
               map (\<lambda>c. Wake (pipe_chan p c)) w))
      | FD_INODE \<Rightarrow>
          if n \<le> 0 then ok (s, IoRet (if n = 0 then 0 else -1) [], [])
          else bnd (filewrite_loop devsw s f addr (nat n) 0) (\<lambda>(s, r). ok (s, IoRet r [], []))
      | FD_NONE \<Rightarrow> panic ''filewrite'')"

end
