(* ===== verification/Sysfile.thy ===== *)
theory Sysfile
  imports File Fs_Refs
begin

text \<open>
  The file system calls (\<^verbatim>\<open>sysfile.c\<close>) after their arguments have been fetched: paths are byte
  lists, descriptors and flags are numbers. What a call returns to the user is an \<open>int\<close>. The
  fetching of the arguments is in the theory of system calls.
\<close>

section \<open>Descriptors\<close>

text \<open>The check of \<open>argfd\<close>: the file of a descriptor.\<close>

definition fd_file :: "'a fsys_scheme \<Rightarrow> int \<Rightarrow> nat option" where
  "fd_file s fd = (if fd < 0 \<or> fd \<ge> int NOFILE then None else f_ofile s (nat fd))"

definition fdalloc :: "'a fsys_scheme \<Rightarrow> nat \<Rightarrow> 'a fsys_scheme \<times> int" where
  "fdalloc s f =
     (case find (\<lambda>fd. f_ofile s fd = None) [0..<NOFILE] of
        None \<Rightarrow> (s, -1)
      | Some fd \<Rightarrow> (s\<lparr>f_ofile := (f_ofile s)(fd := Some f)\<rparr>, int fd))"

definition do_dup :: "'a fsys_scheme \<Rightarrow> int \<Rightarrow> ('a fsys_scheme \<times> int) outcome" where
  "do_dup s fd =
     (case fd_file s fd of
        None \<Rightarrow> ok (s, -1)
      | Some f \<Rightarrow>
          (case fdalloc s f of (s, fd) \<Rightarrow> if fd < 0 then ok (s, -1) else bnd (filedup s f) (\<lambda>s. ok (s, fd))))"

definition do_close :: "'a fsys_scheme \<Rightarrow> int \<Rightarrow> ('a fsys_scheme \<times> int \<times> effect list) outcome" where
  "do_close s fd =
     (case fd_file s fd of
        None \<Rightarrow> ok (s, -1, [])
      | Some f \<Rightarrow>
          bnd (fileclose (s\<lparr>f_ofile := (f_ofile s)(nat fd := None)\<rparr>) f) (\<lambda>(s, e). ok (s, 0, e)))"

definition do_fstat :: "'a fsys_scheme \<Rightarrow> int \<Rightarrow> ('a fsys_scheme \<times> stat option) outcome" where
  "do_fstat s fd = (case fd_file s fd of None \<Rightarrow> ok (s, None) | Some f \<Rightarrow> filestat s f)"

text \<open>Reads and writes, with the number of bytes asked for.\<close>

definition do_read :: "devtab \<Rightarrow> 'a fsys_scheme \<Rightarrow> int \<Rightarrow> u32 \<Rightarrow> ('a fsys_scheme \<times> ioret \<times> effect list) outcome" where
  "do_read devsw s fd n =
     (case fd_file s fd of None \<Rightarrow> ok (s, IoRet (-1) [], []) | Some f \<Rightarrow> fileread devsw s f n)"

definition do_write ::
  "devtab \<Rightarrow> 'a fsys_scheme \<Rightarrow> int \<Rightarrow> (nat \<Rightarrow> uchar) \<Rightarrow> int \<Rightarrow> nat \<Rightarrow> ('a fsys_scheme \<times> ioret \<times> effect list) outcome" where
  "do_write devsw s fd addr n i =
     (case fd_file s fd of None \<Rightarrow> ok (s, IoRet (-1) [], []) | Some f \<Rightarrow> filewrite devsw s f addr n i)"

section \<open>Links\<close>

definition add_nlink :: "nat \<Rightarrow> short \<Rightarrow> 'a fstate_scheme \<Rightarrow> 'a fstate_scheme" where
  "add_nlink ip k s = upd_d ip (\<lambda>d. d\<lparr>d_nlink := d_nlink d + k\<rparr>) s"

text \<open>The label \<open>bad\<close> of \<open>sys_link\<close>.\<close>

definition link_bad :: "'a fsys_scheme \<Rightarrow> nat \<Rightarrow> ('a fsys_scheme \<times> int) outcome" where
  "link_bad s ip =
     bnd (ilock s ip) (\<lambda>s.
     bnd (iupdate (add_nlink ip (-1) s) ip) (\<lambda>s.
     bnd (iunlockput s ip) (\<lambda>s.
     bnd (fs_end_op s) (\<lambda>s. ok (s, -1)))))"

definition link_at :: "devtab \<Rightarrow> 'a fsys_scheme \<Rightarrow> nat \<Rightarrow> uchar list \<Rightarrow> ('a fsys_scheme \<times> int) outcome" where
  "link_at devsw s ip new =
     bnd (nameiparent devsw s new (replicate DIRSIZ 0)) (\<lambda>(s, dp, name).
     case dp of None \<Rightarrow> link_bad s ip
     | Some dp \<Rightarrow>
         bnd (ilock s dp) (\<lambda>s.
         if i_dev (icache s dp) \<noteq> i_dev (icache s ip) then bnd (iunlockput s dp) (\<lambda>s. link_bad s ip)
         else bnd (dirlink devsw s dp name (i_inum (icache s ip))) (\<lambda>(s, r).
           if r < 0 then bnd (iunlockput s dp) (\<lambda>s. link_bad s ip)
           else bnd (iunlockput s dp) (\<lambda>s.
             bnd (iput s ip) (\<lambda>s.
             bnd (fs_end_op s) (\<lambda>s. ok (s, 0)))))))"

definition do_link :: "devtab \<Rightarrow> 'a fsys_scheme \<Rightarrow> uchar list \<Rightarrow> uchar list \<Rightarrow> ('a fsys_scheme \<times> int) outcome" where
  "do_link devsw s old new =
     bnd (fs_begin_op s) (\<lambda>s.
     bnd (namei devsw s old) (\<lambda>(s, ip).
     case ip of None \<Rightarrow> bnd (fs_end_op s) (\<lambda>s. ok (s, -1))
     | Some ip \<Rightarrow>
         bnd (ilock s ip) (\<lambda>s.
         if d_type (i_d (icache s ip)) = T_DIR
         then bnd (iunlockput s ip) (\<lambda>s. bnd (fs_end_op s) (\<lambda>s. ok (s, -1)))
         else bnd (iupdate (add_nlink ip 1 s) ip) (\<lambda>s.
           bnd (iunlock s ip) (\<lambda>s. link_at devsw s ip new)))))"

text \<open>The loop of \<open>isdirempty\<close>; the first two entries are \<open>.\<close> and \<open>..\<close>.\<close>

function isdirempty_loop ::
  "devtab \<Rightarrow> 'a fsys_scheme \<Rightarrow> nat \<Rightarrow> nat \<Rightarrow> nat \<Rightarrow> ('a fsys_scheme \<times> bool) outcome" where
  "isdirempty_loop devsw s dp off sz =
     (if off < sz then
        bnd (readi devsw s dp (of_nat off) 16) (\<lambda>(s, r, de).
        if r \<noteq> 16 then panic ''isdirempty: readi''
        else if de_inum de \<noteq> 0 then ok (s, False)
        else isdirempty_loop devsw s dp (off + 16) sz)
      else ok (s, True))"
  by pat_completeness auto
termination by (relation "measure (\<lambda>(devsw, s, dp, off, sz). sz - off)") auto

declare isdirempty_loop.simps [simp del]

definition isdirempty :: "devtab \<Rightarrow> 'a fsys_scheme \<Rightarrow> nat \<Rightarrow> ('a fsys_scheme \<times> bool) outcome" where
  "isdirempty devsw s dp = isdirempty_loop devsw s dp (2 * 16) (unat (d_size (i_d (icache s dp))))"

definition unlink_bad :: "'a fsys_scheme \<Rightarrow> nat \<Rightarrow> ('a fsys_scheme \<times> int) outcome" where
  "unlink_bad s dp = bnd (iunlockput s dp) (\<lambda>s. bnd (fs_end_op s) (\<lambda>s. ok (s, -1)))"

text \<open>From the erased entry on.\<close>

definition unlink_entry :: "devtab \<Rightarrow> 'a fsys_scheme \<Rightarrow> nat \<Rightarrow> nat \<Rightarrow> nat \<Rightarrow> ('a fsys_scheme \<times> int) outcome" where
  "unlink_entry devsw s dp ip off =
     bnd (writei devsw s dp (\<lambda>i. 0) (of_nat off) 16) (\<lambda>(s, r).
     if r \<noteq> 16 then panic ''unlink: writei''
     else bnd (if d_type (i_d (icache s ip)) = T_DIR then iupdate (add_nlink dp (-1) s) dp else ok s) (\<lambda>s.
       bnd (iunlockput s dp) (\<lambda>s.
       bnd (iupdate (add_nlink ip (-1) s) ip) (\<lambda>s.
       bnd (iunlockput s ip) (\<lambda>s.
       bnd (fs_end_op s) (\<lambda>s. ok (s, 0)))))))"

abbreviation (input) dot :: "uchar list" where "dot \<equiv> [46]"
abbreviation (input) dotdot :: "uchar list" where "dotdot \<equiv> [46, 46]"

definition do_unlink :: "devtab \<Rightarrow> 'a fsys_scheme \<Rightarrow> uchar list \<Rightarrow> ('a fsys_scheme \<times> int) outcome" where
  "do_unlink devsw s path =
     bnd (fs_begin_op s) (\<lambda>s.
     bnd (nameiparent devsw s path (replicate DIRSIZ 0)) (\<lambda>(s, dp, name).
     case dp of None \<Rightarrow> bnd (fs_end_op s) (\<lambda>s. ok (s, -1))
     | Some dp \<Rightarrow>
         bnd (ilock s dp) (\<lambda>s.
         if namecmp name dot = 0 \<or> namecmp name dotdot = 0 then unlink_bad s dp
         else bnd (dirlookup devsw s dp name) (\<lambda>(s, r).
           case r of None \<Rightarrow> unlink_bad s dp
           | Some (ip, off) \<Rightarrow>
               bnd (ilock s ip) (\<lambda>s.
               if sint (d_nlink (i_d (icache s ip))) < 1 then panic ''unlink: nlink < 1''
               else bnd (if d_type (i_d (icache s ip)) = T_DIR then isdirempty devsw s ip else ok (s, True)) (\<lambda>(s, e).
                 if e then unlink_entry devsw s dp ip off
                 else bnd (iunlockput s ip) (\<lambda>s. unlink_bad s dp)))))))"

section \<open>Creating\<close>

text \<open>A new inode in the directory \<open>dp\<close>, both locked.\<close>

definition create_new ::
  "devtab \<Rightarrow> 'a fsys_scheme \<Rightarrow> nat \<Rightarrow> uchar list \<Rightarrow> short \<Rightarrow> short \<Rightarrow> short \<Rightarrow> ('a fsys_scheme \<times> nat option) outcome" where
  "create_new devsw s dp name type major minor =
     bnd (ialloc s (i_dev (icache s dp)) type) (\<lambda>(s, ip).
     bnd (ilock s ip) (\<lambda>s.
     bnd (iupdate (upd_d ip (\<lambda>d. d\<lparr>d_major := major, d_minor := minor, d_nlink := 1\<rparr>) s) ip) (\<lambda>s.
     bnd (if type = T_DIR then
            bnd (iupdate (add_nlink dp 1 s) dp) (\<lambda>s.
            bnd (dirlink devsw s ip dot (i_inum (icache s ip))) (\<lambda>(s, r).
            if r < 0 then panic ''create dots''
            else bnd (dirlink devsw s ip dotdot (i_inum (icache s dp))) (\<lambda>(s, r).
              if r < 0 then panic ''create dots'' else ok s)))
          else ok s) (\<lambda>s.
     bnd (dirlink devsw s dp name (i_inum (icache s ip))) (\<lambda>(s, r).
     if r < 0 then panic ''create: dirlink''
     else bnd (iunlockput s dp) (\<lambda>s. ok (s, Some ip)))))))"

definition create ::
  "devtab \<Rightarrow> 'a fsys_scheme \<Rightarrow> uchar list \<Rightarrow> short \<Rightarrow> short \<Rightarrow> short \<Rightarrow> ('a fsys_scheme \<times> nat option) outcome" where
  "create devsw s path type major minor =
     bnd (nameiparent devsw s path (replicate DIRSIZ 0)) (\<lambda>(s, dp, name).
     case dp of None \<Rightarrow> ok (s, None)
     | Some dp \<Rightarrow>
         bnd (ilock s dp) (\<lambda>s.
         bnd (dirlookup devsw s dp name) (\<lambda>(s, r).
         case r of
           Some (ip, off) \<Rightarrow>
             bnd (iunlockput s dp) (\<lambda>s.
             bnd (ilock s ip) (\<lambda>s.
             if type = T_FILE \<and> d_type (i_d (icache s ip)) = T_FILE then ok (s, Some ip)
             else bnd (iunlockput s ip) (\<lambda>s. ok (s, None))))
         | None \<Rightarrow> create_new devsw s dp name type major minor)))"

abbreviation (input) O_WRONLY :: u32 where "O_WRONLY \<equiv> 1"
abbreviation (input) O_RDWR :: u32 where "O_RDWR \<equiv> 2"
abbreviation (input) O_CREATE :: u32 where "O_CREATE \<equiv> 0x200"

text \<open>The first half of \<open>sys_open\<close>: the inode, locked, or nothing.\<close>

definition open_inode :: "devtab \<Rightarrow> 'a fsys_scheme \<Rightarrow> uchar list \<Rightarrow> u32 \<Rightarrow> ('a fsys_scheme \<times> nat option) outcome" where
  "open_inode devsw s path omode =
     (if omode AND O_CREATE \<noteq> 0 then create devsw s path T_FILE 0 0
      else bnd (namei devsw s path) (\<lambda>(s, ip).
        case ip of None \<Rightarrow> ok (s, None)
        | Some ip \<Rightarrow>
            bnd (ilock s ip) (\<lambda>s.
            if d_type (i_d (icache s ip)) = T_DIR \<and> omode \<noteq> 0
            then bnd (iunlockput s ip) (\<lambda>s. ok (s, None))
            else ok (s, Some ip))))"

text \<open>A file table entry and a descriptor for the open file, or neither.\<close>

definition open_fd :: "'a fsys_scheme \<Rightarrow> ('a fsys_scheme \<times> (nat \<times> int) option \<times> effect list) outcome" where
  "open_fd s =
     (case filealloc s of
        (s, None) \<Rightarrow> ok (s, None, [])
      | (s, Some f) \<Rightarrow>
          (case fdalloc s f of (s, fd) \<Rightarrow>
            if fd < 0 then bnd (fileclose s f) (\<lambda>(s, e). ok (s, None, e)) else ok (s, Some (f, fd), [])))"

definition do_open ::
  "devtab \<Rightarrow> 'a fsys_scheme \<Rightarrow> uchar list \<Rightarrow> u32 \<Rightarrow> ('a fsys_scheme \<times> int \<times> effect list) outcome" where
  "do_open devsw s path omode =
     bnd (fs_begin_op s) (\<lambda>s.
     bnd (open_inode devsw s path omode) (\<lambda>(s, ip).
     case ip of None \<Rightarrow> bnd (fs_end_op s) (\<lambda>s. ok (s, -1, []))
     | Some ip \<Rightarrow>
         bnd (open_fd s) (\<lambda>(s, r, e).
         case r of None \<Rightarrow> bnd (iunlockput s ip) (\<lambda>s. bnd (fs_end_op s) (\<lambda>s. ok (s, -1, e)))
         | Some (f, fd) \<Rightarrow>
             bnd (iunlock s ip) (\<lambda>s.
             bnd (fs_end_op s) (\<lambda>s.
             ok (upd_file f (\<lambda>x. x\<lparr>fl_type := FD_INODE, fl_ip := ip, fl_off := 0,
               fl_readable := omode AND O_WRONLY = 0,
               fl_writable := omode AND O_WRONLY \<noteq> 0 \<or> omode AND O_RDWR \<noteq> 0\<rparr>) s, fd, e))))))"

text \<open>\<open>None\<close> as the path is a string argument that could not be fetched.\<close>

definition make_node ::
  "devtab \<Rightarrow> 'a fsys_scheme \<Rightarrow> uchar list option \<Rightarrow> short \<Rightarrow> short \<Rightarrow> short \<Rightarrow> ('a fsys_scheme \<times> int) outcome" where
  "make_node devsw s path type major minor =
     bnd (fs_begin_op s) (\<lambda>s.
     bnd (case path of None \<Rightarrow> ok (s, None) | Some path \<Rightarrow> create devsw s path type major minor) (\<lambda>(s, ip).
     case ip of None \<Rightarrow> bnd (fs_end_op s) (\<lambda>s. ok (s, -1))
     | Some ip \<Rightarrow> bnd (iunlockput s ip) (\<lambda>s. bnd (fs_end_op s) (\<lambda>s. ok (s, 0)))))"

definition do_mkdir :: "devtab \<Rightarrow> 'a fsys_scheme \<Rightarrow> uchar list option \<Rightarrow> ('a fsys_scheme \<times> int) outcome" where
  "do_mkdir devsw s path = make_node devsw s path T_DIR 0 0"

text \<open>\<open>major\<close> and \<open>minor\<close> are \<open>int\<close> arguments, cut to \<open>short\<close> by the call of \<open>create\<close>.\<close>

definition do_mknod ::
  "devtab \<Rightarrow> 'a fsys_scheme \<Rightarrow> uchar list option \<Rightarrow> u32 \<Rightarrow> u32 \<Rightarrow> ('a fsys_scheme \<times> int) outcome" where
  "do_mknod devsw s path major minor = make_node devsw s path T_DEV (ucast major) (ucast minor)"

definition do_chdir :: "devtab \<Rightarrow> 'a fsys_scheme \<Rightarrow> uchar list option \<Rightarrow> ('a fsys_scheme \<times> int) outcome" where
  "do_chdir devsw s path =
     bnd (fs_begin_op s) (\<lambda>s.
     bnd (case path of None \<Rightarrow> ok (s, None) | Some path \<Rightarrow> namei devsw s path) (\<lambda>(s, ip).
     case ip of None \<Rightarrow> bnd (fs_end_op s) (\<lambda>s. ok (s, -1))
     | Some ip \<Rightarrow>
         bnd (ilock s ip) (\<lambda>s.
         if d_type (i_d (icache s ip)) \<noteq> T_DIR
         then bnd (iunlockput s ip) (\<lambda>s. bnd (fs_end_op s) (\<lambda>s. ok (s, -1)))
         else bnd (iunlock s ip) (\<lambda>s.
           bnd (iput s (f_cwd s)) (\<lambda>s.
           bnd (fs_end_op s) (\<lambda>s. ok (s\<lparr>f_cwd := ip\<rparr>, 0)))))))"

end
