(* ===== verification/Kernel.thy ===== *)
theory Kernel
  imports Proc Sysfile
begin

text \<open>
  The kernel's state as a whole and the functions of \<^verbatim>\<open>proc.c\<close> that work on several parts of
  it: processes with their kernel stacks, page tables and open files. The argument \<open>cur\<close> is
  the slot of the running process, the value of \<open>myproc()\<close>. The trap frame of a process is a
  component of its entry. A function that may block is a pass: it returns, or it has put the
  process to sleep.
\<close>

section \<open>State\<close>

text \<open>
  The last four fields are the values of the linker symbols \<open>trapret\<close>, \<open>forkret\<close>,
  \<open>_binary_initcode_start\<close> and \<open>_binary_initcode_size\<close>.
\<close>

record kstate = vmach +
  k_pt :: ptab
  k_fs :: fsys
  k_ticks :: u32
  trapret :: u32
  forkret :: u32
  initcode_start :: u32
  initcode_size :: u32

abbreviation prc :: "kstate \<Rightarrow> nat \<Rightarrow> proc" where
  "prc k i \<equiv> pt_proc (k_pt k) i"

definition upd_k :: "nat \<Rightarrow> (proc \<Rightarrow> proc) \<Rightarrow> kstate \<Rightarrow> kstate" where
  "upd_k i f k = k\<lparr>k_pt := upd_proc i f (k_pt k)\<rparr>"

text \<open>What a pass of a call ends with: a value, asleep, ready but not
  running, or with the end of the process.\<close>

datatype kret = KRet int | KSleep wchan | KYield | KGone

text \<open>
  The file system as the process in slot \<open>i\<close> sees it: its descriptors and its directory are
  fields of its entry.
\<close>

definition fs_view :: "kstate \<Rightarrow> nat \<Rightarrow> fsys" where
  "fs_view k i = (k_fs k)\<lparr>f_pid := p_pid (prc k i),
     f_cwd := (case p_cwd (prc k i) of Some c \<Rightarrow> c | None \<Rightarrow> f_cwd (k_fs k)),
     f_ofile := p_ofile (prc k i), f_killed := p_killed (prc k i)\<rparr>"

definition fs_back :: "kstate \<Rightarrow> nat \<Rightarrow> fsys \<Rightarrow> kstate" where
  "fs_back k i s = upd_k i (\<lambda>p. p\<lparr>p_ofile := f_ofile s, p_cwd := map_option (\<lambda>c. f_cwd s) (p_cwd p)\<rparr>) (k\<lparr>k_fs := s\<rparr>)"

definition with_fs :: "nat \<Rightarrow> (fsys \<Rightarrow> (fsys \<times> 'r) outcome) \<Rightarrow> kstate \<Rightarrow> (kstate \<times> 'r) outcome" where
  "with_fs i f k = bnd (f (fs_view k i)) (\<lambda>(s, r). ok (fs_back k i s, r))"

section \<open>The processor\<close>

definition myproc :: "smp \<Rightarrow> (smp \<times> nat option) outcome" where
  "myproc s =
     bnd (pushcli s) (\<lambda>s.
     bnd (mycpu s) (\<lambda>c.
     let p = cproc (cpus s ! c) in
     bnd (popcli s) (\<lambda>s. ok (s, p))))"

text \<open>The checks of \<open>sched\<close>, with the word of \<open>ptable.lock\<close>; the result is the saved \<open>intena\<close>.\<close>

definition sched :: "smp \<Rightarrow> spinlock \<Rightarrow> proc \<Rightarrow> bool outcome" where
  "sched s lk p =
     bnd (holding s lk) (\<lambda>h.
     if \<not> h then panic ''sched ptable.lock''
     else bnd (mycpu s) (\<lambda>c.
       if ncli (cpus s ! c) \<noteq> 1 then panic ''sched locks''
       else if p_state p = RUNNING then panic ''sched running''
       else if fl_if (hw s) then panic ''sched interruptible''
       else ok (intena (cpus s ! c))))"

text \<open>The scheduler from slot \<open>i\<close> of its loop on, up to the switch, and after the switch back.\<close>

definition sched_pick :: "kstate \<Rightarrow> nat \<Rightarrow> nat option" where
  "sched_pick k i = find (\<lambda>j. p_state (prc k j) = RUNNABLE) [i..<NPROC]"

definition sched_to :: "kstate \<Rightarrow> nat \<Rightarrow> nat \<Rightarrow> kstate outcome" where
  "sched_to k c i =
     bnd (switchuvm (k\<lparr>m_smp := upd_cpu c (\<lambda>x. x\<lparr>cproc := Some i\<rparr>) (m_smp k)\<rparr>) (Some (prc k i))) (\<lambda>k.
       ok (k\<lparr>k_pt := set_state RUNNING i (k_pt k)\<rparr>))"

definition sched_back :: "kstate \<Rightarrow> nat \<Rightarrow> kstate" where
  "sched_back k c = (switchkvm k)\<lparr>m_smp := upd_cpu c (\<lambda>x. x\<lparr>cproc := None\<rparr>) (m_smp k)\<rparr>"

definition yield :: "kstate \<Rightarrow> nat \<Rightarrow> kstate" where
  "yield k cur = k\<lparr>k_pt := set_state RUNNABLE cur (k_pt k)\<rparr>"

definition wakeup :: "kstate \<Rightarrow> wchan \<Rightarrow> kstate" where
  "wakeup k ch = k\<lparr>k_pt := wakeup1 (Some ch) (k_pt k)\<rparr>"

definition sleep :: "kstate \<Rightarrow> nat \<Rightarrow> wchan \<Rightarrow> kstate \<times> kret" where
  "sleep k cur ch = (k\<lparr>k_pt := sleep_on cur ch (k_pt k)\<rparr>, KSleep ch)"

text \<open>The wake-ups and the page a function of \<^verbatim>\<open>file.c\<close> leaves to do.\<close>

fun effects :: "effect list \<Rightarrow> kstate \<Rightarrow> kstate outcome" where
  "effects [] k = ok k"
| "effects (Wake ch # es) k = effects es (wakeup k ch)"
| "effects (Free a # es) k = bnd (kfree k a) (effects es)"

section \<open>New processes\<close>

text \<open>
  The stack of a new process: room for a trap frame of 76 bytes, the address of \<open>trapret\<close>, and a
  context of 20 bytes whose last word is the address of \<open>forkret\<close>.
\<close>

definition new_stack :: "nat \<Rightarrow> u32 \<Rightarrow> kstate \<Rightarrow> kstate" where
  "new_stack j kstack k =
     (let sp = kstack + KSTACKSIZE - 76 - 4;
        mem = store32 (m_mem k) sp (trapret k);
        sp = sp - 20;
        mem = store32 (memset mem sp 0 20) (sp + 16) (forkret k) in
      upd_k j (\<lambda>p. p\<lparr>p_kstack := kstack, p_context := sp\<rparr>) (k\<lparr>m_mem := mem\<rparr>))"

definition allocproc :: "kstate \<Rightarrow> (kstate \<times> nat option) outcome" where
  "allocproc k =
     (case alloc_slot (k_pt k) of
        None \<Rightarrow> ok (k, None)
      | Some (t, j) \<Rightarrow>
          bnd (kalloc (k\<lparr>k_pt := t\<rparr>)) (\<lambda>(k, kstack).
            if kstack = 0 then ok (k\<lparr>k_pt := abandon j (k_pt k)\<rparr>, None)
            else ok (new_stack j kstack k, Some j)))"

text \<open>The trap frame of the first process: \<open>SEG_UCODE\<close> is 3, \<open>SEG_UDATA\<close> is 4, \<open>DPL_USER\<close> is 3.\<close>

definition first_tf :: trapframe where
  "first_tf =
     (let ds = push_bit 3 4 OR 3 in
      \<lparr>tf_edi = 0, tf_esi = 0, tf_ebp = 0, tf_oesp = 0, tf_ebx = 0, tf_edx = 0, tf_ecx = 0, tf_eax = 0,
       tf_gs = 0, tf_fs = 0, tf_es = ds, tf_ds = ds, tf_trapno = 0, tf_err = 0, tf_eip = 0, tf_cs = push_bit 3 3 OR 3,
       tf_eflags = 0x200, tf_esp = PGSIZE, tf_ss = ds\<rparr>)"

definition userinit :: "devtab \<Rightarrow> kstate \<Rightarrow> kstate outcome" where
  "userinit devsw k =
     bnd (allocproc k) (\<lambda>(k, p).
     let k = k\<lparr>k_pt := (k_pt k)\<lparr>initproc := p\<rparr>\<rparr> in
     case p of None \<Rightarrow> Inl Fault
     | Some j \<Rightarrow>
         bnd (setupkvm k) (\<lambda>(k, d).
         let k = upd_k j (\<lambda>p. p\<lparr>p_pgdir := d\<rparr>) k in
         if d = 0 then panic ''userinit: out of memory?''
         else bnd (inituvm k d (initcode_start k) (initcode_size k)) (\<lambda>k.
           let k = upd_k j (\<lambda>p. p\<lparr>p_sz := PGSIZE, p_tf := first_tf,
             p_name := name_copy (p_name p) [105, 110, 105, 116, 99, 111, 100, 101]\<rparr>) k in
           bnd (namei devsw (k_fs k) [47]) (\<lambda>(s, ip).
             ok (upd_k j (\<lambda>p. p\<lparr>p_cwd := ip, p_state := RUNNABLE\<rparr>) (k\<lparr>k_fs := s\<rparr>))))))"

definition growproc :: "kstate \<Rightarrow> nat \<Rightarrow> u32 \<Rightarrow> (kstate \<times> int) outcome" where
  "growproc k cur n =
     (let p = prc k cur; sz = p_sz p in
      bnd (if sint n > 0 then bnd (allocuvm k (p_pgdir p) sz (sz + n) (Some p)) (\<lambda>(k, sz). ok (k, sz, sz \<noteq> 0))
           else if sint n < 0 then bnd (deallocuvm k (p_pgdir p) sz (sz + n) (Some p)) (\<lambda>(k, sz). ok (k, sz, sz \<noteq> 0))
           else ok (k, sz, True)) (\<lambda>(k, sz, good).
        if \<not> good then ok (k, -1)
        else let k = upd_k cur (\<lambda>p. p\<lparr>p_sz := sz\<rparr>) k in
          bnd (switchuvm k (Some (prc k cur))) (\<lambda>k. ok (k, 0))))"

text \<open>The loop of \<open>fork\<close> over the descriptors.\<close>

fun dup_files :: "fsys \<Rightarrow> (nat \<Rightarrow> nat option) \<Rightarrow> (nat \<Rightarrow> nat option) \<Rightarrow> nat list \<Rightarrow> (fsys \<times> (nat \<Rightarrow> nat option)) outcome" where
  "dup_files s par ch [] = ok (s, ch)"
| "dup_files s par ch (i # is) =
     (case par i of
        None \<Rightarrow> dup_files s par ch is
      | Some f \<Rightarrow> bnd (filedup s f) (\<lambda>s. dup_files s par (ch(i := Some f)) is))"

definition fork :: "kstate \<Rightarrow> nat \<Rightarrow> (kstate \<times> int) outcome" where
  "fork k cur =
     bnd (allocproc k) (\<lambda>(k, np).
     case np of None \<Rightarrow> ok (k, -1)
     | Some j \<Rightarrow>
         bnd (cowuvm k (p_pgdir (prc k cur)) (p_sz (prc k cur)) (prc k cur)) (\<lambda>(k, d).
         let k = upd_k j (\<lambda>p. p\<lparr>p_pgdir := d\<rparr>) k in
         if d = 0 then ok (k\<lparr>k_pt := abandon j (k_pt k)\<rparr>, -1)
         else let k = upd_k j (fork_entry (prc k cur) cur) k in
           bnd (allocvdso k d (prc k j)) (\<lambda>(k, r).
           bnd (dup_files (k_fs k) (p_ofile (prc k cur)) (p_ofile (prc k j)) [0..<NOFILE]) (\<lambda>(s, fds).
           case p_cwd (prc k cur) of None \<Rightarrow> Inl Fault
           | Some c \<Rightarrow>
               let k = upd_k j (\<lambda>p. p\<lparr>p_ofile := fds, p_cwd := Some c\<rparr>) (k\<lparr>k_fs := idup s c\<rparr>) in
               ok (k\<lparr>k_pt := set_state RUNNABLE j (k_pt k)\<rparr>, p_pid (prc k j))))))"

section \<open>Ends of processes\<close>

fun close_files :: "kstate \<Rightarrow> nat \<Rightarrow> nat list \<Rightarrow> kstate outcome" where
  "close_files k cur [] = ok k"
| "close_files k cur (fd # fds) =
     (case p_ofile (prc k cur) fd of
        None \<Rightarrow> close_files k cur fds
      | Some f \<Rightarrow>
          bnd (with_fs cur (\<lambda>s. fileclose s f) k) (\<lambda>(k, e).
          bnd (effects e k) (\<lambda>k.
            close_files (upd_k cur (\<lambda>p. p\<lparr>p_ofile := (p_ofile p)(fd := None)\<rparr>) k) cur fds)))"

text \<open>\<open>begin_op(); iput(curproc->cwd); end_op();\<close>\<close>

definition put_cwd :: "fsys \<Rightarrow> (fsys \<times> unit) outcome" where
  "put_cwd s = bnd (fs_begin_op s) (\<lambda>s. bnd (iput s (f_cwd s)) (\<lambda>s. bnd (fs_end_op s) (\<lambda>s. ok (s, ()))))"

text \<open>\<open>exit\<close>, up to the switch to the scheduler from which it does not return.\<close>

definition exit :: "kstate \<Rightarrow> nat \<Rightarrow> kstate outcome" where
  "exit k cur =
     (if cmpinit (k_pt k) cur then panic ''init exiting''
      else bnd (close_files k cur [0..<NOFILE]) (\<lambda>k.
        if p_cwd (prc k cur) = None then Inl Fault
        else bnd (with_fs cur put_cwd k) (\<lambda>(k, u).
          ok (k\<lparr>k_pt := exit_table cur (upd_proc cur (\<lambda>p. p\<lparr>p_cwd := None\<rparr>) (k_pt k))\<rparr>))))"

text \<open>One round of the loop of \<open>wait\<close>.\<close>

definition wait :: "kstate \<Rightarrow> nat \<Rightarrow> (kstate \<times> kret) outcome" where
  "wait k cur =
     (case wait_scan (k_pt k) cur [0..<NPROC] False of
        (havekids, Some i) \<Rightarrow>
          bnd (drop_page k (p_kstack (prc k i))) (\<lambda>k.
          let k = upd_k i (\<lambda>p. p\<lparr>p_kstack := 0\<rparr>) k in
          bnd (freevm k (p_pgdir (prc k i)) (Some (prc k i))) (\<lambda>k.
            ok (k\<lparr>k_pt := reap i (k_pt k)\<rparr>, KRet (p_pid (prc k i)))))
      | (havekids, None) \<Rightarrow>
          if \<not> havekids \<or> p_killed (prc k cur) then ok (k, KRet (-1)) else ok (sleep k cur (ChProc cur)))"

section \<open>Pipes\<close>

definition close_file :: "kstate \<Rightarrow> nat \<Rightarrow> kstate outcome" where
  "close_file k f = bnd (fileclose (k_fs k) f) (\<lambda>(s, e). effects e (k\<lparr>k_fs := s\<rparr>))"

definition pipe_end :: "u32 \<Rightarrow> bool \<Rightarrow> filerec \<Rightarrow> filerec" where
  "pipe_end p wr x = x\<lparr>fl_type := FD_PIPE, fl_readable := \<not> wr, fl_writable := wr, fl_pipe := p\<rparr>"

text \<open>The bytes the buffer of a new pipe starts with are those of the page, at offset 52.\<close>

definition pipealloc :: "kstate \<Rightarrow> (kstate \<times> (nat \<times> nat) option) outcome" where
  "pipealloc k =
     (case filealloc (k_fs k) of
        (s, None) \<Rightarrow> ok (k\<lparr>k_fs := s\<rparr>, None)
      | (s, Some f0) \<Rightarrow>
          (case filealloc s of
             (s, None) \<Rightarrow> bnd (close_file (k\<lparr>k_fs := s\<rparr>) f0) (\<lambda>k. ok (k, None))
           | (s, Some f1) \<Rightarrow>
               bnd (kalloc (k\<lparr>k_fs := s\<rparr>)) (\<lambda>(k, p).
                 if p = 0 then bnd (close_file k f0) (\<lambda>k. bnd (close_file k f1) (\<lambda>k. ok (k, None)))
                 else let bytes = map (\<lambda>i. m_mem k (p + 52 + of_nat i)) [0..<PIPESIZE];
                   s = (k_fs k)\<lparr>pipes := (pipes (k_fs k))(p := pipe_init bytes)\<rparr> in
                   ok (k\<lparr>k_fs := upd_file f1 (pipe_end p True) (upd_file f0 (pipe_end p False) s)\<rparr>, Some (f0, f1)))))"

text \<open>\<open>sys_pipe\<close> after the check of its argument; the result is the pair of descriptors.\<close>

definition do_pipe :: "kstate \<Rightarrow> nat \<Rightarrow> (kstate \<times> (int \<times> int) option) outcome" where
  "do_pipe k cur =
     bnd (pipealloc k) (\<lambda>(k, r).
     case r of None \<Rightarrow> ok (k, None)
     | Some (rf, wrf) \<Rightarrow>
         (case fdalloc (fs_view k cur) rf of (s, fd0) \<Rightarrow>
         let k = fs_back k cur s in
         if fd0 < 0 then bnd (close_file k rf) (\<lambda>k. bnd (close_file k wrf) (\<lambda>k. ok (k, None)))
         else case fdalloc (fs_view k cur) wrf of (s, fd1) \<Rightarrow>
           let k = fs_back k cur s in
           if fd1 < 0 then
             bnd (close_file (upd_k cur (\<lambda>p. p\<lparr>p_ofile := (p_ofile p)(nat fd0 := None)\<rparr>) k) rf) (\<lambda>k.
             bnd (close_file k wrf) (\<lambda>k. ok (k, None)))
           else ok (k, Some (fd0, fd1))))"

end
