(* ===== verification/Vm_Keep.thy ===== *)
theory Vm_Keep
  imports Vm
begin

text \<open>
  The functions of \<^verbatim>\<open>kalloc.c\<close> and \<^verbatim>\<open>vm.c\<close> change the allocator, memory and the processor only:
  whatever extends the machine's state is as before. These are rules of \<open>post_rules\<close> style for
  the theories that put the machine into a larger state.
\<close>

named_theorems keeps \<open>what extends the machine is unchanged\<close>

section \<open>Pages\<close>

lemma upd_run_more [simp]: "mach.more (upd_run r f m) = mach.more m"
  by (simp add: upd_run_def)

lemma run_updates_more [simp]:
  "mach.more (zeroRefCountRun r m) = mach.more m" "mach.more (inclRefCountRun r m) = mach.more m"
  "mach.more (declRefCountRun r m) = mach.more m" "mach.more (push_run r m) = mach.more m"
  by (simp_all add: zeroRefCountRun_def inclRefCountRun_def declRefCountRun_def push_run_def Let_def)

lemma kmem_acquire_keeps [keeps]:
  assumes "\<And>m'. mach.more m' = mach.more m \<Longrightarrow> P m'"
  shows "post (kmem_acquire m) P"
  unfolding kmem_acquire_def by (auto intro!: assms postI simp: bnd_eq_Inr)

lemma kmem_release_keeps [keeps]:
  assumes "\<And>m'. mach.more m' = mach.more m \<Longrightarrow> P m'"
  shows "post (kmem_release m) P"
  unfolding kmem_release_def by (auto intro!: assms postI simp: bnd_eq_Inr)

lemma pop_run_keeps [keeps]:
  assumes "\<And>m' r. mach.more m' = mach.more m \<Longrightarrow> P (m', r)"
  shows "post (pop_run m) P"
  unfolding pop_run_def by (auto intro!: assms simp: Let_def)

lemma run_of_post [keeps]:
  assumes "\<And>r. P r"
  shows "post (run_of v) P"
  by (auto intro!: assms postI)

lemma kalloc_keeps [keeps]:
  assumes "\<And>m' v. mach.more m' = mach.more m \<Longrightarrow> P (m', v)"
  shows "post (kalloc m) P"
  unfolding kalloc_def by (auto intro!: keeps assms)

lemma kfree_keeps [keeps]:
  assumes "\<And>m'. mach.more m' = mach.more m \<Longrightarrow> P m'"
  shows "post (kfree m v) P"
  unfolding kfree_def Let_def by (auto intro!: keeps assms)

lemma inclRefCount_keeps [keeps]:
  assumes "\<And>m'. mach.more m' = mach.more m \<Longrightarrow> P m'"
  shows "post (inclRefCount m v) P"
  unfolding inclRefCount_def by (auto intro!: keeps assms)

lemma declRefCount_keeps [keeps]:
  assumes "\<And>m'. mach.more m' = mach.more m \<Longrightarrow> P m'"
  shows "post (declRefCount m v) P"
  unfolding declRefCount_def by (auto intro!: keeps assms)

lemma getRefCount_keeps [keeps]:
  assumes "\<And>m' c. mach.more m' = mach.more m \<Longrightarrow> P (m', c)"
  shows "post (getRefCount m v) P"
  unfolding getRefCount_def by (auto intro!: keeps assms)

lemma drop_page_keeps [keeps]:
  assumes "\<And>m'. mach.more m' = mach.more m \<Longrightarrow> P m'"
  shows "post (drop_page m v) P"
  unfolding drop_page_def by (auto intro!: keeps assms)

lemma deref_post [keeps]:
  assumes "\<And>e. P e"
  shows "post (deref m p) P"
  by (auto intro!: assms postI)

lemma assign_keeps [keeps]:
  assumes "\<And>m'. mach.more m' = mach.more m \<Longrightarrow> P m'"
  shows "post (assign m p v) P"
  unfolding assign_def by (auto intro!: assms)

section \<open>Page tables\<close>

lemma walkpgdir_keeps [keeps]:
  assumes "\<And>m' pte. mach.more m' = mach.more m \<Longrightarrow> P (m', pte)"
  shows "post (walkpgdir m pgdir va alloc) P"
  unfolding walkpgdir_def Let_def by (auto intro!: keeps assms)

lemma mappages_loop_keeps [keeps]:
  assumes "\<And>m' b. mach.more m' = mach.more m \<Longrightarrow> P (m', b)"
  shows "post (mappages_loop m pgdir a pa perm n) P"
  using assms
proof (induction n arbitrary: m a pa)
  case 0
  then show ?case by (subst mappages_loop.simps) (auto intro!: keeps)
next
  case (Suc n)
  have "post (mappages_loop m' pgdir a' pa' perm n) P" if "mach.more m' = mach.more m" for m' a' pa'
    using that by (intro Suc) simp
  then show ?case using Suc(2) by (subst mappages_loop.simps) (auto intro!: keeps)
qed

lemma mappages_keeps [keeps]:
  assumes "\<And>m' b. mach.more m' = mach.more m \<Longrightarrow> P (m', b)"
  shows "post (mappages m pgdir va sz pa perm) P"
  unfolding mappages_def Let_def by (intro keeps assms)

lemma dealloc_page_keeps [keeps]:
  assumes "\<And>m'. mach.more m' = mach.more m \<Longrightarrow> P m'"
  shows "post (dealloc_page m pte a p) P"
  unfolding dealloc_page_def by (auto intro!: keeps assms split: option.splits)

lemma deallocuvm_loop_keeps [keeps]:
  assumes "\<And>m'. mach.more m' = mach.more m \<Longrightarrow> P m'"
  shows "post (deallocuvm_loop m pgdir a oldsz p) P"
  using assms
proof (induction "4294967296 - unat a" arbitrary: m a rule: less_induct)
  case less
  have rest: "post (deallocuvm_loop m' pgdir a' oldsz p) P" if "mach.more m' = mach.more m" "\<not> a' \<le> a" for m' a'
    using that u32_bound [of a'] by (intro less) (auto simp: word_le_nat_alt)
  show ?case
    apply (subst deallocuvm_loop.simps)
    apply (simp only: post_if post_simps Let_def)
    apply (auto intro!: keeps rest less(2) simp del: not_le)
    done
qed

lemma deallocuvm_keeps [keeps]:
  assumes "\<And>m' r. mach.more m' = mach.more m \<Longrightarrow> P (m', r)"
  shows "post (deallocuvm m pgdir oldsz newsz p) P"
  unfolding deallocuvm_def by (auto intro!: keeps assms)

lemma freevm_loop_keeps [keeps]:
  assumes "\<And>m'. mach.more m' = mach.more m \<Longrightarrow> P m'"
  shows "post (freevm_loop m pgdir is) P"
  using assms
proof (induction "is" arbitrary: m)
  case (Cons i "is")
  have "post (freevm_loop m' pgdir is) P" if "mach.more m' = mach.more m" for m'
    using that by (intro Cons) simp
  then show ?case by (auto intro!: keeps simp: Let_def)
qed simp

lemma freevm_keeps [keeps]:
  assumes "\<And>m'. mach.more m' = mach.more m \<Longrightarrow> P m'"
  shows "post (freevm m pgdir p) P"
  unfolding freevm_def by (auto intro!: keeps assms)

lemma setupkvm_loop_keeps [keeps]:
  assumes "\<And>m' d. mach.more m' = mach.more m \<Longrightarrow> P (m', d)"
  shows "post (setupkvm_loop m pgdir ks) P"
  using assms
proof (induction ks arbitrary: m)
  case (Cons k ks)
  have "post (setupkvm_loop m' pgdir ks) P" if "mach.more m' = mach.more m" for m'
    using that by (intro Cons) simp
  then show ?case using Cons(2) by (auto intro!: keeps)
qed simp

lemma setupkvm_keeps [keeps]:
  assumes "\<And>m' d. mach.more m' = mach.more m \<Longrightarrow> P (m', d)"
  shows "post (setupkvm m) P"
  unfolding setupkvm_def Let_def by (auto intro!: keeps assms)

lemma inituvm_keeps [keeps]:
  assumes "\<And>m'. mach.more m' = mach.more m \<Longrightarrow> P m'"
  shows "post (inituvm m pgdir init sz) P"
  unfolding inituvm_def by (auto intro!: keeps assms)

lemma allocuvm_loop_keeps [keeps]:
  assumes "\<And>m' r. mach.more m' = mach.more m \<Longrightarrow> P (m', r)"
  shows "post (allocuvm_loop m pgdir oldsz newsz p a n) P"
  using assms
proof (induction n arbitrary: m a)
  case (Suc n)
  have "post (allocuvm_loop m' pgdir oldsz newsz p a' n) P" if "mach.more m' = mach.more m" for m' a'
    using that by (intro Suc) simp
  then show ?case using Suc(2) by (auto intro!: keeps)
qed simp

lemma allocuvm_keeps [keeps]:
  assumes "\<And>m' r. mach.more m' = mach.more m \<Longrightarrow> P (m', r)"
  shows "post (allocuvm m pgdir oldsz newsz p) P"
  unfolding allocuvm_def by (auto intro!: keeps assms)

lemma change_pte_keeps [keeps]:
  assumes "\<And>m'. mach.more m' = mach.more m \<Longrightarrow> P m'"
  shows "post (change_pte msg f m pgdir uva) P"
  unfolding change_pte_def by (auto intro!: keeps assms)

section \<open>Copies of address spaces\<close>

lemma share_page_keeps [keeps]:
  assumes "\<And>m' b. mach.more m' = mach.more m \<Longrightarrow> P (m', b)"
  shows "post (share_page m d i pte) P"
  unfolding share_page_def by (auto intro!: keeps assms)

lemma cow_page_keeps [keeps]:
  assumes "\<And>m' b. mach.more m' = mach.more m \<Longrightarrow> P (m', b)"
  shows "post (cow_page m pgdir d i p) P"
  unfolding cow_page_def cow_shm_def cow_stack_def cow_rest_def clearpteu_def clearptep_def
  by (auto intro!: keeps assms)

lemma cowuvm_loop_keeps [keeps]:
  assumes "\<And>m' r. mach.more m' = mach.more m \<Longrightarrow> P (m', r)"
  shows "post (cowuvm_loop m pgdir d i p n) P"
  using assms
proof (induction n arbitrary: m i)
  case (Suc n)
  have "post (cowuvm_loop m' pgdir d i' p n) P" if "mach.more m' = mach.more m" for m' i'
    using that by (intro Suc) simp
  then show ?case using Suc(2) by (auto intro!: keeps)
qed simp

lemma cowuvm_keeps [keeps]:
  assumes "\<And>m' r. mach.more m' = mach.more m \<Longrightarrow> P (m', r)"
  shows "post (cowuvm m pgdir sz p) P"
  unfolding cowuvm_def by (auto intro!: keeps assms)

section \<open>Functions on the globals of virtual memory\<close>

lemma more_vmach: "mach.more m' = mach.more m \<Longrightarrow> vmach.more m' = vmach.more m"
  by (cases m; cases m') simp

lemma switchuvm_keeps [keeps]:
  assumes "\<And>m'. vmach.more m' = vmach.more m \<Longrightarrow> P m'"
  shows "post (switchuvm m p) P"
  unfolding switchuvm_def by (auto intro!: assms postI simp: bnd_eq_Inr split: option.splits)

lemma allocvdso_keeps [keeps]:
  assumes "\<And>m' r. vmach.more m' = vmach.more m \<Longrightarrow> P (m', r)"
  shows "post (allocvdso m pgdir p) P"
  unfolding allocvdso_def vdso_code_def vdso_pid_def vdso_ticks_def
  by (auto intro!: keeps assms dest!: more_vmach)

end
