(* ===== verification/Proc_Inv.thy ===== *)
theory Proc_Inv
  imports Proc
begin

text \<open>
  What holds of the process table in every interleaving: parents are alive and orphans belong
  to the first process, process identifiers are unique, and a parent that sleeps in \<open>wait\<close> has no
  child that it could collect. The table is seen through its columns.
\<close>

section \<open>Columns\<close>

definition states :: "ptab \<Rightarrow> nat \<Rightarrow> procstate" where
  "states t i = p_state (pt_proc t i)"

definition parents :: "ptab \<Rightarrow> nat \<Rightarrow> nat option" where
  "parents t i = p_parent (pt_proc t i)"

definition chans :: "ptab \<Rightarrow> nat \<Rightarrow> wchan option" where
  "chans t i = p_chan (pt_proc t i)"

definition pids :: "ptab \<Rightarrow> nat \<Rightarrow> int" where
  "pids t i = p_pid (pt_proc t i)"

definition alive :: "procstate \<Rightarrow> bool" where
  "alive st \<longleftrightarrow> st \<in> {SLEEPING, RUNNABLE, RUNNING}"

lemma alive_simps [simp]:
  "alive SLEEPING" "alive RUNNABLE" "alive RUNNING" "\<not> alive UNUSED" "\<not> alive EMBRYO" "\<not> alive ZOMBIE"
  by (simp_all add: alive_def)

text \<open>The invariant over the columns; \<open>k\<close> is the first process, \<open>mk\<close> the slots being made.\<close>

definition col_inv ::
  "(nat \<Rightarrow> procstate) \<Rightarrow> (nat \<Rightarrow> nat option) \<Rightarrow> (nat \<Rightarrow> wchan option) \<Rightarrow> (nat \<Rightarrow> nat option) \<Rightarrow> nat \<Rightarrow> bool" where
  "col_inv st par ch mk k \<longleftrightarrow> k < NPROC \<and> alive (st k) \<and> par k = None \<and>
     (\<forall>i < NPROC. st i = UNUSED \<or> st i = EMBRYO \<longrightarrow> par i = None) \<and>
     (\<forall>i < NPROC. (alive (st i) \<or> st i = ZOMBIE) \<and> i \<noteq> k \<longrightarrow> (\<exists>j < NPROC. par i = Some j \<and> alive (st j))) \<and>
     (\<forall>i < NPROC. \<forall>j. st i = SLEEPING \<and> ch i = Some (ChProc j) \<longrightarrow>
        j = i \<and> (\<forall>c < NPROC. par c = Some i \<longrightarrow> st c \<noteq> ZOMBIE)) \<and>
     (\<forall>c j. mk c = Some j \<longrightarrow> c < NPROC \<and> alive (st c) \<and> j < NPROC \<and> st j = EMBRYO) \<and>
     (\<forall>c d j. mk c = Some j \<and> mk d = Some j \<longrightarrow> c = d) \<and> (\<forall>i < NPROC. par i \<noteq> Some i)"

definition pid_inv :: "(nat \<Rightarrow> procstate) \<Rightarrow> (nat \<Rightarrow> int) \<Rightarrow> int \<Rightarrow> bool" where
  "pid_inv st pid n \<longleftrightarrow> 0 < n \<and> (\<forall>i < NPROC. st i \<noteq> UNUSED \<longrightarrow> 0 < pid i \<and> pid i < n) \<and>
     (\<forall>i < NPROC. \<forall>j < NPROC. st i \<noteq> UNUSED \<and> st j \<noteq> UNUSED \<and> pid i = pid j \<longrightarrow> i = j)"

definition pt_inv :: "psys \<Rightarrow> bool" where
  "pt_inv s \<longleftrightarrow> (\<exists>k. initproc (tab s) = Some k \<and>
     col_inv (states (tab s)) (parents (tab s)) (chans (tab s)) (making s) k) \<and>
     pid_inv (states (tab s)) (pids (tab s)) (nextpid (tab s))"

section \<open>The operations on the columns\<close>

lemma upd_proc_simps [simp]:
  "pt_proc (upd_proc i f t) = (pt_proc t)(i := f (pt_proc t i))" "initproc (upd_proc i f t) = initproc t"
  "nextpid (upd_proc i f t) = nextpid t"
  by (simp_all add: upd_proc_def)

lemma columns:
  "p_state (pt_proc t i) = states t i" "p_parent (pt_proc t i) = parents t i" "p_chan (pt_proc t i) = chans t i"
  "p_pid (pt_proc t i) = pids t i"
  by (simp_all add: states_def parents_def chans_def pids_def)

lemmas column_defs = states_def parents_def chans_def pids_def

definition asleep :: "ptab \<Rightarrow> wchan option \<Rightarrow> nat \<Rightarrow> bool" where
  "asleep t ch i \<longleftrightarrow> i < NPROC \<and> states t i = SLEEPING \<and> chans t i = ch"

lemma wakeup1_cols [simp]:
  "states (wakeup1 ch t) = (\<lambda>i. if asleep t ch i then RUNNABLE else states t i)"
  "parents (wakeup1 ch t) = parents t" "chans (wakeup1 ch t) = chans t" "pids (wakeup1 ch t) = pids t"
  "initproc (wakeup1 ch t) = initproc t" "nextpid (wakeup1 ch t) = nextpid t"
  by (auto simp: wakeup1_def fun_eq_iff column_defs asleep_def sleeps_on_def)

lemma alloc_slot_cols:
  assumes "alloc_slot t = Some (t', j)"
  shows "j < NPROC" "states t j = UNUSED" "states t' = (states t)(j := EMBRYO)" "parents t' = parents t"
    "chans t' = chans t" "pids t' = (pids t)(j := nextpid t)" "nextpid t' = nextpid t + 1" "initproc t' = initproc t"
  using assms find_upt [of "\<lambda>i. p_state (pt_proc t i) = UNUSED" NPROC j]
  by (auto simp: alloc_slot_def column_defs fun_eq_iff split: option.splits)

lemma kill_cols:
  assumes "kill t pid = (t', r)"
  shows "parents t' = parents t" "chans t' = chans t" "pids t' = pids t" "initproc t' = initproc t" "nextpid t' = nextpid t"
    "states t' = states t \<or> (\<exists>i < NPROC. states t i = SLEEPING \<and> states t' = (states t)(i := RUNNABLE))"
proof -
  have "parents t' = parents t \<and> chans t' = chans t \<and> pids t' = pids t \<and> initproc t' = initproc t \<and> nextpid t' = nextpid t \<and>
    (states t' = states t \<or> (\<exists>i < NPROC. states t i = SLEEPING \<and> states t' = (states t)(i := RUNNABLE)))"
  proof (cases "find (\<lambda>i. p_pid (pt_proc t i) = pid) [0..<NPROC]")
    case (Some i)
    then have "i < NPROC" using find_upt by blast
    have t': "t' = upd_proc i (\<lambda>p. if p_state p = SLEEPING then p\<lparr>p_killed := True, p_state := RUNNABLE\<rparr> else p\<lparr>p_killed := True\<rparr>) t"
      using Some assms by (simp add: kill_def)
    have "states t' = (if states t i = SLEEPING then (states t)(i := RUNNABLE) else states t)"
      by (auto simp: t' column_defs fun_eq_iff)
    then have "states t' = states t \<or> (\<exists>i < NPROC. states t i = SLEEPING \<and> states t' = (states t)(i := RUNNABLE))"
      using \<open>i < NPROC\<close> by (auto split: if_splits)
    then show ?thesis by (auto simp: t' column_defs fun_eq_iff)
  qed (use assms in \<open>simp add: kill_def\<close>)
  then show "parents t' = parents t" "chans t' = chans t" "pids t' = pids t" "initproc t' = initproc t" "nextpid t' = nextpid t"
    "states t' = states t \<or> (\<exists>i < NPROC. states t i = SLEEPING \<and> states t' = (states t)(i := RUNNABLE))" by blast+
qed

lemma wait_scan_Some:
  "wait_scan t cur is hk = (k, Some i) \<Longrightarrow> i \<in> set is \<and> parents t i = Some cur \<and> states t i = ZOMBIE"
  by (induction "is" arbitrary: hk) (auto simp: columns split: if_splits)

lemma wait_scan_None:
  "wait_scan t cur is hk = (k, None) \<Longrightarrow> i \<in> set is \<Longrightarrow> parents t i = Some cur \<Longrightarrow> states t i \<noteq> ZOMBIE"
  by (induction "is" arbitrary: hk) (auto simp: columns split: if_splits)

text \<open>\<open>exit\<close>: the children go to the first process, which is woken if one of them is a zombie.\<close>

lemma parent_cols:
  "states (upd_proc i (\<lambda>p. p\<lparr>p_parent := q\<rparr>) t) = states t" "chans (upd_proc i (\<lambda>p. p\<lparr>p_parent := q\<rparr>) t) = chans t"
  "pids (upd_proc i (\<lambda>p. p\<lparr>p_parent := q\<rparr>) t) = pids t"
  "parents (upd_proc i (\<lambda>p. p\<lparr>p_parent := q\<rparr>) t) = (parents t)(i := q)"
  by (auto simp: fun_eq_iff column_defs)

lemma adopt_step:
  "parents (adopt cur t x) = (if parents t x = Some cur then (parents t)(x := initproc t) else parents t)"
  "chans (adopt cur t x) = chans t" "pids (adopt cur t x) = pids t"
  "initproc (adopt cur t x) = initproc t" "nextpid (adopt cur t x) = nextpid t"
  "states (adopt cur t x) = (\<lambda>i. if asleep t (map_option ChProc (initproc t)) i \<and> parents t x = Some cur \<and>
     states t x = ZOMBIE then RUNNABLE else states t i)"
  by (auto simp: adopt_def Let_def columns asleep_def parent_cols fun_eq_iff simp del: upd_proc_simps(1))

lemma adopt_cols:
  assumes "distinct xs"
  shows "parents (foldl (adopt cur) t xs) = (\<lambda>i. if i \<in> set xs \<and> parents t i = Some cur then initproc t else parents t i) \<and>
    chans (foldl (adopt cur) t xs) = chans t \<and> pids (foldl (adopt cur) t xs) = pids t \<and>
    initproc (foldl (adopt cur) t xs) = initproc t \<and> nextpid (foldl (adopt cur) t xs) = nextpid t \<and>
    states (foldl (adopt cur) t xs) = (\<lambda>i. if asleep t (map_option ChProc (initproc t)) i \<and>
       (\<exists>j \<in> set xs. parents t j = Some cur \<and> states t j = ZOMBIE) then RUNNABLE else states t i)"
  using assms
proof (induction xs rule: rev_induct)
  case (snoc x xs)
  define u where "u = foldl (adopt cur) t xs"
  have u: "parents u = (\<lambda>i. if i \<in> set xs \<and> parents t i = Some cur then initproc t else parents t i)"
    "chans u = chans t" "pids u = pids t" "initproc u = initproc t" "nextpid u = nextpid t"
    "states u = (\<lambda>i. if asleep t (map_option ChProc (initproc t)) i \<and>
       (\<exists>j \<in> set xs. parents t j = Some cur \<and> states t j = ZOMBIE) then RUNNABLE else states t i)"
    using snoc by (simp_all add: u_def)
  have f: "foldl (adopt cur) t (xs @ [x]) = adopt cur u x" by (simp add: u_def)
  have x: "x \<notin> set xs" using snoc by simp
  show ?case unfolding f adopt_step u using x by (auto simp: fun_eq_iff asleep_def u)
qed simp

lemma exit_cols:
  assumes "initproc t = Some k" and "k \<noteq> cur"
  shows "parents (exit_table cur t) = (\<lambda>i. if i < NPROC \<and> parents t i = Some cur then Some k else parents t i)"
    "chans (exit_table cur t) = chans t" "pids (exit_table cur t) = pids t"
    "initproc (exit_table cur t) = initproc t" "nextpid (exit_table cur t) = nextpid t"
    "states (exit_table cur t) = (\<lambda>i. if i = cur then ZOMBIE
       else if asleep t (map_option ChProc (parents t cur)) i \<or>
         asleep t (Some (ChProc k)) i \<and> (\<exists>j < NPROC. parents t j = Some cur \<and> states t j = ZOMBIE) then RUNNABLE
       else states t i)"
proof -
  define u where "u = wakeup1 (map_option ChProc (parents t cur)) t"
  define v where "v = foldl (adopt cur) u [0..<NPROC]"
  have e: "exit_table cur t = set_state ZOMBIE cur v"
    by (simp add: exit_table_def u_def v_def columns Let_def)
  have v: "parents v = (\<lambda>i. if i < NPROC \<and> parents t i = Some cur then Some k else parents t i)"
    "chans v = chans t" "pids v = pids t" "initproc v = initproc t" "nextpid v = nextpid t"
    "states v = (\<lambda>i. if asleep u (Some (ChProc k)) i \<and> (\<exists>j < NPROC. parents t j = Some cur \<and> states u j = ZOMBIE)
       then RUNNABLE else states u i)"
    using adopt_cols [of "[0..<NPROC]" cur u] assms unfolding v_def
    by (auto simp: u_def fun_eq_iff)
  have w: "states (set_state ZOMBIE cur v) = (states v)(cur := ZOMBIE)" "parents (set_state ZOMBIE cur v) = parents v"
    "chans (set_state ZOMBIE cur v) = chans v" "pids (set_state ZOMBIE cur v) = pids v"
    by (auto simp: set_state_def column_defs fun_eq_iff)
  show "parents (exit_table cur t) = (\<lambda>i. if i < NPROC \<and> parents t i = Some cur then Some k else parents t i)"
    "chans (exit_table cur t) = chans t" "pids (exit_table cur t) = pids t"
    "initproc (exit_table cur t) = initproc t" "nextpid (exit_table cur t) = nextpid t"
    unfolding e w v by (simp_all add: set_state_def v)
  show "states (exit_table cur t) = (\<lambda>i. if i = cur then ZOMBIE
       else if asleep t (map_option ChProc (parents t cur)) i \<or>
         asleep t (Some (ChProc k)) i \<and> (\<exists>j < NPROC. parents t j = Some cur \<and> states t j = ZOMBIE) then RUNNABLE
       else states t i)"
  proof -
    define b where "b \<longleftrightarrow> (\<exists>j < NPROC. parents t j = Some cur \<and> states t j = ZOMBIE)"
    have "states u j = ZOMBIE \<longleftrightarrow> states t j = ZOMBIE" for j by (simp add: u_def asleep_def)
    then have "(\<exists>j < NPROC. parents t j = Some cur \<and> states u j = ZOMBIE) = b" by (simp only: b_def)
    with v(6) have "states v i = (if asleep t (map_option ChProc (parents t cur)) i \<or> asleep t (Some (ChProc k)) i \<and> b
        then RUNNABLE else states t i)" for i
      by (simp add: u_def asleep_def)
    then show ?thesis unfolding e w b_def [symmetric] by (intro ext) simp
  qed
qed

lemma set_state_cols [simp]:
  "states (set_state x i t) = (states t)(i := x)" "parents (set_state x i t) = parents t"
  "chans (set_state x i t) = chans t" "pids (set_state x i t) = pids t"
  "initproc (set_state x i t) = initproc t" "nextpid (set_state x i t) = nextpid t"
  by (auto simp: set_state_def column_defs fun_eq_iff)

lemma sleep_cols [simp]:
  "states (sleep_on i c t) = (states t)(i := SLEEPING)" "parents (sleep_on i c t) = parents t"
  "chans (sleep_on i c t) = (chans t)(i := Some c)" "pids (sleep_on i c t) = pids t"
  "initproc (sleep_on i c t) = initproc t" "nextpid (sleep_on i c t) = nextpid t"
  "states (sleep_tidy i t) = states t" "parents (sleep_tidy i t) = parents t"
  "chans (sleep_tidy i t) = (chans t)(i := None)" "pids (sleep_tidy i t) = pids t"
  "initproc (sleep_tidy i t) = initproc t" "nextpid (sleep_tidy i t) = nextpid t"
  by (auto simp: sleep_on_def sleep_tidy_def column_defs fun_eq_iff)

lemma entry_cols [simp]:
  "states (abandon j t) = (states t)(j := UNUSED)" "parents (abandon j t) = parents t"
  "chans (abandon j t) = chans t" "pids (abandon j t) = pids t"
  "initproc (abandon j t) = initproc t" "nextpid (abandon j t) = nextpid t"
  "states (reap j t) = (states t)(j := UNUSED)" "parents (reap j t) = (parents t)(j := None)"
  "chans (reap j t) = chans t" "pids (reap j t) = (pids t)(j := 0)"
  "initproc (reap j t) = initproc t" "nextpid (reap j t) = nextpid t"
  "states (fork_table c j t) = (states t)(j := RUNNABLE)" "parents (fork_table c j t) = (parents t)(j := Some c)"
  "chans (fork_table c j t) = chans t" "pids (fork_table c j t) = pids t"
  "initproc (fork_table c j t) = initproc t" "nextpid (fork_table c j t) = nextpid t"
  by (auto simp: abandon_def reap_def fork_table_def fork_entry_def set_state_def column_defs fun_eq_iff)

section \<open>The invariant\<close>

lemma col_invD:
  assumes "col_inv st par ch mk k"
  shows "k < NPROC" "alive (st k)" "par k = None" "i < NPROC \<Longrightarrow> st i = UNUSED \<or> st i = EMBRYO \<Longrightarrow> par i = None"
    "i < NPROC \<Longrightarrow> alive (st i) \<or> st i = ZOMBIE \<Longrightarrow> i \<noteq> k \<Longrightarrow> \<exists>j < NPROC. par i = Some j \<and> alive (st j)"
    "i < NPROC \<Longrightarrow> st i = SLEEPING \<Longrightarrow> ch i = Some (ChProc j) \<Longrightarrow> j = i"
    "i < NPROC \<Longrightarrow> st i = SLEEPING \<Longrightarrow> ch i = Some (ChProc j) \<Longrightarrow> c < NPROC \<Longrightarrow> par c = Some i \<Longrightarrow> st c \<noteq> ZOMBIE"
    "mk c = Some l \<Longrightarrow> c < NPROC \<and> alive (st c) \<and> l < NPROC \<and> st l = EMBRYO"
    "mk c = Some l \<Longrightarrow> mk c' = Some l \<Longrightarrow> c = c'" "i < NPROC \<Longrightarrow> par i \<noteq> Some i"
  using assms unfolding col_inv_def by blast+

lemma col_invI:
  assumes "k < NPROC" "alive (st k)" "par k = None"
    "\<And>i. i < NPROC \<Longrightarrow> st i = UNUSED \<or> st i = EMBRYO \<Longrightarrow> par i = None"
    "\<And>i. i < NPROC \<Longrightarrow> alive (st i) \<or> st i = ZOMBIE \<Longrightarrow> i \<noteq> k \<Longrightarrow> \<exists>j < NPROC. par i = Some j \<and> alive (st j)"
    "\<And>i j. i < NPROC \<Longrightarrow> st i = SLEEPING \<Longrightarrow> ch i = Some (ChProc j) \<Longrightarrow> j = i"
    "\<And>i j c. i < NPROC \<Longrightarrow> st i = SLEEPING \<Longrightarrow> ch i = Some (ChProc j) \<Longrightarrow> c < NPROC \<Longrightarrow> par c = Some i \<Longrightarrow> st c \<noteq> ZOMBIE"
    "\<And>c l. mk c = Some l \<Longrightarrow> c < NPROC" "\<And>c l. mk c = Some l \<Longrightarrow> alive (st c)"
    "\<And>c l. mk c = Some l \<Longrightarrow> l < NPROC" "\<And>c l. mk c = Some l \<Longrightarrow> st l = EMBRYO"
    "\<And>c l c'. mk c = Some l \<Longrightarrow> mk c' = Some l \<Longrightarrow> c = c'" "\<And>i. i < NPROC \<Longrightarrow> par i \<noteq> Some i"
  shows "col_inv st par ch mk k"
  unfolding col_inv_def
  by (intro conjI allI impI; (elim conjE)?) (rule assms; assumption)+

lemma col_inv_alive:
  assumes inv: "col_inv st par ch mk k" and st: "\<And>i. st' i = st i \<or> alive (st i) \<and> alive (st' i) \<and> st' i \<noteq> SLEEPING"
    and ch: "\<And>i. st' i = SLEEPING \<Longrightarrow> ch' i = ch i"
  shows "col_inv st' par ch' mk k"
proof -
  have s: "alive (st' i) = alive (st i)" "(st' i = ZOMBIE) = (st i = ZOMBIE)" "(st' i = UNUSED) = (st i = UNUSED)"
    "(st' i = EMBRYO) = (st i = EMBRYO)" "st' i = SLEEPING \<Longrightarrow> st i = SLEEPING" for i
    using st [of i] by auto
  note d = col_invD [OF inv]
  show ?thesis
  proof (rule col_invI, goal_cases)
    case (6 i j) then show ?case using d(6) [of i j] s(5) [of i] ch [of i] by simp
  next
    case (7 i j c) then show ?case using d(7) [of i j c] s(5) [of i] ch [of i] s(2) [of c] by simp
  next
    case (12 c l c') then show ?case using d(9) by blast
  qed (use d(1-5,8,10) s(1-4) in simp_all)
qed

lemma col_inv_sleep:
  assumes inv: "col_inv st par ch mk k" and c: "alive (st c)"
    and w: "\<And>j. w = ChProc j \<Longrightarrow> j = c \<and> (\<forall>i < NPROC. par i = Some c \<longrightarrow> st i \<noteq> ZOMBIE)"
  shows "col_inv (st(c := SLEEPING)) par (ch(c := Some w)) mk k"
proof -
  note d = col_invD [OF inv]
  show ?thesis
  proof (rule col_invI, goal_cases)
    case (4 i) then show ?case using d(4) [of i] by (cases "i = c") simp_all
  next
    case (5 i)
    then have "\<exists>j < NPROC. par i = Some j \<and> alive (st j)" using d(5) [of i] c by (cases "i = c") simp_all
    then show ?case by auto
  next
    case (6 i j) then show ?case using d(6) [of i j] w [of j] by (cases "i = c") simp_all
  next
    case (7 i j a)
    have "st a \<noteq> ZOMBIE" using 7 d(7) [of i j a] w [of j] by (cases "i = c") simp_all
    then show ?case by simp
  next
    case (9 x l) then show ?case using d(8) [of x l] by simp
  next
    case (11 x l) then show ?case using d(8) [of x l] c by (cases "l = c") simp_all
  next
    case (12 x l y) then show ?case using d(9) by blast
  qed (use d(1-3,8,10) in simp_all)
qed

text \<open>A slot that is neither alive nor a zombie changes state: the first step of \<open>fork\<close>, or its failure.\<close>

lemma col_inv_slot:
  assumes inv: "col_inv st par ch mk k" and j: "j < NPROC" "st j = UNUSED \<or> st j = EMBRYO" "x = UNUSED \<or> x = EMBRYO"
    and mk: "\<And>c l. mk' c = Some l \<Longrightarrow> c < NPROC \<and> alive (st c) \<and> l < NPROC \<and> (st(j := x)) l = EMBRYO"
      "\<And>c l c'. mk' c = Some l \<Longrightarrow> mk' c' = Some l \<Longrightarrow> c = c'"
  shows "col_inv (st(j := x)) par ch mk' k"
proof -
  note d = col_invD [OF inv]
  have a: "\<not> alive (st j)" "\<not> alive x" "st j \<noteq> ZOMBIE" "x \<noteq> ZOMBIE" "x \<noteq> SLEEPING" using j by auto
  have al: "alive ((st(j := x)) i) = alive (st i)" "((st(j := x)) i = ZOMBIE) = (st i = ZOMBIE)" for i
    using a by auto
  show ?thesis
  proof (rule col_invI, goal_cases)
    case (4 i) then show ?case using d(4) [of i] j by (cases "i = j") simp_all
  next
    case (5 i) then show ?case using d(5) [of i] unfolding al by simp
  next
    case (6 i l) then show ?case using d(6) [of i l] a by (cases "i = j") simp_all
  next
    case (7 i l c) then show ?case using d(7) [of i l c] a unfolding al by (cases "i = j") simp_all
  next
    case (9 c l) then show ?case using mk(1) [of c l] unfolding al by simp
  next
    case (12 c l c') then show ?case using mk(2) by blast
  qed (use d(1-3,10) mk(1) al in simp_all)
qed

lemma col_inv_child:
  assumes inv: "col_inv st par ch mk k" and m: "mk c = Some j"
  shows "col_inv (st(j := RUNNABLE)) (par(j := Some c)) ch (mk(c := None)) k"
proof -
  note d = col_invD [OF inv]
  have c: "c < NPROC" "alive (st c)" "j < NPROC" "st j = EMBRYO" using d(8) [OF m] by simp_all
  have jk: "j \<noteq> k" "j \<noteq> c" using d(2) c by auto
  have al: "alive (st i) \<Longrightarrow> alive ((st(j := RUNNABLE)) i)" for i by simp
  show ?thesis
  proof (rule col_invI, goal_cases)
    case (4 i) then show ?case using d(4) [of i] by (cases "i = j") simp_all
  next
    case (5 i)
    then have "\<exists>l < NPROC. (par(j := Some c)) i = Some l \<and> alive (st l)"
      using d(5) [of i] c by (cases "i = j") simp_all
    then show ?case using al by blast
  next
    case (6 i l) then show ?case using d(6) [of i l] by (cases "i = j") simp_all
  next
    case (7 i l a) then show ?case using d(7) [of i l a] by (cases "i = j"; cases "a = j") simp_all
  next
    case (9 x l) then show ?case using d(8) [of x l] by (simp split: if_splits)
  next
    case (11 x l)
    then have "x \<noteq> c" "mk x = Some l" by (simp_all split: if_splits)
    moreover from this have "l \<noteq> j" using d(9) [OF m, of x] by auto
    ultimately show ?case using d(8) [of x l] by simp
  next
    case (12 x l y) then show ?case using d(9) [of x l y] by (simp split: if_splits)
  qed (use d(1-3,8,10) jk in \<open>simp_all split: if_splits\<close>)
qed

lemma col_inv_reap:
  assumes inv: "col_inv st par ch mk k" and z: "i < NPROC" "st i = ZOMBIE"
  shows "col_inv (st(i := UNUSED)) (par(i := None)) ch mk k"
proof -
  note d = col_invD [OF inv]
  have ik: "i \<noteq> k" using d(2) z by auto
  have al: "alive (st a) \<Longrightarrow> alive ((st(i := UNUSED)) a)" for a using z by auto
  show ?thesis
  proof (rule col_invI, goal_cases)
    case (4 a) then show ?case using d(4) [of a] by (cases "a = i") simp_all
  next
    case (5 a)
    then have "\<exists>l < NPROC. (par(i := None)) a = Some l \<and> alive (st l)" using d(5) [of a] by (cases "a = i") simp_all
    then show ?case using al by blast
  next
    case (6 a l) then show ?case using d(6) [of a l] by (cases "a = i") simp_all
  next
    case (7 a l b) then show ?case using d(7) [of a l b] by (cases "a = i"; cases "b = i") simp_all
  next
    case (9 x l) then show ?case using d(8) [of x l] al by simp
  next
    case (11 x l) then show ?case using d(8) [of x l] z by auto
  next
    case (12 x l y) then show ?case using d(9) by blast
  qed (use d(1-3,8,10) ik in simp_all)
qed

text \<open>
  \<open>exit\<close>: the sleeping parent is woken, and so is the first process if it gets a zombie.
\<close>

lemma col_inv_exit:
  assumes inv: "col_inv st par ch mk k" and c: "c < NPROC" "alive (st c)" "c \<noteq> k" "mk c = None"
    and st: "\<And>i. st' i = (if i = c then ZOMBIE else if i < NPROC \<and> st i = SLEEPING \<and> (ch i = map_option ChProc (par c) \<or>
        ch i = Some (ChProc k) \<and> (\<exists>j < NPROC. par j = Some c \<and> st j = ZOMBIE)) then RUNNABLE else st i)"
    and par: "\<And>i. par' i = (if i < NPROC \<and> par i = Some c then Some k else par i)"
  shows "col_inv st' par' ch mk k"
proof -
  note d = col_invD [OF inv]
  have al: "alive (st' i) \<longleftrightarrow> alive (st i) \<and> i \<noteq> c" "st' i = ZOMBIE \<longleftrightarrow> st i = ZOMBIE \<or> i = c"
    "st' i = SLEEPING \<Longrightarrow> st i = SLEEPING \<and> i \<noteq> c" "st' i = UNUSED \<or> st' i = EMBRYO \<longleftrightarrow> st i = UNUSED \<or> st i = EMBRYO"
    "st' i = EMBRYO \<longleftrightarrow> st i = EMBRYO" for i
    using c by (auto simp: st split: if_splits)
  show ?thesis
  proof (rule col_invI, goal_cases)
    case (4 i) then show ?case using d(4) [of i] al(4) [of i] by (auto simp: par)
  next
    case (5 i)
    then have "\<exists>j < NPROC. par i = Some j \<and> alive (st j)" using d(5) [of i] c unfolding al by auto
    then obtain j where j: "j < NPROC" "par i = Some j" "alive (st j)" by blast
    show ?case
    proof (cases "j = c")
      case True then show ?thesis using j 5 d(1,2) c(3) by (simp add: par al)
    next
      case False then show ?thesis using j by (simp add: par al)
    qed
  next
    case (6 i j) then show ?case using d(6) [of i j] al(3) [of i] by simp
  next
    case (7 i j a)
    have s: "st i = SLEEPING" "i \<noteq> c" using al(3) [OF 7(2)] by auto
    have ji: "j = i" using d(6) [OF 7(1) s(1) 7(3)] .
    have nw: "ch i \<noteq> map_option ChProc (par c)" "ch i = Some (ChProc k) \<Longrightarrow> j < NPROC \<Longrightarrow> par j = Some c \<Longrightarrow> st j \<noteq> ZOMBIE" for j
      using 7(1,2) s by (auto simp: st split: if_splits)
    have "par a \<noteq> Some i" if "a = c" using that nw(1) 7(3) ji by auto
    moreover have "st a \<noteq> ZOMBIE" if "par a = Some i" using d(7) [OF 7(1) s(1) 7(3,4) that] .
    moreover have "st a \<noteq> ZOMBIE" if "par a = Some c" "i = k" using nw(2) [of a] 7(3,4) ji that by simp
    moreover have "a \<noteq> c" if "par a = Some c" "i = k"
      using that d(10) [OF c(1)] by auto
    ultimately show ?case using 7(4,5) unfolding al by (auto simp: par split: if_splits)
  next
    case (9 x l) then show ?case using d(8) [of x l] c(4) unfolding al by auto
  next
    case (12 x l y) then show ?case using d(9) by blast
  next
    case (13 i) then show ?case using d(3) d(10) [of i] by (auto simp: par)
  qed (use d(1-3,8) c al par in simp_all)
qed

lemma pid_inv_states:
  assumes "pid_inv st pid n" and "\<And>i. st' i \<noteq> UNUSED \<Longrightarrow> st i \<noteq> UNUSED \<and> pid' i = pid i"
  shows "pid_inv st' pid' n"
  using assms unfolding pid_inv_def by metis

lemma pid_inv_new:
  assumes "pid_inv st pid n" and "st j = UNUSED"
  shows "pid_inv (st(j := EMBRYO)) (pid(j := n)) (n + 1)"
  using assms unfolding pid_inv_def by (auto split: if_splits)

lemma pt_invI:
  "initproc (tab s) = Some k \<Longrightarrow> col_inv (states (tab s)) (parents (tab s)) (chans (tab s)) (making s) k \<Longrightarrow>
    pid_inv (states (tab s)) (pids (tab s)) (nextpid (tab s)) \<Longrightarrow> pt_inv s"
  by (auto simp: pt_inv_def)

lemma pt_invE:
  assumes "pt_inv s"
  obtains k where "initproc (tab s) = Some k"
    "col_inv (states (tab s)) (parents (tab s)) (chans (tab s)) (making s) k"
    "pid_inv (states (tab s)) (pids (tab s)) (nextpid (tab s))"
  using assms by (auto simp: pt_inv_def)

lemma runs_nowD: "runs_now s c \<Longrightarrow> c < NPROC" "runs_now s c \<Longrightarrow> states (tab s) c = RUNNING"
  by (auto simp: runs_now_def columns)

text \<open>A step that only changes the states of live processes, and the channels of those that do not sleep.\<close>

lemma pt_inv_alive:
  assumes "pt_inv s" and st: "\<And>i. states t i = states (tab s) i \<or> alive (states (tab s) i) \<and> alive (states t i) \<and> states t i \<noteq> SLEEPING"
    and ch: "\<And>i. states t i = SLEEPING \<Longrightarrow> chans t i = chans (tab s) i"
    and eq: "parents t = parents (tab s)" "pids t = pids (tab s)" "initproc t = initproc (tab s)" "nextpid t = nextpid (tab s)"
  shows "pt_inv (s\<lparr>tab := t\<rparr>)"
  using assms(1)
proof (rule pt_invE)
  fix k assume k: "initproc (tab s) = Some k"
    and inv: "col_inv (states (tab s)) (parents (tab s)) (chans (tab s)) (making s) k"
    and pid: "pid_inv (states (tab s)) (pids (tab s)) (nextpid (tab s))"
  have "col_inv (states t) (parents (tab s)) (chans t) (making s) k" by (rule col_inv_alive [OF inv st ch])
  moreover have "pid_inv (states t) (pids (tab s)) (nextpid (tab s))"
    using st by (intro pid_inv_states [OF pid]) (metis alive_simps(4))
  ultimately show ?thesis using k eq by (intro pt_invI [of _ k]) simp_all
qed

lemma pt_inv_sleep:
  assumes "pt_inv s" and "runs_now s c"
    and w: "\<And>j. w = ChProc j \<Longrightarrow> j = c \<and> (\<forall>i < NPROC. parents (tab s) i = Some c \<longrightarrow> states (tab s) i \<noteq> ZOMBIE)"
  shows "pt_inv (s\<lparr>tab := sleep_on c w (tab s)\<rparr>)"
  using assms(1)
proof (rule pt_invE)
  fix k assume k: "initproc (tab s) = Some k"
    and inv: "col_inv (states (tab s)) (parents (tab s)) (chans (tab s)) (making s) k"
    and pid: "pid_inv (states (tab s)) (pids (tab s)) (nextpid (tab s))"
  note r = runs_nowD [OF assms(2)]
  have "col_inv ((states (tab s))(c := SLEEPING)) (parents (tab s)) ((chans (tab s))(c := Some w)) (making s) k"
    using r by (intro col_inv_sleep [OF inv _ w]) simp
  moreover have "pid_inv ((states (tab s))(c := SLEEPING)) (pids (tab s)) (nextpid (tab s))"
    using r by (intro pid_inv_states [OF pid]) (auto split: if_splits)
  ultimately show ?thesis using k by (intro pt_invI [of _ k]) simp_all
qed

lemma pt_inv_fork:
  assumes "pt_inv s" and "runs_now s c"
  shows "making s c = None \<Longrightarrow> alloc_slot (tab s) = Some (t, j) \<Longrightarrow> pt_inv (s\<lparr>tab := t, making := (making s)(c := Some j)\<rparr>)"
    "making s c = Some j \<Longrightarrow> pt_inv (s\<lparr>tab := abandon j (tab s), making := (making s)(c := None)\<rparr>)"
    "making s c = Some j \<Longrightarrow> pt_inv (s\<lparr>tab := fork_table c j (tab s), making := (making s)(c := None)\<rparr>)"
proof -
  obtain k where k: "initproc (tab s) = Some k"
    and inv: "col_inv (states (tab s)) (parents (tab s)) (chans (tab s)) (making s) k"
    and pid: "pid_inv (states (tab s)) (pids (tab s)) (nextpid (tab s))" using assms(1) by (rule pt_invE)
  note d = col_invD [OF inv] and r = runs_nowD [OF assms(2)]
  show "pt_inv (s\<lparr>tab := t, making := (making s)(c := Some j)\<rparr>)"
    if m: "making s c = None" and al: "alloc_slot (tab s) = Some (t, j)"
  proof -
    note a = alloc_slot_cols [OF al]
    have "col_inv ((states (tab s))(j := EMBRYO)) (parents (tab s)) (chans (tab s)) ((making s)(c := Some j)) k"
      by (rule col_inv_slot [OF inv]) (use a(1,2) d(8,9) r in \<open>auto split: if_splits\<close>)
    then show ?thesis using k a pid_inv_new [OF pid a(2)] by (intro pt_invI [of _ k]) simp_all
  qed
  show "pt_inv (s\<lparr>tab := abandon j (tab s), making := (making s)(c := None)\<rparr>)" if m: "making s c = Some j"
  proof -
    have "col_inv ((states (tab s))(j := UNUSED)) (parents (tab s)) (chans (tab s)) ((making s)(c := None)) k"
      by (rule col_inv_slot [OF inv]) (use m d(8,9) in \<open>auto split: if_splits\<close>)
    moreover have "pid_inv ((states (tab s))(j := UNUSED)) (pids (tab s)) (nextpid (tab s))"
      by (rule pid_inv_states [OF pid]) (auto split: if_splits)
    ultimately show ?thesis using k by (intro pt_invI [of _ k]) simp_all
  qed
  show "pt_inv (s\<lparr>tab := fork_table c j (tab s), making := (making s)(c := None)\<rparr>)" if m: "making s c = Some j"
  proof -
    have "pid_inv ((states (tab s))(j := RUNNABLE)) (pids (tab s)) (nextpid (tab s))"
      using d(8) [OF m] by (intro pid_inv_states [OF pid]) (auto split: if_splits)
    then show ?thesis using k col_inv_child [OF inv m] by (intro pt_invI [of _ k]) simp_all
  qed
qed

lemma pt_inv_exit:
  assumes "pt_inv s" and "runs_now s c" and "making s c = None" and "\<not> cmpinit (tab s) c"
  shows "pt_inv (s\<lparr>tab := exit_table c (tab s)\<rparr>)"
proof -
  obtain k where k: "initproc (tab s) = Some k"
    and inv: "col_inv (states (tab s)) (parents (tab s)) (chans (tab s)) (making s) k"
    and pid: "pid_inv (states (tab s)) (pids (tab s)) (nextpid (tab s))" using assms(1) by (rule pt_invE)
  note r = runs_nowD [OF assms(2)]
  have ck: "k \<noteq> c" using assms(4) k by (auto simp: cmpinit_def)
  note e = exit_cols [OF k ck]
  have "col_inv (states (exit_table c (tab s))) (parents (exit_table c (tab s))) (chans (tab s)) (making s) k"
    by (rule col_inv_exit [OF inv, of c]) (use r ck assms(3) in \<open>auto simp: e asleep_def\<close>)
  moreover have "pid_inv (states (exit_table c (tab s))) (pids (tab s)) (nextpid (tab s))"
    by (rule pid_inv_states [OF pid]) (use r in \<open>auto simp: e asleep_def split: if_splits\<close>)
  ultimately show ?thesis using k e by (intro pt_invI [of _ k]) simp_all
qed

lemma pt_inv_reap:
  assumes "pt_inv s" and "wait_scan (tab s) c [0..<NPROC] False = (b, Some i)"
  shows "pt_inv (s\<lparr>tab := reap i (tab s)\<rparr>)"
proof -
  obtain k where k: "initproc (tab s) = Some k"
    and inv: "col_inv (states (tab s)) (parents (tab s)) (chans (tab s)) (making s) k"
    and pid: "pid_inv (states (tab s)) (pids (tab s)) (nextpid (tab s))" using assms(1) by (rule pt_invE)
  have z: "i < NPROC" "states (tab s) i = ZOMBIE" using wait_scan_Some [OF assms(2)] by auto
  have "pid_inv ((states (tab s))(i := UNUSED)) ((pids (tab s))(i := 0)) (nextpid (tab s))"
    by (rule pid_inv_states [OF pid]) (auto split: if_splits)
  then show ?thesis using k col_inv_reap [OF inv z] by (intro pt_invI [of _ k]) simp_all
qed

lemma pt_step_inv:
  assumes "pt_step s s'" and "pt_inv s"
  shows "pt_inv s'"
  using assms
proof cases
  case (st_wait c)
  then show ?thesis using wait_scan_None [OF st_wait(4)] by (auto intro!: pt_inv_sleep [OF assms(2)])
next
  case (st_kill p)
  obtain t r where "kill (tab s) p = (t, r)" by (cases "kill (tab s) p")
  note c = kill_cols [OF this] and st = st_kill(1) [unfolded this]
  have "states t i = states (tab s) i \<or> alive (states (tab s) i) \<and> alive (states t i) \<and> states t i \<noteq> SLEEPING" for i
    using c(6) by (auto simp: fun_upd_apply split: if_splits)
  then show ?thesis unfolding st using c by (auto intro!: pt_inv_alive [OF assms(2)])
next
  case (st_wakeup ch)
  show ?thesis unfolding st_wakeup(1) by (rule pt_inv_alive [OF assms(2)]) (auto simp: asleep_def)
next
  case (st_yield c)
  show ?thesis unfolding st_yield(1) using runs_nowD [OF st_yield(2)] by (intro pt_inv_alive [OF assms(2)]) auto
next
  case (st_run i)
  then show ?thesis unfolding st_run(1) by (intro pt_inv_alive [OF assms(2)]) (auto simp: columns split: if_splits)
next
  case (st_fork c t j)
  show ?thesis unfolding st_fork(1) by (rule pt_inv_fork(1) [OF assms(2) st_fork(2-4)])
next
  case (st_fork_fail c j)
  show ?thesis unfolding st_fork_fail(1) by (rule pt_inv_fork(2) [OF assms(2) st_fork_fail(2,3)])
next
  case (st_fork_done c j)
  show ?thesis unfolding st_fork_done(1) by (rule pt_inv_fork(3) [OF assms(2) st_fork_done(2,3)])
next
  case (st_exit c)
  show ?thesis unfolding st_exit(1) by (rule pt_inv_exit [OF assms(2) st_exit(2-4)])
next
  case (st_reap c b i)
  show ?thesis unfolding st_reap(1) by (rule pt_inv_reap [OF assms(2) st_reap(4)])
next
  case (st_sleep c ch)
  show ?thesis unfolding st_sleep(1) by (rule pt_inv_sleep [OF assms(2) st_sleep(2)]) (use st_sleep(3) in blast)
qed

lemma pt_start_inv:
  assumes "pt_start s"
  shows "pt_inv s"
proof -
  obtain k where k: "k < NPROC" "initproc (tab s) = Some k" "states (tab s) k = RUNNABLE" "0 < pids (tab s) k"
    "pids (tab s) k < nextpid (tab s)" "parents (tab s) k = None"
    and all: "\<forall>i < NPROC. i \<noteq> k \<longrightarrow> states (tab s) i = UNUSED \<and> parents (tab s) i = None"
    using assms unfolding pt_start_def columns by (elim conjE exE) (rule that)
  have mk: "making s = (\<lambda>i. None)" using assms by (simp add: pt_start_def)
  have st: "states (tab s) i = (if i = k then RUNNABLE else UNUSED)" "parents (tab s) i = None" if "i < NPROC" for i
    using all k that by (cases "i = k"; simp)+
  have "col_inv (states (tab s)) (parents (tab s)) (chans (tab s)) (making s) k"
    by (rule col_invI) (use k in \<open>simp_all add: st mk split: if_splits\<close>)
  moreover have "pid_inv (states (tab s)) (pids (tab s)) (nextpid (tab s))"
    unfolding pid_inv_def using k by (auto simp: st split: if_splits)
  ultimately show ?thesis using k(2) by (intro pt_invI [of _ k])
qed

lemma pt_reach_inv: "pt_reach s \<Longrightarrow> pt_inv s"
  by (induction rule: pt_reach.induct) (auto intro: pt_start_inv pt_step_inv)

section \<open>Properties\<close>


text \<open>
  C10. No exit is lost: a process that sleeps in \<open>wait\<close> has no zombie among its children, in
  every interleaving of exits, re-parenting, kills and other wake-ups.
\<close>

theorem wait_no_lost_exit:
  assumes "pt_reach s" and "i < NPROC" and "states (tab s) i = SLEEPING" and "chans (tab s) i = Some (ChProc i)"
    and "c < NPROC" and "parents (tab s) c = Some i"
  shows "states (tab s) c \<noteq> ZOMBIE"
proof -
  obtain k where "col_inv (states (tab s)) (parents (tab s)) (chans (tab s)) (making s) k"
    using pt_reach_inv [OF assms(1)] by (rule pt_invE)
  from col_invD(7) [OF this assms(2-6)] show ?thesis .
qed

text \<open>The table after \<open>userinit\<close>: slot 0 is the first process.\<close>

definition slot0 :: proc where
  "slot0 = \<lparr>p_sz = 0, p_pgdir = 0, p_kstack = 0, p_state = UNUSED, p_pid = 0, p_parent = None,
     p_tf = \<lparr>tf_edi = 0, tf_esi = 0, tf_ebp = 0, tf_oesp = 0, tf_ebx = 0, tf_edx = 0, tf_ecx = 0, tf_eax = 0,
       tf_gs = 0, tf_fs = 0, tf_es = 0, tf_ds = 0, tf_trapno = 0, tf_err = 0, tf_eip = 0, tf_cs = 0,
       tf_eflags = 0, tf_esp = 0, tf_ss = 0\<rparr>,
     p_context = 0, p_chan = None, p_killed = False, p_ofile = (\<lambda>i. None), p_cwd = None, p_name = replicate 16 0,
     stacklastpg = 0, stacktop = 0, guardpg = 0, shmbreak = 0, shmtop = 0, shmnextpg = 0\<rparr>"

definition tab0 :: ptab where
  "tab0 = \<lparr>pt_proc = (\<lambda>i. slot0)(0 := slot0\<lparr>p_state := RUNNABLE, p_pid := 1\<rparr>), initproc = Some 0, nextpid = 2\<rparr>"

lemma start0: "pt_reach \<lparr>tab = tab0, making = \<lambda>i. None\<rparr>"
  by (rule pt_reach_start) (simp add: pt_start_def tab0_def slot0_def NPROC_def)

text \<open>The first process runs.\<close>

definition tab1 :: ptab where
  "tab1 = tab0\<lparr>pt_proc := (pt_proc tab0)(0 := slot0\<lparr>p_state := RUNNING, p_pid := 1\<rparr>)\<rparr>"

text \<open>A child in the making, the table when \<open>fork\<close> is done, and when it has failed.\<close>

definition tab2 :: ptab where
  "tab2 = tab1\<lparr>pt_proc := (pt_proc tab1)(1 := slot0\<lparr>p_state := EMBRYO, p_pid := 2\<rparr>), nextpid := 3\<rparr>"

definition tab3 :: ptab where
  "tab3 = fork_table 0 1 tab2"


abbreviation quiet :: "ptab \<Rightarrow> psys" where
  "quiet t \<equiv> \<lparr>tab = t, making = \<lambda>i. None\<rparr>"

abbreviation forking :: "ptab \<Rightarrow> psys" where
  "forking t \<equiv> \<lparr>tab = t, making = (\<lambda>i. None)(0 := Some 1)\<rparr>"

lemmas tabs = tab0_def tab1_def tab2_def slot0_def upd_proc_def

lemma slots: "[0..<NPROC] = 0 # 1 # [2..<NPROC]"
  by (simp add: NPROC_def upt_rec)

lemma reach1: "pt_reach (quiet tab1)"
proof -
  have "pt_step (quiet tab0) (quiet tab0\<lparr>tab := sleep_tidy 0 (set_state RUNNING 0 (tab (quiet tab0)))\<rparr>)"
    by (rule st_run) (simp_all add: tab0_def NPROC_def)
  moreover have "sleep_tidy 0 (set_state RUNNING 0 tab0) = tab1"
    by (simp add: sleep_tidy_def set_state_def tabs)
  ultimately show ?thesis using pt_reach_step [OF start0] by simp
qed

lemma runs0: "runs_now (quiet tab1) 0" "runs_now (forking tab2) 0"
  by (simp_all add: runs_now_def tabs NPROC_def)

lemma reach2: "pt_reach (forking tab2)"
proof -
  have "alloc_slot (tab (quiet tab1)) = Some (tab2, 1)"
    by (simp add: alloc_slot_def slots tabs)
  from st_fork [OF runs0(1) _ this] have "pt_step (quiet tab1) (forking tab2)" by simp
  then show ?thesis by (rule pt_reach_step [OF reach1])
qed

lemma reach3: "pt_reach (quiet tab3)"
proof -
  from st_fork_done [OF runs0(2), of 1] have "pt_step (forking tab2) (quiet tab3)" by (simp add: tab3_def)
  then show ?thesis by (rule pt_reach_step [OF reach2])
qed

lemma child_entries:
  "pt_proc tab3 0 = slot0\<lparr>p_state := RUNNING, p_pid := 1\<rparr>"
  "p_state (pt_proc tab3 (Suc 0)) = RUNNABLE" "p_parent (pt_proc tab3 (Suc 0)) = Some 0"
  "1 < i \<Longrightarrow> pt_proc tab3 i = slot0" "initproc tab3 = Some 0"
  by (simp_all add: tab3_def fork_table_def fork_entry_def set_state_def tabs)


lemma wait_scan_childless: "(\<And>i. i \<in> set is \<Longrightarrow> p_parent (pt_proc t i) \<noteq> Some c) \<Longrightarrow> wait_scan t c is b = (b, None)"
  by (induction "is") auto

lemma reach4: "pt_reach (quiet (sleep_on 0 (ChProc 0) tab3))"
proof -
  let ?t = "tab3"
  have r: "runs_now (quiet ?t) 0" by (simp add: runs_now_def child_entries NPROC_def slot0_def)
  have "wait_scan ?t 0 [2..<NPROC] True = (True, None)"
    by (rule wait_scan_childless) (simp add: child_entries slot0_def)
  then have w: "wait_scan (tab (quiet ?t)) 0 [0..<NPROC] False = (True, None)"
    by (simp add: slots child_entries slot0_def)
  have "pt_step (quiet ?t) (quiet ?t\<lparr>tab := sleep_on 0 (ChProc 0) (tab (quiet ?t))\<rparr>)"
    by (rule st_wait [OF r _ w]) (simp_all add: child_entries slot0_def)
  then show ?thesis using pt_reach_step [OF reach3] by simp
qed

theorem wait_no_lost_exit_witness: "states (sleep_on 0 (ChProc 0) tab3) 1 \<noteq> ZOMBIE"
  using wait_no_lost_exit [OF reach4, of 0 1] child_entries
  by (simp add: NPROC_def) (simp_all add: column_defs child_entries)?


end
