(* ===== verification/Kernel_Ref.thy ===== *)
theory Kernel_Ref
  imports Kernel Vm_Keep Proc_Inv
begin

text \<open>
  The functions of the kernel refine the steps of the process table: \<open>erase\<close> keeps of an entry
  what concerns life and death, sleeping and waiting, and on the erased table \<open>fork\<close>, \<open>exit\<close>
  and \<open>wait\<close>, with all they do to memory and files, are sequences of the steps of \<open>Proc\<close>. The
  invariants proved there hold of the kernel.
\<close>

section \<open>Abstraction\<close>

definition no_tf :: trapframe where
  "no_tf = first_tf\<lparr>tf_eax := 0\<rparr>"

definition erase_proc :: "proc \<Rightarrow> proc" where
  "erase_proc p = p\<lparr>p_sz := 0, p_pgdir := 0, p_kstack := 0, p_tf := no_tf, p_context := 0, p_ofile := (\<lambda>i. None),
     p_cwd := None, p_name := replicate 16 0, stacklastpg := 0, stacktop := 0, guardpg := 0, shmbreak := 0,
     shmtop := 0, shmnextpg := 0\<rparr>"

definition erase :: "ptab \<Rightarrow> ptab" where
  "erase t = t\<lparr>pt_proc := (\<lambda>i. erase_proc (pt_proc t i))\<rparr>"

lemma erase_proc_sel [simp]:
  "p_state (erase_proc p) = p_state p" "p_pid (erase_proc p) = p_pid p" "p_parent (erase_proc p) = p_parent p"
  "p_chan (erase_proc p) = p_chan p" "p_killed (erase_proc p) = p_killed p"
  by (simp_all add: erase_proc_def)

lemma erase_sel [simp]:
  "pt_proc (erase t) i = erase_proc (pt_proc t i)" "initproc (erase t) = initproc t" "nextpid (erase t) = nextpid t"
  by (simp_all add: erase_def)

lemma name_copy_zero: "name_copy (replicate 16 0) (replicate 16 0) = replicate 16 0"
proof -
  let ?z = "replicate 16 0 :: uchar list"
  have at: "(if i < length ?z then ?z ! i else 0) = 0" for i by simp
  have "safestrcpy_loop (\<lambda>a. 0) 0 16 15 = (\<lambda>a. 0, 1)"
    by (simp add: eval_nat_numeral Let_def fun_eq_iff)
  then have "safestrcpy (\<lambda>a. 0) 0 16 16 = (\<lambda>a. 0)" by (simp add: safestrcpy_def fun_eq_iff)
  then have "name_copy ?z ?z = map (\<lambda>i. 0) [0..<16]"
    unfolding name_copy_def Let_def at by (simp only: if_cancel)
  then show ?thesis by (simp add: map_replicate_const)
qed

text \<open>A change of an entry that the abstraction cannot see, and one that it can.\<close>

lemma erase_upd_same:
  assumes "\<And>p. erase_proc (f p) = erase_proc p"
  shows "erase (upd_proc i f t) = erase t"
proof -
  have "erase_proc (if k = i then f (pt_proc t i) else pt_proc t k) = erase_proc (pt_proc t k)" for k using assms by simp
  then show ?thesis by (simp add: erase_def upd_proc_def fun_upd_def)
qed

lemma erase_upd:
  assumes "\<And>p. erase_proc (f p) = g (erase_proc p)"
  shows "erase (upd_proc i f t) = upd_proc i g (erase t)"
  using assms by (auto simp: erase_def upd_proc_def fun_eq_iff)

lemma erase_alloc_slot: "alloc_slot (erase t) = map_option (\<lambda>(t, j). (erase t, j)) (alloc_slot t)"
  by (auto simp: alloc_slot_def erase_def upd_proc_def erase_proc_def fun_eq_iff split: option.splits)

lemma erase_abandon: "erase (abandon j t) = abandon j (erase t)"
  unfolding abandon_def by (rule erase_upd) (simp add: erase_proc_def)

lemma erase_set_state: "erase (set_state st i t) = set_state st i (erase t)"
  unfolding set_state_def by (rule erase_upd) (simp add: erase_proc_def)

lemma erase_wakeup1: "erase (wakeup1 ch t) = wakeup1 ch (erase t)"
  by (auto simp: erase_def wakeup1_def sleeps_on_def erase_proc_def fun_eq_iff)

lemma erase_sleep_on: "erase (sleep_on i ch t) = sleep_on i ch (erase t)"
  unfolding sleep_on_def by (rule erase_upd) (simp add: erase_proc_def)

lemma erase_adopt: "erase (adopt cur t i) = adopt cur (erase t) i"
proof -
  have "erase (upd_proc i (\<lambda>p. p\<lparr>p_parent := q\<rparr>) t) = upd_proc i (\<lambda>p. p\<lparr>p_parent := q\<rparr>) (erase t)" for q
    by (rule erase_upd) (simp add: erase_proc_def)
  from this [symmetric] show ?thesis by (simp add: adopt_def Let_def erase_wakeup1 [symmetric])
qed

lemma erase_adopts: "erase (foldl (adopt cur) t is) = foldl (adopt cur) (erase t) is"
  by (induction "is" arbitrary: t) (simp_all add: erase_adopt)

lemma erase_exit_table: "erase (exit_table cur t) = exit_table cur (erase t)"
  by (simp add: exit_table_def Let_def erase_set_state erase_adopts erase_wakeup1)

lemma erase_reap: "erase (reap i t) = reap i (erase t)"
  unfolding reap_def by (rule erase_upd) (simp add: erase_proc_def eval_nat_numeral)

lemma erase_wait_scan: "wait_scan (erase t) cur is b = wait_scan t cur is b"
  by (induction "is" arbitrary: b) auto

lemma erase_fork_entry: "erase_proc (fork_entry c cur p) = fork_entry (erase_proc c) cur (erase_proc p)"
  by (simp add: fork_entry_def erase_proc_def name_copy_zero no_tf_def)

lemma erase_fork_table: "erase (fork_table cur j t) = fork_table cur j (erase t)"
proof -
  have "erase (upd_proc j (fork_entry (pt_proc t cur) cur) t) = upd_proc j (fork_entry (erase_proc (pt_proc t cur)) cur) (erase t)"
    by (rule erase_upd) (rule erase_fork_entry)
  then show ?thesis by (simp add: fork_table_def erase_set_state)
qed

section \<open>What the parts of a call do to the table\<close>

lemma more_k: "mach.more k' = mach.more k \<Longrightarrow> k_pt k' = k_pt k \<and> k_fs k' = k_fs k"
  by (cases k; cases k') simp

lemma vmore_k: "vmach.more k' = vmach.more k \<Longrightarrow> k_pt k' = k_pt k \<and> k_fs k' = k_fs k"
  by (cases k; cases k') simp

lemma upd_k_sel [simp]: "k_pt (upd_k i f k) = upd_proc i f (k_pt k)" "k_fs (upd_k i f k) = k_fs k"
  by (simp_all add: upd_k_def)

lemma new_stack_pt: "erase (k_pt (new_stack j ks k)) = erase (k_pt k)"
  unfolding new_stack_def Let_def by (simp add: erase_upd_same erase_proc_def)

lemma fs_back_pt: "erase (k_pt (fs_back k i s)) = erase (k_pt k)"
  unfolding fs_back_def by (simp add: erase_upd_same erase_proc_def)

lemma with_fs_pt:
  assumes "\<And>k' r. erase (k_pt k') = erase (k_pt k) \<Longrightarrow> P (k', r)"
  shows "post (with_fs i f k) P"
  unfolding with_fs_def by (rule postI) (auto simp: bnd_eq_Inr fs_back_pt intro!: assms)

section \<open>Refinement\<close>

text \<open>
  \<open>live k mk\<close>: the table of \<open>k\<close> is one that the steps reach, with \<open>mk\<close> the forks under way.
\<close>

definition live :: "kstate \<Rightarrow> (nat \<Rightarrow> nat option) \<Rightarrow> bool" where
  "live k mk \<longleftrightarrow> (\<exists>s. pt_reach s \<and> tab s = erase (k_pt k) \<and> making s = mk)"

definition running :: "kstate \<Rightarrow> nat \<Rightarrow> bool" where
  "running k cur \<longleftrightarrow> cur < NPROC \<and> p_state (prc k cur) = RUNNING"

lemma live_same: "live k mk \<Longrightarrow> erase (k_pt k') = erase (k_pt k) \<Longrightarrow> live k' mk"
  by (simp add: live_def)

lemma running_same: "running k cur \<Longrightarrow> erase (k_pt k') = erase (k_pt k) \<Longrightarrow> running k' cur"
  by (metis running_def erase_proc_sel(1) erase_sel(1))

lemma live_step:
  assumes "live k mk" and "\<And>s. tab s = erase (k_pt k) \<Longrightarrow> making s = mk \<Longrightarrow> \<exists>s'. pt_step s s' \<and> tab s' = erase (k_pt k') \<and> making s' = mk'"
  shows "live k' mk'"
  using assms pt_reach_step unfolding live_def by metis

lemma live_wakeup:
  assumes "live k mk"
  shows "live (wakeup k ch) mk"
  using assms
proof (rule live_step)
  fix s :: Proc.psys
  assume "tab s = erase (k_pt k)" "making s = mk"
  with st_wakeup [of s ch] show "\<exists>s'. pt_step s s' \<and> tab s' = erase (k_pt (wakeup k ch)) \<and> making s' = mk"
    by (intro exI [of _ "s\<lparr>tab := wakeup1 (Some ch) (tab s)\<rparr>"]) (simp add: wakeup_def erase_wakeup1)
qed

lemma running_wakeup: "running k cur \<Longrightarrow> running (wakeup k ch) cur"
  by (simp add: running_def wakeup_def wakeup1_def sleeps_on_def)

lemma effects_live:
  assumes "live k mk" "running k cur"
    and "\<And>k'. live k' mk \<Longrightarrow> running k' cur \<Longrightarrow> initproc (k_pt k') = initproc (k_pt k) \<Longrightarrow> P k'"
  shows "post (effects es k) P"
  using assms
proof (induction es arbitrary: k)
  case (Cons e es)
  have rest: "post (effects es k') P" if "live k' mk" "running k' cur" "initproc (k_pt k') = initproc (k_pt k)" for k'
    using that Cons(4) by (intro Cons(1)) auto
  show ?case
  proof (cases e)
    case (Wake ch)
    have "initproc (k_pt (wakeup k ch)) = initproc (k_pt k)" by (simp add: wakeup_def wakeup1_def)
    with Cons(2,3) show ?thesis by (auto intro!: rest live_wakeup running_wakeup simp: Wake)
  next
    case (Free a)
    have "post (effects es k') P" if "mach.more k' = mach.more k" for k'
    proof -
      have "k_pt k' = k_pt k" using more_k [OF that] by simp
      with Cons(2,3) show ?thesis by (auto intro!: rest intro: live_same running_same)
    qed
    then show ?thesis by (auto intro!: kfree_keeps simp: Free)
  qed
qed simp

section \<open>Fork\<close>

lemma alloc_slot_state:
  assumes "alloc_slot t = Some (t', j)"
  shows "j < NPROC" "p_state (pt_proc t j) = UNUSED" "i \<noteq> j \<Longrightarrow> pt_proc t' i = pt_proc t i"
  using assms by (auto simp: alloc_slot_def upd_proc_def split: option.splits dest: find_upt)

lemma live_fork_begin:
  assumes "live k mk" "running k cur" "mk cur = None" "alloc_slot (k_pt k) = Some (t, j)" "k_pt k' = t"
  shows "live k' (mk(cur := Some j))" "running k' cur"
proof -
  have "alloc_slot (erase (k_pt k)) = Some (erase t, j)" using assms(4) by (simp add: erase_alloc_slot)
  then show "live k' (mk(cur := Some j))"
    using assms by (intro live_step [OF assms(1)]) (auto intro!: exI conjI st_fork simp: runs_now_def running_def)
  have "cur \<noteq> j" using assms(2) alloc_slot_state(2) [OF assms(4)] by (auto simp: running_def)
  then show "running k' cur"
    using alloc_slot_state(3) [OF assms(4), of cur] assms(2,5) by (simp add: running_def)
qed

lemma live_fork_fail:
  assumes "live k (mk(cur := Some j))" "running k cur" "mk cur = None" "erase (k_pt k') = abandon j (erase (k_pt k))"
  shows "live k' mk"
proof (rule live_step [OF assms(1)])
  fix s :: Proc.psys
  assume s: "tab s = erase (k_pt k)" "making s = mk(cur := Some j)"
  have "runs_now s cur" using assms(2) s by (simp add: runs_now_def running_def)
  from st_fork_fail [OF this, of j] show "\<exists>s'. pt_step s s' \<and> tab s' = erase (k_pt k') \<and> making s' = mk"
    using s assms(3,4) by (auto intro!: exI)
qed

lemma live_fork_done:
  assumes "live k (mk(cur := Some j))" "running k cur" "mk cur = None" "erase (k_pt k') = fork_table cur j (erase (k_pt k))"
  shows "live k' mk"
proof (rule live_step [OF assms(1)])
  fix s :: Proc.psys
  assume s: "tab s = erase (k_pt k)" "making s = mk(cur := Some j)"
  have "runs_now s cur" using assms(2) s by (simp add: runs_now_def running_def)
  from st_fork_done [OF this, of j] show "\<exists>s'. pt_step s s' \<and> tab s' = erase (k_pt k') \<and> making s' = mk"
    using s assms(3,4) by (auto intro!: exI)
qed

lemma allocproc_live:
  assumes "live k mk" "running k cur" "mk cur = None"
    and "\<And>k'. live k' mk \<Longrightarrow> P (k', None)"
    and "\<And>k' j. live k' (mk(cur := Some j)) \<Longrightarrow> running k' cur \<Longrightarrow> P (k', Some j)"
  shows "post (allocproc k) P"
proof (cases "alloc_slot (k_pt k)")
  case None
  then show ?thesis using assms(1,4) by (simp add: allocproc_def)
next
  case (Some tj)
  then obtain t j where a: "alloc_slot (k_pt k) = Some (t, j)" by (cases tj) auto
  have "P (k1\<lparr>k_pt := abandon j (k_pt k1)\<rparr>, None)" "P (new_stack j v k1, Some j)"
    if "mach.more k1 = mach.more (k\<lparr>k_pt := t\<rparr>)" for k1 v
  proof -
    have "k_pt k1 = t" using more_k [OF that] by simp
    note l = live_fork_begin [OF assms(1-3) a this]
    show "P (k1\<lparr>k_pt := abandon j (k_pt k1)\<rparr>, None)"
      by (intro assms(4) live_fork_fail [OF l assms(3)]) (simp add: erase_abandon)
    show "P (new_stack j v k1, Some j)"
      using l by (intro assms(5)) (auto intro: live_same running_same simp: new_stack_pt)
  qed
  then show ?thesis by (auto intro!: kalloc_keeps simp: allocproc_def a)
qed

lemma fork_live:
  assumes "live k mk" "running k cur" "mk cur = None"
  shows "post (fork k cur) (\<lambda>(k', r). live k' mk)"
proof -
  have bad: "live (upd_k j (\<lambda>p. p\<lparr>p_pgdir := 0\<rparr>) k2\<lparr>k_pt := abandon j (upd_proc j (\<lambda>p. p\<lparr>p_pgdir := 0\<rparr>) (k_pt k2))\<rparr>) mk"
    if "live k1 (mk(cur := Some j))" "running k1 cur" "mach.more k2 = mach.more k1" for j k1 k2
    using more_k [OF that(3)]
    by (intro live_fork_fail [OF that(1,2) assms(3)]) (simp add: erase_abandon erase_upd_same erase_proc_def)
  have good: "live (upd_k j F (k4\<lparr>k_fs := s\<rparr>)\<lparr>k_pt := set_state RUNNABLE j (upd_proc j F (k_pt k4))\<rparr>) mk"
    if "live k1 (mk(cur := Some j))" "running k1 cur" and pt: "mach.more k2 = mach.more k1"
      "vmach.more k4 = vmach.more (upd_k j (fork_entry p cur) (upd_k j (\<lambda>p. p\<lparr>p_pgdir := d\<rparr>) k2))"
      and p: "erase_proc p = erase_proc (prc k2 cur)" and F: "\<And>p. erase_proc (F p) = erase_proc p" for j k1 k2 k4 p d F s
  proof (rule live_fork_done [OF that(1,2) assms(3)])
    let ?t = "upd_proc j (\<lambda>p. p\<lparr>p_pgdir := d\<rparr>) (k_pt k1)"
    have e: "erase ?t = erase (k_pt k1)" by (simp add: erase_upd_same erase_proc_def)
    have "erase (upd_proc j F (k_pt k4)) = erase (upd_proc j (fork_entry p cur) ?t)"
      using vmore_k [OF pt(2)] more_k [OF pt(1)] by (simp add: erase_upd_same F)
    also have "\<dots> = upd_proc j (fork_entry (erase_proc p) cur) (erase ?t)"
      by (rule erase_upd) (rule erase_fork_entry)
    finally show "erase (k_pt (upd_k j F (k4\<lparr>k_fs := s\<rparr>)\<lparr>k_pt := set_state RUNNABLE j (upd_proc j F (k_pt k4))\<rparr>)) =
        fork_table cur j (erase (k_pt k1))"
      using more_k [OF pt(1)] by (simp add: fork_table_def erase_set_state e p)
  qed
  show ?thesis
    unfolding fork_def Let_def
    apply (auto intro!: allocproc_live [OF assms] cowuvm_keeps allocvdso_keeps bad)
     apply (rule post_any, auto intro!: good simp: erase_proc_def)+
    done
qed

section \<open>Exit and wait\<close>

lemma close_files_live:
  assumes "live k mk" "running k cur"
    and "\<And>k'. live k' mk \<Longrightarrow> running k' cur \<Longrightarrow> initproc (k_pt k') = initproc (k_pt k) \<Longrightarrow> P k'"
  shows "post (close_files k cur fds) P"
  using assms
proof (induction fds arbitrary: k)
  case (Cons fd fds)
  have rest: "post (close_files k' cur fds) P"
    if "live k' mk" "running k' cur" "initproc (k_pt k') = initproc (k_pt k)" for k'
    using that Cons(4) by (intro Cons(1)) auto
  have shut: "post (effects e k1) (\<lambda>k2. post (close_files (upd_k cur (\<lambda>p. p\<lparr>p_ofile := (p_ofile p)(fd := None)\<rparr>) k2) cur fds) P)"
    if "erase (k_pt k1) = erase (k_pt k)" for e k1
  proof (rule effects_live)
    show "live k1 mk" "running k1 cur" using Cons(2,3) that by (auto intro: live_same running_same)
    fix k2 assume k2: "live k2 mk" "running k2 cur" "initproc (k_pt k2) = initproc (k_pt k1)"
    have i: "initproc (k_pt k1) = initproc (k_pt k)" by (metis that erase_sel(2))
    have "erase (upd_proc cur (\<lambda>p. p\<lparr>p_ofile := (p_ofile p)(fd := None)\<rparr>) (k_pt k2)) = erase (k_pt k2)"
      by (rule erase_upd_same) (simp add: erase_proc_def)
    then show "post (close_files (upd_k cur (\<lambda>p. p\<lparr>p_ofile := (p_ofile p)(fd := None)\<rparr>) k2) cur fds) P"
      using k2 i by (intro rest) (auto intro: live_same running_same simp: upd_proc_def)
  qed
  show ?case using Cons(2,3) by (auto intro!: with_fs_pt shut rest)
qed simp

lemma exit_live:
  assumes "live k mk" "running k cur" "mk cur = None"
  shows "post (exit k cur) (\<lambda>k'. live k' mk)"
proof -
  have "live (k2\<lparr>k_pt := exit_table cur (upd_proc cur (\<lambda>p. p\<lparr>p_cwd := None\<rparr>) (k_pt k2))\<rparr>) mk"
    if init: "\<not> cmpinit (k_pt k) cur" and k1: "live k1 mk" "running k1 cur" "initproc (k_pt k1) = initproc (k_pt k)"
      "erase (k_pt k2) = erase (k_pt k1)" for k1 k2
  proof (rule live_step [OF k1(1)])
    fix s :: Proc.psys
    assume s: "tab s = erase (k_pt k1)" "making s = mk"
    have "runs_now s cur" "\<not> cmpinit (tab s) cur" "making s cur = None"
      using k1 s init assms(3) by (simp_all add: runs_now_def running_def cmpinit_def)
    moreover have "erase (exit_table cur (upd_proc cur (\<lambda>p. p\<lparr>p_cwd := None\<rparr>) (k_pt k2))) = exit_table cur (tab s)"
      by (simp add: erase_exit_table erase_upd_same erase_proc_def s k1(4))
    ultimately show "\<exists>s'. pt_step s s' \<and>
        tab s' = erase (k_pt (k2\<lparr>k_pt := exit_table cur (upd_proc cur (\<lambda>p. p\<lparr>p_cwd := None\<rparr>) (k_pt k2))\<rparr>)) \<and> making s' = mk"
      using st_exit [of s cur] s by (auto intro!: exI)
  qed
  then show ?thesis unfolding exit_def by (auto intro!: close_files_live [OF assms(1,2)] with_fs_pt)
qed

lemma wait_live:
  assumes "live k mk" "running k cur" "mk cur = None"
  shows "post (wait k cur) (\<lambda>(k', r). live k' mk)"
proof -
  have reaped: "live (k3\<lparr>k_pt := reap i (k_pt k3)\<rparr>) mk"
    if sc: "wait_scan (k_pt k) cur [0..<NPROC] False = (h, Some i)" and m: "mach.more k1 = mach.more k"
      "mach.more k3 = mach.more (upd_k i (\<lambda>p. p\<lparr>p_kstack := 0\<rparr>) k1)" for h i k1 k3
  proof (rule live_step [OF assms(1)])
    fix s :: Proc.psys
    assume s: "tab s = erase (k_pt k)" "making s = mk"
    have "runs_now s cur" "making s cur = None" "wait_scan (tab s) cur [0..<NPROC] False = (h, Some i)"
      using assms s sc by (simp_all add: runs_now_def running_def erase_wait_scan)
    moreover have "erase (k_pt k3) = erase (k_pt k)"
      using more_k [OF m(1)] more_k [OF m(2)] by (simp add: erase_upd_same erase_proc_def)
    ultimately show "\<exists>s'. pt_step s s' \<and> tab s' = erase (k_pt (k3\<lparr>k_pt := reap i (k_pt k3)\<rparr>)) \<and> making s' = mk"
      using st_reap [of s cur h i] s by (auto intro!: exI simp: erase_reap)
  qed
  have asleep: "live (k\<lparr>k_pt := sleep_on cur (ChProc cur) (k_pt k)\<rparr>) mk"
    if sc: "wait_scan (k_pt k) cur [0..<NPROC] False = (True, None)" and "\<not> p_killed (prc k cur)"
  proof (rule live_step [OF assms(1)])
    fix s :: Proc.psys
    assume s: "tab s = erase (k_pt k)" "making s = mk"
    have "runs_now s cur" "making s cur = None" "wait_scan (tab s) cur [0..<NPROC] False = (True, None)"
      "\<not> p_killed (pt_proc (tab s) cur)"
      using assms s that by (simp_all add: runs_now_def running_def erase_wait_scan)
    then show "\<exists>s'. pt_step s s' \<and> tab s' = erase (k_pt (k\<lparr>k_pt := sleep_on cur (ChProc cur) (k_pt k)\<rparr>)) \<and> making s' = mk"
      using st_wait [of s cur] s by (auto intro!: exI simp: erase_sleep_on)
  qed
  show ?thesis
    unfolding wait_def sleep_def
    apply (auto split: option.splits simp: Let_def assms(1) asleep)
    apply (auto intro!: drop_page_keeps freevm_keeps reaped)
    done
qed

section \<open>The kernel's processes\<close>

text \<open>
  The states of the kernel between calls: from the state after \<open>userinit\<close> on, a running process
  calls \<open>fork\<close>, \<open>exit\<close> or \<open>wait\<close>, gives up the processor or sleeps; anyone wakes or kills; the
  scheduler runs the process it picks, which clears its channel as it comes back from \<open>sched\<close>;
  and whatever else the kernel does leaves these parts of the table alone.
\<close>

inductive kreach :: "kstate \<Rightarrow> bool" where
  k_boot: "pt_start \<lparr>tab = erase (k_pt k), making = \<lambda>i. None\<rparr> \<Longrightarrow> kreach k"
| k_fork: "kreach k \<Longrightarrow> running k cur \<Longrightarrow> fork k cur = ok (k', r) \<Longrightarrow> kreach k'"
| k_exit: "kreach k \<Longrightarrow> running k cur \<Longrightarrow> exit k cur = ok k' \<Longrightarrow> kreach k'"
| k_wait: "kreach k \<Longrightarrow> running k cur \<Longrightarrow> wait k cur = ok (k', res) \<Longrightarrow> kreach k'"
| k_yield: "kreach k \<Longrightarrow> running k cur \<Longrightarrow> kreach (yield k cur)"
| k_sleep: "kreach k \<Longrightarrow> running k cur \<Longrightarrow> (\<And>i. ch \<noteq> ChProc i) \<Longrightarrow> kreach (fst (sleep k cur ch))"
| k_wakeup: "kreach k \<Longrightarrow> kreach (wakeup k ch)"
| k_kill: "kreach k \<Longrightarrow> kreach (k\<lparr>k_pt := fst (kill (k_pt k) pid)\<rparr>)"
| k_run: "kreach k \<Longrightarrow> sched_pick k j = Some i \<Longrightarrow> sched_to k c i = ok k' \<Longrightarrow>
    kreach (k'\<lparr>k_pt := sleep_tidy i (k_pt k')\<rparr>)"
| k_other: "kreach k \<Longrightarrow> erase (k_pt k') = erase (k_pt k) \<Longrightarrow> kreach k'"

lemma erase_kill: "erase (fst (kill t pid)) = fst (kill (erase t) pid)"
proof -
  let ?f = "\<lambda>p. if p_state p = SLEEPING then p\<lparr>p_killed := True, p_state := RUNNABLE\<rparr> else p\<lparr>p_killed := True\<rparr>"
  have "erase (upd_proc i ?f t) = upd_proc i ?f (erase t)" for i by (rule erase_upd) (simp add: erase_proc_def)
  then show ?thesis by (simp add: kill_def split: option.split)
qed

lemma erase_sleep_tidy: "erase (sleep_tidy i t) = sleep_tidy i (erase t)"
  unfolding sleep_tidy_def by (rule erase_upd) (simp add: erase_proc_def)

lemma live_simple:
  assumes "live k mk" and "\<And>s. tab s = erase (k_pt k) \<Longrightarrow> making s = mk \<Longrightarrow> pt_step s (s\<lparr>tab := erase (k_pt k')\<rparr>)"
  shows "live k' mk"
  by (rule live_step [OF assms(1)]) (use assms(2) in \<open>auto intro!: exI\<close>)

lemma live_run:
  assumes "live k mk" "sched_pick k j = Some i" "sched_to k c i = ok k'"
  shows "live (k'\<lparr>k_pt := sleep_tidy i (k_pt k')\<rparr>) mk"
proof (rule live_simple [OF assms(1)])
  fix s :: Proc.psys
  assume s: "tab s = erase (k_pt k)"
  have i: "i < NPROC" "p_state (prc k i) = RUNNABLE" using assms(2) by (auto simp: sched_pick_def find_Some_iff)
  have "post (sched_to k c i) (\<lambda>k'. k_pt k' = set_state RUNNING i (k_pt k))"
    unfolding sched_to_def by (auto intro!: switchuvm_keeps dest!: vmore_k)
  from postD [OF this assms(3)] have "k_pt k' = set_state RUNNING i (k_pt k)" .
  then show "pt_step s (s\<lparr>tab := erase (k_pt (k'\<lparr>k_pt := sleep_tidy i (k_pt k')\<rparr>))\<rparr>)"
    using st_run [of i s] i s by (simp add: erase_sleep_tidy erase_set_state)
qed

lemma kreach_live: "kreach k \<Longrightarrow> live k (\<lambda>i. None)"
proof (induction rule: kreach.induct)
  case (k_boot k)
  then show ?case by (auto simp: live_def intro!: exI pt_reach_start)
next
  case (k_fork k cur k' r)
  then show ?case using postD [OF fork_live] by fastforce
next
  case (k_exit k cur k')
  then show ?case using postD [OF exit_live] by fastforce
next
  case (k_wait k cur k' res)
  then show ?case using postD [OF wait_live] by fastforce
next
  case (k_yield k cur)
  have "pt_step s (s\<lparr>tab := set_state RUNNABLE cur (erase (k_pt k))\<rparr>)" if "tab s = erase (k_pt k)" for s
    using st_yield [of s cur] k_yield(2) that by (simp add: runs_now_def running_def)
  then show ?case by (intro live_simple [OF k_yield(3)]) (simp add: yield_def erase_set_state)
next
  case (k_sleep k cur ch)
  have "pt_step s (s\<lparr>tab := sleep_on cur ch (erase (k_pt k))\<rparr>)" if "tab s = erase (k_pt k)" for s
    using st_sleep [of s cur ch] k_sleep(2,3) that by (simp add: runs_now_def running_def)
  then show ?case by (intro live_simple [OF k_sleep(4)]) (simp add: sleep_def erase_sleep_on)
next
  case (k_wakeup k ch)
  then show ?case by (intro live_wakeup)
next
  case (k_kill k pid)
  have "pt_step s (s\<lparr>tab := fst (kill (erase (k_pt k)) pid)\<rparr>)" if "tab s = erase (k_pt k)" for s
    using st_kill [of s pid] that by simp
  then show ?case by (intro live_simple [OF k_kill(2)]) (simp add: erase_kill)
next
  case (k_run k j i c k')
  from k_run(4,2,3) show ?case by (rule live_run)
next
  case (k_other k k')
  from k_other(3,2) show ?case by (rule live_same)
qed

text \<open>
  C6. The kernel refines the table of \<open>Proc\<close>: whatever \<open>fork\<close>, \<open>exit\<close>, \<open>wait\<close>, the scheduler and
  the rest of the kernel do, with kernel stacks, page tables and files that may run out half
  way, the entries seen through \<open>erase\<close> are always a state that the steps there reach, with no
  fork left unfinished.
\<close>

theorem kernel_refines_table:
  assumes "kreach k"
  shows "\<exists>s. pt_reach s \<and> tab s = erase (k_pt k) \<and> making s = (\<lambda>i. None)"
  using kreach_live [OF assms] by (simp add: live_def)

definition w_kernel :: kstate where
  "w_kernel =
     \<lparr>m_smp = \<lparr>cpus = [\<lparr>apicid = 0, started = True, ncli = 1, intena = False, cproc = None, ts_esp0 = 0, ts_ss0 = 0, ts_iomb = 0\<rparr>],
       hw = \<lparr>lapicid = 0, fl_if = False\<rparr>\<rparr>,
      m_kmem = undefined, m_mem = (\<lambda>a. 0), kend = 0x80115000, kdata = 0x80108000, kpgdir = 0x803FF000, vdso_text_page = 0,
      vdso_ticks_page = 0, vdso_impl_start = 0x8010A000, vdso_impl_size = 100, cr3 = 0x3FF000,
      k_pt = tab0\<lparr>pt_proc := (pt_proc tab0)(0 := slot0\<lparr>p_state := RUNNABLE, p_pid := 1, p_kstack := 0x8DFFF000, p_pgdir := 0x8DFFE000\<rparr>)\<rparr>,
      k_fs = undefined, k_ticks = 0, trapret = 0x80105000, forkret = 0x80103000, initcode_start = 0x8010A460, initcode_size = 44\<rparr>"

text \<open>The first process is picked and run, and its call of \<open>wait\<close> finds no children.\<close>

theorem kernel_refines_table_witness:
  "\<exists>k s. sched_pick w_kernel 0 = Some 0 \<and> running k 0 \<and> wait k 0 = ok (k, KRet (-1)) \<and> pt_reach s \<and> tab s = erase (k_pt k)"
proof -
  have b: "kreach w_kernel"
    by (rule k_boot) (simp add: pt_start_def w_kernel_def erase_def erase_proc_def tabs NPROC_def)
  have p: "sched_pick w_kernel 0 = Some 0" by (simp add: sched_pick_def slots w_kernel_def tabs)
  have "gives (sched_to w_kernel 0 0) (\<lambda>k1. k_pt k1 = set_state RUNNING 0 (k_pt w_kernel))"
    by (simp add: sched_to_def switchuvm_def w_kernel_def tabs pushcli_def popcli_def mycpu_def upd_cpu_def cli_def set_ts_def
      Let_def)
  then obtain k1 where k1: "sched_to w_kernel 0 0 = ok k1" "k_pt k1 = set_state RUNNING 0 (k_pt w_kernel)" by (rule givesE)
  let ?k = "k1\<lparr>k_pt := sleep_tidy 0 (k_pt k1)\<rparr>"
  have r: "kreach ?k" by (rule k_run [OF b p k1(1)])
  have run: "running ?k 0" by (simp add: running_def k1 sleep_tidy_def set_state_def upd_proc_def NPROC_def)
  have "p_parent (prc ?k i) \<noteq> Some 0" for i by (simp add: k1 sleep_tidy_def set_state_def w_kernel_def tabs)
  then have w: "wait ?k 0 = ok (?k, KRet (-1))" by (simp add: wait_def wait_scan_childless)
  from kernel_refines_table [OF k_wait [OF r run w]] p run w show ?thesis by blast
qed

end
