(* ===== verification/Syscall.thy ===== *)
theory Syscall
  imports Kernel Vm_Map
begin

text \<open>
  User memory as the kernel reads and writes it during a system call, and the functions of
  \<^verbatim>\<open>syscall.c\<close> that fetch the arguments. A user address is translated by the page table of the
  running process. An access to a page that is not present, or a write to one that is
  write-protected (the kernel runs with \<open>CR0_WP\<close> set), is a \<open>Fault\<close>: the page fault is taken
  in the kernel, outside the function that made the access.
\<close>

section \<open>User memory\<close>

definition uload :: "'a mach_scheme \<Rightarrow> u32 \<Rightarrow> u32 \<Rightarrow> uchar outcome" where
  "uload m pgdir va =
     (case xlate (m_mem m) pgdir va of
        None \<Rightarrow> Inl Fault
      | Some e \<Rightarrow> ok (m_mem m (P2V (PTE_ADDR e) + (va - PGROUNDDOWN va))))"

definition ustore :: "'a mach_scheme \<Rightarrow> u32 \<Rightarrow> u32 \<Rightarrow> uchar \<Rightarrow> 'a mach_scheme outcome" where
  "ustore m pgdir va c =
     (case xlate (m_mem m) pgdir va of
        None \<Rightarrow> Inl Fault
      | Some e \<Rightarrow>
          if e AND PTE_W = 0 then Inl Fault
          else ok (m\<lparr>m_mem := (m_mem m)(P2V (PTE_ADDR e) + (va - PGROUNDDOWN va) := c)\<rparr>))"

primrec ubytes :: "'a mach_scheme \<Rightarrow> u32 \<Rightarrow> u32 \<Rightarrow> nat \<Rightarrow> uchar list outcome" where
  "ubytes m pgdir va 0 = ok []"
| "ubytes m pgdir va (Suc n) = bnd (uload m pgdir va) (\<lambda>c. bnd (ubytes m pgdir (va + 1) n) (\<lambda>cs. ok (c # cs)))"

fun ustores :: "'a mach_scheme \<Rightarrow> u32 \<Rightarrow> u32 \<Rightarrow> uchar list \<Rightarrow> 'a mach_scheme outcome" where
  "ustores m pgdir va [] = ok m"
| "ustores m pgdir va (c # cs) = bnd (ustore m pgdir va c) (\<lambda>m. ustores m pgdir (va + 1) cs)"

definition uload32 :: "'a mach_scheme \<Rightarrow> u32 \<Rightarrow> u32 \<Rightarrow> u32 outcome" where
  "uload32 m pgdir va =
     bnd (ubytes m pgdir va 4) (\<lambda>bs. ok (foldr (\<lambda>b w. ucast b OR push_bit 8 w) bs 0))"

text \<open>The four bytes of a word, least significant first.\<close>

definition word_bytes :: "u32 \<Rightarrow> uchar list" where
  "word_bytes w = map (\<lambda>i. ucast (drop_bit (8 * i) w)) [0..<4]"

section \<open>Arguments\<close>

definition in_reserved :: "kstate \<Rightarrow> nat \<Rightarrow> u32 \<Rightarrow> bool" where
  "in_reserved k cur a \<longleftrightarrow> a \<ge> stacklastpg (prc k cur) \<and> a < guardpg (prc k cur) + PGSIZE"

definition fetchint :: "kstate \<Rightarrow> nat \<Rightarrow> u32 \<Rightarrow> u32 option outcome" where
  "fetchint k cur addr =
     (let p = prc k cur in
      if addr \<ge> p_sz p \<or> addr + 4 > p_sz p \<or> addr = 0 then ok None
      else if \<not> cmpinit (k_pt k) cur \<and> in_reserved k cur addr then ok None
      else if \<not> cmpinit (k_pt k) cur \<and> addr + 4 \<ge> shmbreak p \<and> addr < shmtop p then ok None
      else bnd (uload32 k (p_pgdir p) addr) (\<lambda>v. ok (Some v)))"

text \<open>The loop of \<open>fetchstr\<close>, from the address \<open>s\<close> on, \<open>n\<close> bytes after the start.\<close>

function fetchstr_loop :: "'a mach_scheme \<Rightarrow> u32 \<Rightarrow> u32 \<Rightarrow> u32 \<Rightarrow> nat \<Rightarrow> nat option outcome" where
  "fetchstr_loop m pgdir s ep n =
     (if s < ep then bnd (uload m pgdir s) (\<lambda>c. if c = 0 then ok (Some n) else fetchstr_loop m pgdir (s + 1) ep (n + 1))
      else ok None)"
  by pat_completeness auto
termination
proof (relation "measure (\<lambda>(m, pgdir, s, ep, n). unat ep - unat s)", goal_cases)
  case (2 m pgdir s ep n c)
  then have "unat s < unat ep" "unat (s + 1) = unat s + 1"
    using unat_add_one [of s] u32_bound [of ep] by (auto simp: word_less_nat_alt)
  then show ?case by simp
qed simp

declare fetchstr_loop.simps [simp del]

text \<open>The length of the string at \<open>addr\<close>.\<close>

definition fetchstr :: "kstate \<Rightarrow> nat \<Rightarrow> u32 \<Rightarrow> nat option outcome" where
  "fetchstr k cur addr =
     (let p = prc k cur in
      if addr \<ge> p_sz p \<or> addr = 0 then ok None
      else if \<not> cmpinit (k_pt k) cur \<and> in_reserved k cur addr then ok None
      else if \<not> cmpinit (k_pt k) cur \<and> addr \<ge> shmbreak p \<and> addr < shmtop p then ok None
      else fetchstr_loop k (p_pgdir p) addr (p_sz p) 0)"

definition argint :: "kstate \<Rightarrow> nat \<Rightarrow> u32 \<Rightarrow> u32 option outcome" where
  "argint k cur n = fetchint k cur (tf_esp (p_tf (prc k cur)) + 4 + 4 * n)"

definition argptr :: "kstate \<Rightarrow> nat \<Rightarrow> u32 \<Rightarrow> u32 \<Rightarrow> u32 option outcome" where
  "argptr k cur n sz =
     bnd (argint k cur n) (\<lambda>r.
     case r of None \<Rightarrow> ok None
     | Some i \<Rightarrow>
         let p = prc k cur in
         if sint sz < 0 \<or> i \<ge> p_sz p \<or> i + sz > p_sz p \<or> i = 0 then ok None
         else if \<not> cmpinit (k_pt k) cur \<and> in_reserved k cur i then ok None
         else if \<not> cmpinit (k_pt k) cur \<and> i + sz \<ge> shmbreak p \<and> i < shmtop p then ok None
         else ok (Some i))"

text \<open>A string argument, with the bytes the kernel reads when it uses it.\<close>

definition argstr :: "kstate \<Rightarrow> nat \<Rightarrow> u32 \<Rightarrow> uchar list option outcome" where
  "argstr k cur n =
     bnd (argint k cur n) (\<lambda>r.
     case r of None \<Rightarrow> ok None
     | Some addr \<Rightarrow>
         bnd (fetchstr k cur addr) (\<lambda>r.
         case r of None \<Rightarrow> ok None
         | Some len \<Rightarrow> bnd (ubytes k (p_pgdir (prc k cur)) addr len) (\<lambda>cs. ok (Some cs))))"

text \<open>A call goes on with an argument, or returns \<open>-1\<close> when it could not be fetched.\<close>

definition need :: "kstate \<Rightarrow> 'v option outcome \<Rightarrow> ('v \<Rightarrow> (kstate \<times> kret) outcome) \<Rightarrow> (kstate \<times> kret) outcome" where
  "need k m f = bnd m (\<lambda>r. case r of None \<Rightarrow> ok (k, KRet (-1)) | Some v \<Rightarrow> f v)"

end
