(* ===== verification/Syscall_Args.thy ===== *)
theory Syscall_Args
  imports Syscall Kernel_Ref Vm_Fault
begin

text \<open>What the checks of \<^verbatim>\<open>syscall.c\<close> guarantee of a pointer argument, and what they let through.\<close>

section \<open>Pointer arguments\<close>

lemma argptr_Some:
  assumes "argptr k cur n sz = ok (Some a)"
  shows "0 \<le> sint sz" "a < p_sz (prc k cur)" "a + sz \<le> p_sz (prc k cur)" "a \<noteq> 0"
    "cmpinit (k_pt k) cur \<or> \<not> in_reserved k cur a"
    "cmpinit (k_pt k) cur \<or> a + sz < shmbreak (prc k cur) \<or> shmtop (prc k cur) \<le> a"
proof -
  obtain i where i: "argint k cur n = ok (Some i)"
    using assms by (auto simp: argptr_def bnd_eq_Inr split: option.splits)
  then have "\<not> (sint sz < 0 \<or> i \<ge> p_sz (prc k cur) \<or> i + sz > p_sz (prc k cur) \<or> i = 0)"
    "\<not> (\<not> cmpinit (k_pt k) cur \<and> in_reserved k cur i)"
    "\<not> (\<not> cmpinit (k_pt k) cur \<and> i + sz \<ge> shmbreak (prc k cur) \<and> i < shmtop (prc k cur))" "i = a"
    using assms unfolding argptr_def Let_def by (simp_all split: if_splits)
  then show "0 \<le> sint sz" "a < p_sz (prc k cur)" "a + sz \<le> p_sz (prc k cur)" "a \<noteq> 0"
    "cmpinit (k_pt k) cur \<or> \<not> in_reserved k cur a"
    "cmpinit (k_pt k) cur \<or> a + sz < shmbreak (prc k cur) \<or> shmtop (prc k cur) \<le> a"
    by (auto simp: not_le not_less)
qed

lemma no_wrap:
  fixes a b :: u32
  assumes "0 \<le> sint b" "unat a < 2147483648"
  shows "unat (a + b) = unat a + unat b"
proof -
  have "\<not> bit (uint b) 31" using assms(1) bit_last_iff [of b] by (simp add: bit_uint_iff)
  then obtain q where q: "uint b div 2147483648 = 2 * q" by (auto simp: bit_iff_odd elim: evenE)
  have b: "uint b < 4294967296" "uint b = 2147483648 * (2 * q) + uint b mod 2147483648" "0 \<le> uint b mod 2147483648"
    "uint b mod 2147483648 < 2147483648"
    using uint_lt2p [of b] by (simp_all flip: q)
  have "q < 1" using b by linarith
  then have "uint b < 2147483648" using b by linarith
  then have "unat b < 2147483648" unfolding uint_nat by linarith
  then show ?thesis using assms(2) by (simp add: unat_word_ariths)
qed

text \<open>
  C17. A buffer that \<open>argptr\<close> accepts lies inside the process: for a process of at most 2 GB it
  starts at a non-null address and all its bytes are below the size of the process, without
  wrapping around; and for every process but the first it does not start in the reserved part of
  the stack, guard page included, and it has no byte in common with the unallocated part of the
  shared memory.
\<close>

theorem argptr_in_bounds:
  assumes "argptr k cur n sz = ok (Some a)" "p_sz (prc k cur) \<le> KERNBASE"
  shows "a \<noteq> 0 \<and> unat a + unat sz \<le> unat (p_sz (prc k cur)) \<and>
    (cmpinit (k_pt k) cur \<or> \<not> in_reserved k cur a \<and>
      (unat a + unat sz < unat (shmbreak (prc k cur)) \<or> shmtop (prc k cur) \<le> a))"
proof -
  note a = argptr_Some [OF assms(1)]
  have "unat a < 2147483648" using a(2) assms(2) by (simp add: word_less_nat_alt word_le_nat_alt)
  from no_wrap [OF a(1) this] a show ?thesis by (auto simp: word_le_nat_alt word_less_nat_alt)
qed

section \<open>A process and its arguments\<close>

text \<open>
  A process whose stack pointer is at the start of page 1, with three words above it: the
  pointers 0x2000 and 0x105FFC.
\<close>

definition w_args :: kstate where
  "w_args = w_kernel\<lparr>m_mem := store32 (store32 w_vmem 0x8012F004 0x2000) 0x8012F008 0x105FFC,
     k_pt := (k_pt w_kernel)\<lparr>initproc := Some 1, pt_proc := (\<lambda>i. w_proc\<lparr>p_sz := 0x1106000, p_tf := w_tf\<lparr>tf_esp := 0x1000\<rparr>,
       stacklastpg := 0x3000, guardpg := 0x104000, stacktop := 0x106000, shmbreak := 0x106000, shmtop := 0x1106000,
       shmnextpg := 0x106000\<rparr>)\<rparr>\<rparr>"

lemma w_args_sel:
  "prc w_args 0 = w_proc\<lparr>p_sz := 0x1106000, p_tf := w_tf\<lparr>tf_esp := 0x1000\<rparr>, stacklastpg := 0x3000, guardpg := 0x104000,
     stacktop := 0x106000, shmbreak := 0x106000, shmtop := 0x1106000, shmnextpg := 0x106000\<rparr>"
  "m_mem w_args = store32 (store32 w_vmem 0x8012F004 0x2000) 0x8012F008 0x105FFC" "initproc (k_pt w_args) = Some 1"
  by (simp_all add: w_args_def)

lemma w_args_xlate: "xlate (m_mem w_args) 0x8012D000 x = xlate w_vmem 0x8012D000 x"
proof (rule pt_cong(6))
  show "aligned 0x8012D000" by (simp add: aligned_def)
  fix y assume "PGROUNDDOWN y \<in> pt_pages w_vmem 0x8012D000"
  then have y: "PGROUNDDOWN y \<in> {0x8012D000, 0x8012E000}" using w_vm_pages by blast
  have "y \<noteq> z" if "PGROUNDDOWN z = 0x8012F000" for z using y that by auto
  then have "y \<noteq> 0x8012F004" "y \<noteq> 0x8012F005" "y \<noteq> 0x8012F006" "y \<noteq> 0x8012F007"
    "y \<noteq> 0x8012F008" "y \<noteq> 0x8012F009" "y \<noteq> 0x8012F00A" "y \<noteq> 0x8012F00B" by (simp_all add: PGROUNDDOWN_def)
  then show "m_mem w_args y = w_vmem y" by (simp add: w_args_sel store32_def)
qed

lemma w_args_load:
  assumes "PGROUNDDOWN x = 0x1000"
  shows "uload w_args 0x8012D000 x = ok (m_mem w_args (0x8012E000 + x))"
  by (simp add: uload_def w_args_xlate w_xlate assms PTE_ADDR_def P2V_def)

lemma ubytes_4:
  "ubytes m d va 4 = bnd (uload m d va) (\<lambda>a. bnd (uload m d (va + 1)) (\<lambda>b. bnd (uload m d (va + 2)) (\<lambda>c.
     bnd (uload m d (va + 3)) (\<lambda>e. ok [a, b, c, e]))))"
  by (simp add: eval_nat_numeral bnd_assoc add.assoc)

lemma w_args_int: "argint w_args 0 0 = ok (Some 0x2000)" "argint w_args 0 1 = ok (Some 0x105FFC)"
proof -
  have "uload32 w_args 0x8012D000 0x1004 = ok 0x2000" "uload32 w_args 0x8012D000 0x1008 = ok 0x105FFC"
    by (simp_all add: uload32_def ubytes_4 w_args_load PGROUNDDOWN_def w_args_sel store32_def)
  then show "argint w_args 0 0 = ok (Some 0x2000)" "argint w_args 0 1 = ok (Some 0x105FFC)"
    by (simp_all add: argint_def fetchint_def Let_def w_args_sel w_proc_def w_tf_def in_reserved_def cmpinit_def)
qed

theorem argptr_in_bounds_witness:
  "argptr w_args 0 0 0x800 = ok (Some 0x2000) \<and> unat (0x2000 :: u32) + unat (0x800 :: u32) \<le> unat (p_sz (prc w_args 0))"
proof -
  have a: "argptr w_args 0 0 0x800 = ok (Some 0x2000)"
    by (simp add: argptr_def w_args_int Let_def w_args_sel w_proc_def in_reserved_def cmpinit_def)
  show ?thesis using a argptr_in_bounds [OF a] by (simp add: w_args_sel)
qed


end
