(* ===== verification/Exec.thy ===== *)
theory Exec
  imports Syscall
begin

text \<open>
  Loading a program (\<^verbatim>\<open>exec.c\<close>, \<^verbatim>\<open>elf.h\<close>, \<open>loaduvm\<close> of \<^verbatim>\<open>vm.c\<close>). The argument strings are the byte
  lists that the kernel reads from the caller's memory; the file system is the caller's view.
\<close>

section \<open>Executable files\<close>

definition ELF_MAGIC :: u32 where
  "ELF_MAGIC = 0x464C457F"

definition MAXARG :: nat where
  "MAXARG = 32"

record elfhdr =
  e_magic :: u32
  e_elf :: "uchar list"
  e_type :: ushort
  e_machine :: ushort
  e_version :: u32
  e_entry :: u32
  e_phoff :: u32
  e_shoff :: u32
  e_flags :: u32
  e_ehsize :: ushort
  e_phentsize :: ushort
  e_phnum :: ushort
  e_shentsize :: ushort
  e_shnum :: ushort
  e_shstrndx :: ushort

record proghdr =
  ph_type :: u32
  ph_off :: u32
  ph_vaddr :: u32
  ph_paddr :: u32
  ph_filesz :: u32
  ph_memsz :: u32
  ph_flags :: u32
  ph_align :: u32

text \<open>Little-endian numbers at an offset of the bytes that were read.\<close>

definition le32 :: "uchar list \<Rightarrow> nat \<Rightarrow> u32" where
  "le32 bs i = foldr (\<lambda>b w. ucast b OR push_bit 8 w) (take 4 (drop i bs)) 0"

definition le16 :: "uchar list \<Rightarrow> nat \<Rightarrow> ushort" where
  "le16 bs i = foldr (\<lambda>b w. ucast b OR push_bit 8 w) (take 2 (drop i bs)) 0"

definition elf_of_bytes :: "uchar list \<Rightarrow> elfhdr" where
  "elf_of_bytes bs =
     \<lparr>e_magic = le32 bs 0, e_elf = take 12 (drop 4 bs), e_type = le16 bs 16, e_machine = le16 bs 18, e_version = le32 bs 20,
      e_entry = le32 bs 24, e_phoff = le32 bs 28, e_shoff = le32 bs 32, e_flags = le32 bs 36, e_ehsize = le16 bs 40,
      e_phentsize = le16 bs 42, e_phnum = le16 bs 44, e_shentsize = le16 bs 46, e_shnum = le16 bs 48, e_shstrndx = le16 bs 50\<rparr>"

definition ph_of_bytes :: "uchar list \<Rightarrow> proghdr" where
  "ph_of_bytes bs =
     \<lparr>ph_type = le32 bs 0, ph_off = le32 bs 4, ph_vaddr = le32 bs 8, ph_paddr = le32 bs 12, ph_filesz = le32 bs 16,
      ph_memsz = le32 bs 20, ph_flags = le32 bs 24, ph_align = le32 bs 28\<rparr>"

section \<open>Segments\<close>

fun put_bytes :: "memory \<Rightarrow> u32 \<Rightarrow> uchar list \<Rightarrow> memory" where
  "put_bytes m a [] = m"
| "put_bytes m a (c # cs) = put_bytes (m(a := c)) (a + 1) cs"

text \<open>The loop of \<open>loaduvm\<close>; when \<open>i\<close> wraps around, \<open>i < sz\<close> holds for ever.\<close>

function loaduvm_loop :: "devtab \<Rightarrow> fsys \<Rightarrow> 'a mach_scheme \<Rightarrow> u32 \<Rightarrow> u32 \<Rightarrow> nat \<Rightarrow> u32 \<Rightarrow> u32 \<Rightarrow> u32 \<Rightarrow>
    (fsys \<times> 'a mach_scheme \<times> bool) outcome" where
  "loaduvm_loop devsw s m pgdir addr ip offset sz i =
     (if i < sz then
        bnd (walkpgdir m pgdir (addr + i) False) (\<lambda>(m, pte).
        if pte = 0 then panic ''loaduvm: address should exist''
        else bnd (deref m pte) (\<lambda>e.
          let pa = PTE_ADDR e; n = (if sz - i < PGSIZE then sz - i else PGSIZE) in
          bnd (readi devsw s ip (offset + i) n) (\<lambda>(s, r, bs).
          let m = m\<lparr>m_mem := put_bytes (m_mem m) (P2V pa) bs\<rparr> in
          if word_of_int r \<noteq> n then ok (s, m, False)
          else if i + PGSIZE \<le> i then Inl Hang
          else loaduvm_loop devsw s m pgdir addr ip offset sz (i + PGSIZE))))
      else ok (s, m, True))"
  by pat_completeness auto
termination
  by (relation "measure (\<lambda>(devsw, s, m, pgdir, addr, ip, offset, sz, i). 4294967296 - unat i)")
    (simp_all add: word_less_nat_alt word_le_nat_alt less_imp_diff_less diff_less_mono2 u32_bound)

declare loaduvm_loop.simps [simp del]

definition loaduvm :: "devtab \<Rightarrow> fsys \<Rightarrow> 'a mach_scheme \<Rightarrow> u32 \<Rightarrow> u32 \<Rightarrow> nat \<Rightarrow> u32 \<Rightarrow> u32 \<Rightarrow>
    (fsys \<times> 'a mach_scheme \<times> bool) outcome" where
  "loaduvm devsw s m pgdir addr ip offset sz =
     (if addr mod PGSIZE \<noteq> 0 then panic ''loaduvm: addr must be page aligned''
      else loaduvm_loop devsw s m pgdir addr ip offset sz 0)"

text \<open>The loop over the program headers: the size of the image, or nothing for \<open>goto bad\<close>.\<close>

fun exec_segs :: "devtab \<Rightarrow> fsys \<Rightarrow> 'a mach_scheme \<Rightarrow> u32 \<Rightarrow> nat \<Rightarrow> u32 \<Rightarrow> u32 \<Rightarrow> nat \<Rightarrow>
    (fsys \<times> 'a mach_scheme \<times> u32 option) outcome" where
  "exec_segs devsw s m pgdir ip off sz 0 = ok (s, m, Some sz)"
| "exec_segs devsw s m pgdir ip off sz (Suc n) =
     bnd (readi devsw s ip off 32) (\<lambda>(s, r, bs).
     let ph = ph_of_bytes bs in
     if r \<noteq> 32 then ok (s, m, None)
     else if ph_type ph \<noteq> 1 then exec_segs devsw s m pgdir ip (off + 32) sz n
     else if ph_memsz ph < ph_filesz ph then ok (s, m, None)
     else if ph_vaddr ph + ph_memsz ph < ph_vaddr ph then ok (s, m, None)
     else bnd (allocuvm m pgdir sz (ph_vaddr ph + ph_memsz ph) None) (\<lambda>(m, sz).
       if sz = 0 then ok (s, m, None)
       else if ph_vaddr ph mod PGSIZE \<noteq> 0 then ok (s, m, None)
       else bnd (loaduvm devsw s m pgdir (ph_vaddr ph) ip (ph_off ph) (ph_filesz ph)) (\<lambda>(s, m, good).
         if \<not> good then ok (s, m, None) else exec_segs devsw s m pgdir ip (off + 32) sz n)))"

text \<open>
  From the header to the last segment: the new page directory, null before it exists, and the
  size and header of the image if all went well.
\<close>

definition exec_image :: "devtab \<Rightarrow> fsys \<Rightarrow> 'a vmach_scheme \<Rightarrow> nat \<Rightarrow>
    (fsys \<times> 'a vmach_scheme \<times> u32 \<times> (u32 \<times> elfhdr) option) outcome" where
  "exec_image devsw s m ip =
     bnd (readi devsw s ip 0 52) (\<lambda>(s, r, bs).
     let elf = elf_of_bytes bs in
     if r \<noteq> 52 then ok (s, m, 0, None)
     else if e_magic elf \<noteq> ELF_MAGIC then ok (s, m, 0, None)
     else bnd (setupkvm m) (\<lambda>(m, d).
       if d = 0 then ok (s, m, 0, None)
       else bnd (allocuvm m d 0 PGSIZE None) (\<lambda>(m, sz).
         if sz = 0 then ok (s, m, d, None)
         else bnd (clearptep m d 0) (\<lambda>m.
           bnd (exec_segs devsw s m d ip (e_phoff elf) sz (unat (e_phnum elf))) (\<lambda>(s, m, r).
             ok (s, m, d, map_option (\<lambda>sz. (sz, elf)) r))))))"

section \<open>The stack\<close>

text \<open>\<open>copyout\<close> with the bytes of the source.\<close>

function copyout_bytes :: "'a mach_scheme \<Rightarrow> u32 \<Rightarrow> u32 \<Rightarrow> uchar list \<Rightarrow> ('a mach_scheme \<times> bool) outcome" where
  "copyout_bytes m pgdir va bs =
     (if bs = [] then ok (m, True)
      else let va0 = PGROUNDDOWN va; n = min (4096 - unat (va - va0)) (length bs) in
        bnd (uva2ka m pgdir va0) (\<lambda>pa0.
        if pa0 = 0 then ok (m, False)
        else copyout_bytes (m\<lparr>m_mem := put_bytes (m_mem m) (pa0 + (va - va0)) (take n bs)\<rparr>) pgdir (va0 + PGSIZE) (drop n bs)))"
  by pat_completeness auto
termination
proof (relation "measure (\<lambda>(m, pgdir, va, bs). length bs)", goal_cases)
  case (2 m pgdir va bs)
  then show ?case using PGROUNDDOWN_offset [of va] by simp
qed simp

declare copyout_bytes.simps [simp del]

text \<open>The loop over the argument strings: the stack pointer and the pointers to the strings.\<close>

fun push_args :: "'a mach_scheme \<Rightarrow> u32 \<Rightarrow> u32 \<Rightarrow> uchar list list \<Rightarrow> u32 list \<Rightarrow> ('a mach_scheme \<times> (u32 \<times> u32 list) option) outcome" where
  "push_args m pgdir sp [] ptrs = ok (m, Some (sp, ptrs))"
| "push_args m pgdir sp (arg # args) ptrs =
     (if length ptrs \<ge> MAXARG then ok (m, None)
      else let sp = (sp - (of_nat (length arg) + 1)) AND NOT 3 in
        bnd (copyout_bytes m pgdir sp (arg @ [0])) (\<lambda>(m, good).
          if \<not> good then ok (m, None) else push_args m pgdir sp args (ptrs @ [sp])))"

text \<open>The words of \<open>ustack\<close>: a return address, \<open>argc\<close>, \<open>argv\<close>, the pointers and a null pointer.\<close>

definition ustack :: "u32 \<Rightarrow> u32 list \<Rightarrow> u32 list" where
  "ustack sp ptrs =
     [0xFFFFFFFF, of_nat (length ptrs), sp - (of_nat (length ptrs) + 1) * 4] @ ptrs @ [0]"

definition exec_args :: "'a mach_scheme \<Rightarrow> u32 \<Rightarrow> u32 \<Rightarrow> uchar list list \<Rightarrow> ('a mach_scheme \<times> u32 option) outcome" where
  "exec_args m pgdir sp args =
     bnd (push_args m pgdir sp args []) (\<lambda>(m, r).
     case r of None \<Rightarrow> ok (m, None)
     | Some (sp, ptrs) \<Rightarrow>
         let ws = ustack sp ptrs; sp = sp - (3 + of_nat (length ptrs) + 1) * 4 in
         bnd (copyout_bytes m pgdir sp (concat (map word_bytes ws))) (\<lambda>(m, good).
           ok (m, if good then Some sp else None)))"

section \<open>The call\<close>

text \<open>The last component of the path.\<close>

fun last_elem :: "uchar list \<Rightarrow> uchar list \<Rightarrow> uchar list" where
  "last_elem l [] = l"
| "last_elem l (c # s) = last_elem (if c = 47 then s else l) s"

text \<open>The label \<open>bad\<close>, with the inode unless it has been released.\<close>

definition exec_bad :: "kstate \<Rightarrow> nat \<Rightarrow> fsys \<Rightarrow> u32 \<Rightarrow> nat option \<Rightarrow> (kstate \<times> int) outcome" where
  "exec_bad k cur s pgdir ip =
     bnd (if pgdir \<noteq> 0 then freevm k pgdir None else ok k) (\<lambda>k.
     case ip of None \<Rightarrow> ok (fs_back k cur s, -1)
     | Some ip \<Rightarrow> bnd (iunlockput s ip) (\<lambda>s. bnd (fs_end_op s) (\<lambda>s. ok (fs_back k cur s, -1))))"

text \<open>The image is loaded, of size \<open>sz\<close>: the stack, the arguments and the switch to the new memory.\<close>

definition exec_commit :: "kstate \<Rightarrow> nat \<Rightarrow> fsys \<Rightarrow> u32 \<Rightarrow> u32 \<Rightarrow> elfhdr \<Rightarrow> uchar list \<Rightarrow> uchar list list \<Rightarrow> (kstate \<times> int) outcome" where
  "exec_commit k cur s d sz elf path args =
     (let lastpg = PGROUNDUP sz; guard = lastpg + MAX_STACK + PGSIZE; top = guard + 2 * PGSIZE in
      bnd (allocuvm k d guard top None) (\<lambda>(k, sz).
      if sz = 0 then panic ''panic stackptr failed''
      else bnd (clearpteu k d guard) (\<lambda>k.
        bnd (clearptep k d guard) (\<lambda>k.
        bnd (exec_args k d sz args) (\<lambda>(k, r).
        case r of None \<Rightarrow> exec_bad k cur s d None
        | Some sp \<Rightarrow>
            bnd (allocvdso k d (prc k cur)) (\<lambda>(k, r).
            let old = prc k cur; shmtop = PGROUNDUP (sz + MAX_SHM);
              k = upd_k cur (\<lambda>p. p\<lparr>p_name := name_copy (p_name p) (last_elem path path), p_pgdir := d, p_sz := shmtop,
                p_tf := (p_tf p)\<lparr>tf_eip := e_entry elf, tf_esp := sp\<rparr>, guardpg := guard, stacklastpg := lastpg,
                stacktop := top, shmbreak := top, shmnextpg := top, shmtop := shmtop\<rparr>) (fs_back k cur s) in
            bnd (switchuvm k (Some (prc k cur))) (\<lambda>k.
            bnd (freevm k (p_pgdir old) (Some old)) (\<lambda>k. ok (k, 0)))))))))"

definition exec :: "devtab \<Rightarrow> kstate \<Rightarrow> nat \<Rightarrow> uchar list \<Rightarrow> uchar list list \<Rightarrow> (kstate \<times> int) outcome" where
  "exec devsw k cur path args =
     bnd (fs_begin_op (fs_view k cur)) (\<lambda>s.
     bnd (namei devsw s path) (\<lambda>(s, ip).
     case ip of None \<Rightarrow> bnd (fs_end_op s) (\<lambda>s. ok (fs_back k cur s, -1))
     | Some ip \<Rightarrow>
         bnd (ilock s ip) (\<lambda>s.
         bnd (exec_image devsw s k ip) (\<lambda>(s, k, d, r).
         case r of None \<Rightarrow> exec_bad k cur s d (Some ip)
         | Some (sz, elf) \<Rightarrow>
             bnd (iunlockput s ip) (\<lambda>s.
             bnd (fs_end_op s) (\<lambda>s. exec_commit k cur s d sz elf path args))))))"

end
