(* ===== verification/Sysfile_Refs.thy ===== *)
theory Sysfile_Refs
  imports Sysfile
begin

text \<open>
  The file system calls keep their books: on return of every call the locks, the buffers and
  the number of open transactions are what they were, and the reference counts of inodes and
  of file table entries have changed by exactly the references gained and lost. The rules of
  \<open>post_rules\<close> for the functions of \<open>Fs\<close> carry the proofs.
\<close>

section \<open>Path lookup and transactions\<close>

lemma namei_post [post_rules]:
  assumes "\<And>s' r. moved s s' (plus_ref r (irefs s)) (ilocks s) \<Longrightarrow> P (s', r)"
  shows "post (namei devsw s path) P"
  unfolding namei_def by (auto intro!: namex_post assms)

lemma nameiparent_post [post_rules]:
  assumes "\<And>s' r nm. moved s s' (plus_ref r (irefs s)) (ilocks s) \<Longrightarrow> P (s', r, nm)"
  shows "post (nameiparent devsw s path name) P"
  unfolding nameiparent_def by (auto intro!: namex_post assms)

text \<open>
  Across the ends of a transaction: \<open>carry s s' k rf lk\<close> says that \<open>s'\<close> has \<open>k\<close> more open
  transactions than \<open>s\<close>, the references \<open>rf\<close> and the locks \<open>lk\<close>.
\<close>

definition carry :: "'a fstate_scheme \<Rightarrow> 'a fstate_scheme \<Rightarrow> int \<Rightarrow> (nat \<Rightarrow> int) \<Rightarrow> (nat \<Rightarrow> bool) \<Rightarrow> bool" where
  "carry s s' k rf lk \<longleftrightarrow>
     f_cwd s' = f_cwd s \<and> fstate.more s' = fstate.more s \<and> f_held s' = f_held s \<and>
     outstanding (f_log s') = outstanding (f_log s) + k \<and> irefs s' = rf \<and> ilocks s' = lk"

lemma carry_trans: "carry s s' j rf lk \<Longrightarrow> carry s' s'' k rf' lk' \<Longrightarrow> carry s s'' (j + k) rf' lk'"
  by (simp add: carry_def)

lemma moved_carry: "moved s s' rf lk \<Longrightarrow> carry s s' 0 rf lk"
  by (simp add: moved_def carry_def env_def)

lemma fs_begin_op_post [post_rules]:
  assumes "\<And>s'. carry s s' 1 (irefs s) (ilocks s) \<Longrightarrow> P s'"
  shows "post (fs_begin_op s) P"
  by (auto intro!: assms simp: fs_begin_op_def begin_op_pass_def carry_def)

lemma fs_end_op_post [post_rules]:
  assumes "\<And>s'. carry s s' (-1) (irefs s) (ilocks s) \<Longrightarrow> P s'"
  shows "post (fs_end_op s) P"
  by (auto intro!: assms simp: fs_end_op_def end_op_enter_def carry_def Let_def)

lemma isdirempty_post [post_rules]:
  assumes "\<And>s' r. ino_frame s s' \<Longrightarrow> P (s', r)"
  shows "post (isdirempty devsw s dp) P"
proof -
  have "post (isdirempty_loop devsw s dp off sz) P" for off sz
    using assms
  proof (induction "sz - off" arbitrary: s off rule: less_induct)
    case less
    have rest: "post (isdirempty_loop devsw s' dp (off + 16) sz) P" if "ino_frame s s'" "off < sz" for s'
      by (intro less(1) less(2)) (use that in \<open>auto elim: ino_frame_trans\<close>)
    show ?case
      by (subst isdirempty_loop.simps) (auto intro!: readi_post rest less(2))
  qed
  then show ?thesis by (simp add: isdirempty_def)
qed

lemma upd_d_carry: "carry s (upd_d ip f s) 0 (irefs s) (ilocks s)"
  by (rule moved_carry [OF ino_moved]) simp

lemma upd_back:
  "f a = x \<Longrightarrow> f b = y \<Longrightarrow> f(a := x, b := y) = f"
  "f a = x \<Longrightarrow> f b = y \<Longrightarrow> a \<noteq> b \<Longrightarrow> f(a := x', b := y', a := x, b := y) = f"
  "f a = x \<Longrightarrow> f b = y \<Longrightarrow> a \<noteq> b \<Longrightarrow> f(a := x', b := y', b := y, a := x) = f"
  by (auto simp: fun_eq_iff)

lemmas moves = moved_def ino_frame_def blk_frame_def plus_ref_def upd_same

lemmas books = moves carry_def env_def

section \<open>Links\<close>

lemma add_nlink_simps [simp]:
  "irefs (add_nlink ip k s) = irefs s" "ilocks (add_nlink ip k s) = ilocks s" "env (add_nlink ip k s) = env s"
  "f_held (add_nlink ip k s) = f_held s" "f_cwd (add_nlink ip k s) = f_cwd s"
  "f_log (add_nlink ip k s) = f_log s" "fstate.more (add_nlink ip k s) = fstate.more s"
  "f_dsz (add_nlink ip k s) = f_dsz s" "f_pid (add_nlink ip k s) = f_pid s"
  using ino_frame_upd_d [of s ip "\<lambda>d. d\<lparr>d_nlink := d_nlink d + k\<rparr>"]
  by (simp_all add: add_nlink_def ino_frame_def)

lemma iupdate_moved [post_rules]:
  assumes "\<And>s'. moved s s' (irefs s) (ilocks s) \<Longrightarrow> P s'"
  shows "post (iupdate s ip) P"
  by (rule iupdate_post) (use assms in \<open>blast intro: ino_moved blk_frame_ino\<close>)

lemma link_bad_post [post_rules]:
  assumes "\<And>s' r. carry s s' (-1) ((irefs s)(ip := irefs s ip - 1)) (ilocks s) \<Longrightarrow> P (s', r)"
  shows "post (link_bad s ip) P"
  unfolding link_bad_def
  apply (auto intro!: ilock_post iupdate_moved iunlockput_post fs_end_op_post assms)
  apply (auto simp: books fun_upd_idem_iff)
  done

lemma link_at_post [post_rules]:
  assumes "\<And>s' r. carry s s' (-1) ((irefs s)(ip := irefs s ip - 1)) (ilocks s) \<Longrightarrow> P (s', r)"
  shows "post (link_at devsw s ip new) P"
  unfolding link_at_def
  apply (auto intro!: nameiparent_post link_bad_post ilock_post iunlockput_post dirlink_post iput_post fs_end_op_post assms)
  apply (auto simp: books fun_upd_idem_iff fun_upd_twist upd_back)
  done

lemma do_link_post [post_rules]:
  assumes "\<And>s' r. carry s s' 0 (irefs s) (ilocks s) \<Longrightarrow> P (s', r)"
  shows "post (do_link devsw s old new) P"
  unfolding do_link_def
  apply (auto intro!: fs_begin_op_post namei_post ilock_post iunlockput_post iunlock_post iupdate_moved link_at_post
      fs_end_op_post assms)
  apply (auto simp: books fun_upd_idem_iff fun_upd_twist upd_back)
  done

lemma unlink_bad_post [post_rules]:
  assumes "\<And>s' r. ilocks s dp \<Longrightarrow> carry s s' (-1) ((irefs s)(dp := irefs s dp - 1)) ((ilocks s)(dp := False)) \<Longrightarrow> P (s', r)"
  shows "post (unlink_bad s dp) P"
  unfolding unlink_bad_def
  apply (auto intro!: iunlockput_post fs_end_op_post assms)
  apply (auto simp: books)
  done

lemma unlink_entry_post [post_rules]:
  assumes "\<And>s' r. ilocks s dp \<Longrightarrow> ilocks s ip \<Longrightarrow> dp \<noteq> ip \<Longrightarrow>
    carry s s' (-1) ((irefs s)(dp := irefs s dp - 1, ip := irefs s ip - 1)) ((ilocks s)(dp := False, ip := False)) \<Longrightarrow> P (s', r)"
  shows "post (unlink_entry devsw s dp ip off) P"
  unfolding unlink_entry_def
  apply (auto intro!: writei_post iupdate_moved iunlockput_post fs_end_op_post assms)
  apply (auto simp: books split: if_splits)
  done

lemma do_unlink_post [post_rules]:
  assumes "\<And>s' r. carry s s' 0 (irefs s) (ilocks s) \<Longrightarrow> P (s', r)"
  shows "post (do_unlink devsw s path) P"
  unfolding do_unlink_def
  apply (auto intro!: fs_begin_op_post nameiparent_post ilock_post dirlookup_post unlink_bad_post unlink_entry_post
      isdirempty_post iunlockput_post fs_end_op_post assms)
  apply (auto simp: books fun_upd_idem_iff fun_upd_twist upd_back)
  done

section \<open>Creating\<close>

text \<open>A created inode is returned locked, with a reference for the caller.\<close>

definition plus_lock :: "nat option \<Rightarrow> (nat \<Rightarrow> bool) \<Rightarrow> nat \<Rightarrow> bool" where
  "plus_lock r lk = (case r of None \<Rightarrow> lk | Some ip \<Rightarrow> lk(ip := True))"

definition unlocked :: "'a fstate_scheme \<Rightarrow> nat option \<Rightarrow> bool" where
  "unlocked s r = (case r of None \<Rightarrow> True | Some ip \<Rightarrow> \<not> ilocks s ip)"

lemma upd_d_simps [simp]:
  "irefs (upd_d ip g s) = irefs s" "ilocks (upd_d ip g s) = ilocks s"
  using ino_frame_upd_d [of s ip g] by (simp_all add: ino_frame_def)

lemma create_new_post [post_rules]:
  assumes "ilocks s dp"
    and "\<And>s' ip. \<not> ilocks s ip \<Longrightarrow> dp \<noteq> ip \<Longrightarrow> moved s s' ((irefs s)(ip := irefs s ip + 1, dp := irefs s dp - 1)) ((ilocks s)(ip := True, dp := False)) \<Longrightarrow> P (s', Some ip)"
  shows "post (create_new devsw s dp name type major minor) P"
  unfolding create_new_def
  using assms(1)
  apply (auto intro!: ialloc_post ilock_post iupdate_moved dirlink_post iunlockput_post assms(2))
  apply (auto simp: moves split: if_splits)
  done

lemma create_post [post_rules]:
  assumes "\<And>s' r. unlocked s r \<Longrightarrow> moved s s' (plus_ref r (irefs s)) (plus_lock r (ilocks s)) \<Longrightarrow> P (s', r)"
  shows "post (create devsw s path type major minor) P"
  unfolding create_def
  apply (auto intro!: nameiparent_post ilock_post dirlookup_post iunlockput_post create_new_post assms)
  apply (auto simp: moves plus_lock_def unlocked_def fun_upd_idem_iff fun_upd_twist split: if_splits)
  done

lemma open_inode_post [post_rules]:
  assumes "\<And>s' r. unlocked s r \<Longrightarrow> moved s s' (plus_ref r (irefs s)) (plus_lock r (ilocks s)) \<Longrightarrow> P (s', r)"
  shows "post (open_inode devsw s path omode) P"
  unfolding open_inode_def
  apply (auto intro!: create_post namei_post ilock_post iunlockput_post assms)
  apply (auto simp: moves plus_lock_def unlocked_def fun_upd_idem_iff)
  done

lemma make_node_post [post_rules]:
  assumes "\<And>s' r. carry s s' 0 (irefs s) (ilocks s) \<Longrightarrow> P (s', r)"
  shows "post (make_node devsw s path type major minor) P"
  unfolding make_node_def
  apply (auto intro!: fs_begin_op_post create_post iunlockput_post fs_end_op_post assms)
  apply (auto simp: books plus_lock_def unlocked_def fun_upd_idem_iff split: option.splits)
  done

section \<open>The file table\<close>

text \<open>
  An entry in use for an inode holds a reference of the inode, and so does the current
  directory of the process; a descriptor holds a reference of its entry. \<open>net\<close> and \<open>fnet\<close> are
  the references that other holders account for.
\<close>

definition holds :: "filerec \<Rightarrow> nat \<Rightarrow> bool" where
  "holds x ip \<longleftrightarrow> 0 < fl_ref x \<and> fl_type x = FD_INODE \<and> fl_ip x = ip"

definition net :: "'a fsys_scheme \<Rightarrow> nat \<Rightarrow> int" where
  "net s ip = irefs s ip - (\<Sum>f<NFILE. of_bool (holds (ftable s f) ip)) - of_bool (f_cwd s = ip)"

definition fnet :: "'a fsys_scheme \<Rightarrow> nat \<Rightarrow> int" where
  "fnet s f = fl_ref (ftable s f) - (\<Sum>fd<NOFILE. of_bool (f_ofile s fd = Some f))"

definition ftable_ok :: "'a fsys_scheme \<Rightarrow> bool" where
  "ftable_ok s \<longleftrightarrow>
     (\<forall>f<NFILE. 0 \<le> fl_ref (ftable s f) \<and> (fl_ref (ftable s f) = 0 \<longrightarrow> fl_type (ftable s f) = FD_NONE))"

definition fds_ok :: "'a fsys_scheme \<Rightarrow> bool" where
  "fds_ok s \<longleftrightarrow> (\<forall>fd f. f_ofile s fd = Some f \<longrightarrow> f < NFILE)"

text \<open>What a call leaves as it was.\<close>

definition settled :: "'a fsys_scheme \<Rightarrow> 'a fsys_scheme \<Rightarrow> bool" where
  "settled s s' \<longleftrightarrow>
     f_held s' = f_held s \<and> ilocks s' = ilocks s \<and> outstanding (f_log s') = outstanding (f_log s) \<and>
     net s' = net s \<and> fnet s' = fnet s"

lemma more_fsys:
  fixes s s' :: "'a fsys_scheme"
  assumes "fstate.more s' = fstate.more s"
  shows "ftable s' = ftable s" "f_ofile s' = f_ofile s" "pipes s' = pipes s" "f_killed s' = f_killed s"
  using assms by (cases s; cases s'; simp)+

lemma sum_upd:
  fixes g :: "'b \<Rightarrow> int" and k n :: nat
  assumes "k < n"
  shows "(\<Sum>i<n. g ((h(k := v)) i)) = (\<Sum>i<n. g (h i)) - g (h k) + g v"
proof -
  have "(\<Sum>i<n. g ((h(k := v)) i)) = g v + (\<Sum>i\<in>{..<n} - {k}. g (h i))"
    using assms by (subst sum.remove [of _ k]) (auto intro!: sum.cong)
  moreover have "(\<Sum>i<n. g (h i)) = g (h k) + (\<Sum>i\<in>{..<n} - {k}. g (h i))"
    using assms by (subst sum.remove [of _ k]) auto
  ultimately show ?thesis by simp
qed

lemma upd_file_simps [simp]:
  "irefs (upd_file f g s) = irefs s" "ilocks (upd_file f g s) = ilocks s" "f_held (upd_file f g s) = f_held s"
  "f_log (upd_file f g s) = f_log s" "f_cwd (upd_file f g s) = f_cwd s" "f_ofile (upd_file f g s) = f_ofile s"
  "ftable (upd_file f g s) = (ftable s)(f := g (ftable s f))"
  by (simp_all add: upd_file_def irefs_def [abs_def] ilocks_def [abs_def])

lemma net_upd_file:
  assumes "f < NFILE"
  shows "net (upd_file f g s) ip = net s ip + of_bool (holds (ftable s f) ip) - of_bool (holds (g (ftable s f)) ip)"
  using sum_upd [OF assms, of "\<lambda>x. of_bool (holds x ip)" "ftable s" "g (ftable s f)"] by (simp add: net_def)

lemma fnet_upd_file: "fnet (upd_file f g s) k = fnet s k + (if k = f then fl_ref (g (ftable s f)) - fl_ref (ftable s f) else 0)"
  by (simp add: fnet_def)

lemma net_ofile [simp]: "net (s\<lparr>f_ofile := u\<rparr>) = net s"
  by (simp add: net_def irefs_def fun_eq_iff)

lemma fnet_ofile:
  assumes "fd < NOFILE"
  shows "fnet (s\<lparr>f_ofile := (f_ofile s)(fd := v)\<rparr>) k = fnet s k + of_bool (f_ofile s fd = Some k) - of_bool (v = Some k)"
  using sum_upd [OF assms, of "\<lambda>x. of_bool (x = Some k)" "f_ofile s" v] by (simp add: fnet_def)

lemma carry_nets:
  assumes "carry s s' k rf lk"
  shows "net s' ip = net s ip + rf ip - irefs s ip" "fnet s' = fnet s" "ftable_ok s' = ftable_ok s" "fds_ok s' = fds_ok s"
proof -
  have c: "f_cwd s' = f_cwd s" "irefs s' = rf" "fstate.more s' = fstate.more s" using assms by (simp_all add: carry_def)
  note m = more_fsys [OF c(3)]
  show "net s' ip = net s ip + rf ip - irefs s ip" by (simp add: net_def c m)
  show "fnet s' = fnet s" by (simp add: fnet_def m fun_eq_iff)
  show "ftable_ok s' = ftable_ok s" "fds_ok s' = fds_ok s" by (simp_all add: ftable_ok_def fds_ok_def m)
qed

lemma carry_settled:
  "carry s s' 0 (irefs s) (ilocks s) \<Longrightarrow> settled s s' \<and> ftable_ok s' = ftable_ok s \<and> fds_ok s' = fds_ok s"
  using carry_nets [of s s' 0 "irefs s" "ilocks s"] by (auto simp: settled_def fun_eq_iff) (simp_all add: carry_def)

section \<open>Files\<close>

lemma net_pipes [simp]:
  "net (s\<lparr>pipes := p\<rparr>) = net s" "fnet (s\<lparr>pipes := p\<rparr>) = fnet s" "ftable_ok (s\<lparr>pipes := p\<rparr>) = ftable_ok s"
  "fds_ok (s\<lparr>pipes := p\<rparr>) = fds_ok s" "ilocks (s\<lparr>pipes := p\<rparr>) = ilocks s"
  by (simp_all add: net_def fnet_def irefs_def ilocks_def ftable_ok_def fds_ok_def fun_eq_iff)

lemma ftable_ok_upd:
  assumes "ftable_ok s" "0 \<le> fl_ref (g (ftable s f))" "fl_ref (g (ftable s f)) = 0 \<Longrightarrow> fl_type (g (ftable s f)) = FD_NONE"
  shows "ftable_ok (upd_file f g s)"
  using assms by (simp add: ftable_ok_def)

lemma fds_ok_upd_file [simp]: "fds_ok (upd_file f g s) = fds_ok s"
  by (simp add: fds_ok_def)

lemma close_last_post:
  assumes "\<And>s' e. f_held s' = f_held s \<Longrightarrow> ilocks s' = ilocks s \<Longrightarrow> outstanding (f_log s') = outstanding (f_log s) \<Longrightarrow>
      (\<And>ip. net s' ip = net s ip - of_bool (fl_type ff = FD_INODE \<and> fl_ip ff = ip)) \<Longrightarrow> fnet s' = fnet s \<Longrightarrow>
      ftable_ok s' = ftable_ok s \<Longrightarrow> fds_ok s' = fds_ok s \<Longrightarrow> P (s', e)"
  shows "post (close_last s ff) P"
proof (cases "fl_type ff")
  case FD_INODE
  have "P (s3, [])" if c: "carry s s1 1 (irefs s) (ilocks s)"
    "moved s1 s2 ((irefs s1)(fl_ip ff := irefs s1 (fl_ip ff) - 1)) (ilocks s1)" "carry s2 s3 (-1) (irefs s2) (ilocks s2)" for s1 s2 s3
  proof -
    have "carry s s3 0 ((irefs s)(fl_ip ff := irefs s (fl_ip ff) - 1)) (ilocks s)"
      using c by (simp add: carry_def moved_def env_def)
    note n = carry_nets [OF this] this
    show ?thesis using n(5) FD_INODE by (intro assms) (simp_all add: n carry_def)
  qed
  then show ?thesis using FD_INODE
    by (auto intro!: fs_begin_op_post iput_post fs_end_op_post simp: close_last_def)
qed (auto intro!: assms simp: close_last_def split: prod.splits)

lemma fileclose_post [post_rules]:
  assumes "ftable_ok s" "f < NFILE"
    and "\<And>s' e. f_held s' = f_held s \<Longrightarrow> ilocks s' = ilocks s \<Longrightarrow> outstanding (f_log s') = outstanding (f_log s) \<Longrightarrow>
      net s' = net s \<Longrightarrow> (\<And>k. fnet s' k = fnet s k - of_bool (k = f)) \<Longrightarrow> ftable_ok s' \<Longrightarrow> fds_ok s' = fds_ok s \<Longrightarrow>
      P (s', e)"
  shows "post (fileclose s f) P"
proof -
  have e: "ftable_ok (upd_file f (\<lambda>x. x\<lparr>fl_ref := 0, fl_type := FD_NONE\<rparr>) s)"
    by (rule ftable_ok_upd [OF assms(1)]) simp_all
  have e': "ftable_ok (upd_file f (\<lambda>x. x\<lparr>fl_ref := fl_ref x - 1\<rparr>) s)" if "fl_ref (ftable s f) > 1"
    by (rule ftable_ok_upd [OF assms(1)]) (use that in simp_all)
  show ?thesis
    unfolding fileclose_def
    by (auto intro!: close_last_post assms(3) e' simp: Let_def net_upd_file [OF assms(2)] fnet_upd_file e holds_def fun_eq_iff)
qed

text \<open>The entry of a descriptor, and the entry and the descriptor that the allocators pick.\<close>

lemma fd_file_Some:
  assumes "fd_file s fd = Some f" "fds_ok s"
  shows "f < NFILE" "nat fd < NOFILE" "f_ofile s (nat fd) = Some f"
  using assms by (auto simp: fd_file_def fds_ok_def nat_less_iff split: if_splits)

lemma fdalloc_result:
  assumes "fdalloc s f = (s', fd)"
  shows "fd < 0 \<Longrightarrow> s' = s"
    and "0 \<le> fd \<Longrightarrow> nat fd < NOFILE \<and> f_ofile s (nat fd) = None \<and> s' = s\<lparr>f_ofile := (f_ofile s)(nat fd := Some f)\<rparr>"
  using assms by (auto simp: fdalloc_def split: option.splits dest: find_upt)

lemma fds_ok_upd: "fds_ok s \<Longrightarrow> (\<And>f. v = Some f \<Longrightarrow> f < NFILE) \<Longrightarrow> fds_ok (s\<lparr>f_ofile := (f_ofile s)(fd := v)\<rparr>)"
  by (simp add: fds_ok_def)

lemma ofile_simps [simp]:
  "ilocks (s\<lparr>f_ofile := u\<rparr>) = ilocks s" "irefs (s\<lparr>f_ofile := u\<rparr>) = irefs s" "ftable_ok (s\<lparr>f_ofile := u\<rparr>) = ftable_ok s"
  by (simp_all add: ilocks_def irefs_def ftable_ok_def fun_eq_iff)

text \<open>A call that ends well: the books are settled and the tables are well formed.\<close>

definition well :: "'a fsys_scheme \<Rightarrow> 'a fsys_scheme \<Rightarrow> bool" where
  "well s s' \<longleftrightarrow> settled s s' \<and> ftable_ok s' \<and> fds_ok s'"

lemma do_close_post:
  assumes "ftable_ok s" "fds_ok s"
  shows "post (do_close s fd) (\<lambda>(s', r, e). well s s')"
proof (cases "fd_file s fd")
  case None
  then show ?thesis using assms by (simp add: do_close_def well_def settled_def)
next
  case (Some f)
  note f = fd_file_Some [OF Some assms(2)]
  show ?thesis using assms f fds_ok_upd [OF assms(2), of None]
    by (auto intro!: fileclose_post simp: do_close_def Some well_def settled_def fnet_ofile fun_eq_iff)
qed

lemma do_dup_post:
  assumes "ftable_ok s" "fds_ok s"
  shows "post (do_dup s fd) (\<lambda>(s', r). well s s')"
proof (cases "fd_file s fd")
  case None
  then show ?thesis using assms by (simp add: do_dup_def well_def settled_def)
next
  case (Some f)
  note f = fd_file_Some [OF Some assms(2)]
  obtain s1 fd' where a: "fdalloc s f = (s1, fd')" by fastforce
  note r = fdalloc_result [OF a]
  show ?thesis
  proof (cases "fd' < 0")
    case True
    then show ?thesis using assms r by (simp add: do_dup_def Some a well_def settled_def)
  next
    case False
    then have s1: "s1 = s\<lparr>f_ofile := (f_ofile s)(nat fd' := Some f)\<rparr>" "nat fd' < NOFILE" "f_ofile s (nat fd') = None"
      using r by auto
    have "well s (upd_file f (\<lambda>x. x\<lparr>fl_ref := fl_ref x + 1\<rparr>) s1)" if "\<not> fl_ref (ftable s f) < 1"
      unfolding well_def settled_def s1 using that f(1) s1(2,3) assms
      by (auto intro!: ftable_ok_upd fds_ok_upd simp: fnet_upd_file net_upd_file fnet_ofile holds_def fun_eq_iff)
    then show ?thesis using False by (simp add: do_dup_def Some a filedup_def s1)
  qed
qed

section \<open>Reading and writing\<close>

definition kept :: "'a fsys_scheme \<Rightarrow> 'a fsys_scheme \<Rightarrow> int \<Rightarrow> (nat \<Rightarrow> bool) \<Rightarrow> bool" where
  "kept s s' k lk \<longleftrightarrow>
     f_held s' = f_held s \<and> ilocks s' = lk \<and> outstanding (f_log s') = outstanding (f_log s) + k \<and>
     net s' = net s \<and> fnet s' = fnet s \<and> ftable_ok s' = ftable_ok s \<and> fds_ok s' = fds_ok s"

lemma carry_kept: "carry s s' k (irefs s) lk \<Longrightarrow> kept s s' k lk"
  using carry_nets [of s s' k "irefs s" lk] by (auto simp: kept_def fun_eq_iff) (simp_all add: carry_def)

lemma moved_kept: "moved s s' (irefs s) lk \<Longrightarrow> kept s s' 0 lk"
  by (rule carry_kept [OF moved_carry])

lemma ino_kept: "ino_frame s s' \<Longrightarrow> kept s s' 0 (ilocks s)"
  by (rule moved_kept [OF ino_moved])

lemma kept_well: "kept s s' 0 (ilocks s) \<Longrightarrow> ftable_ok s \<Longrightarrow> fds_ok s \<Longrightarrow> well s s'"
  by (simp add: kept_def well_def settled_def)

lemma kept_off: "kept s (upd_file f (\<lambda>x. x\<lparr>fl_off := h x\<rparr>) s) 0 (ilocks s)"
proof -
  let ?s = "upd_file f (\<lambda>x. x\<lparr>fl_off := h x\<rparr>) s"
  have "holds (ftable ?s g) ip = holds (ftable s g) ip" for g ip by (simp add: holds_def)
  then have "net ?s = net s" by (simp add: net_def fun_eq_iff del: upd_file_simps(7))
  then show ?thesis by (auto simp: kept_def fnet_def ftable_ok_def fun_eq_iff split: if_splits)
qed

lemma kept_trans: "kept s s' j lk \<Longrightarrow> kept s' s'' k lk' \<Longrightarrow> kept s s'' (j + k) lk'"
  by (simp add: kept_def)

lemma kept_pipes: "kept s (s\<lparr>pipes := p\<rparr>) 0 (ilocks s)"
  by (simp add: kept_def)

lemma filestat_post [post_rules]:
  assumes "\<And>s' r. kept s s' 0 (ilocks s) \<Longrightarrow> P (s', r)"
  shows "post (filestat s f) P"
  unfolding filestat_def
  apply (auto intro!: ilock_post iunlock_post assms simp: Let_def dest!: moved_kept)
  apply (auto simp: kept_def fun_upd_idem_iff)
  done

lemmas off_simps = kept_off [unfolded kept_def]

lemma fileread_post [post_rules]:
  assumes "\<And>s' r e. kept s s' 0 (ilocks s) \<Longrightarrow> P (s', r, e)"
  shows "post (fileread devsw s f n) P"
proof (cases "fl_type (ftable s f)")
  case FD_INODE
  show ?thesis
    unfolding fileread_def Let_def
    apply (auto intro!: ilock_post readi_post iunlock_post assms simp: FD_INODE dest!: moved_kept ino_kept)
    apply (auto simp: kept_def fun_upd_idem_iff off_simps)
    done
qed (auto intro!: assms kept_pipes simp: fileread_def kept_def Let_def split: prod.splits)

lemma write_some_post [post_rules]:
  assumes "\<And>s' r. kept s s' 0 (ilocks s) \<Longrightarrow> P (s', r)"
  shows "post (write_some devsw s f addr i n) P"
  unfolding write_some_def Let_def
  apply (auto intro!: fs_begin_op_post ilock_post writei_post iunlock_post fs_end_op_post assms
      dest!: moved_kept ino_kept carry_kept)
  apply (auto simp: kept_def fun_upd_idem_iff off_simps)
  done

lemma filewrite_loop_post [post_rules]:
  assumes "\<And>s' r. kept s s' 0 (ilocks s) \<Longrightarrow> P (s', r)"
  shows "post (filewrite_loop devsw s f addr n i) P"
  using assms
proof (induction "n - i" arbitrary: s i rule: less_induct)
  case less
  have m: "0 < max_write" by (simp add: max_write_def LOGSIZE_def)
  have rest: "post (filewrite_loop devsw s' f addr n (i + min (n - i) max_write)) P" if "kept s s' 0 (ilocks s)" "i < n" for s'
    by (intro less(1) less(2)) (use that m in \<open>auto simp: kept_def\<close>)
  show ?case
    by (subst filewrite_loop.simps) (auto intro!: write_some_post rest less(2) simp: Let_def kept_def)
qed

lemma filewrite_post [post_rules]:
  assumes "\<And>s' r e. kept s s' 0 (ilocks s) \<Longrightarrow> P (s', r, e)"
  shows "post (filewrite devsw s f addr n i) P"
  by (cases "fl_type (ftable s f)")
    (auto intro!: filewrite_loop_post assms kept_pipes simp: filewrite_def kept_def Let_def split: prod.splits)

section \<open>Opening\<close>

lemma filealloc_result:
  assumes "filealloc s = (s', r)"
  shows "r = None \<Longrightarrow> s' = s"
    and "r = Some f \<Longrightarrow> f < NFILE \<and> fl_ref (ftable s f) = 0 \<and> s' = upd_file f (\<lambda>x. x\<lparr>fl_ref := 1\<rparr>) s"
  using assms by (auto simp: filealloc_def split: option.splits dest: find_upt)

lemma filealloc_nets:
  assumes "f < NFILE" "fl_ref (ftable s f) = 0" "ftable_ok s"
  shows "net (upd_file f (\<lambda>x. x\<lparr>fl_ref := 1\<rparr>) s) = net s" "ftable_ok (upd_file f (\<lambda>x. x\<lparr>fl_ref := 1\<rparr>) s)"
    "fl_type (ftable s f) = FD_NONE"
  using assms by (auto intro!: ftable_ok_upd simp: net_upd_file holds_def ftable_ok_def fun_eq_iff)

text \<open>After \<open>open_fd\<close> the entry is there, without an inode, or nothing has changed.\<close>

lemma open_fd_post:
  assumes "ftable_ok s" "fds_ok s"
    and "\<And>s' e. kept s s' 0 (ilocks s) \<Longrightarrow> P (s', None, e)"
    and "\<And>s' f fd e. kept s s' 0 (ilocks s) \<Longrightarrow> f < NFILE \<Longrightarrow> ftable s' f = (ftable s f)\<lparr>fl_ref := 1\<rparr> \<Longrightarrow>
      fl_type (ftable s' f) = FD_NONE \<Longrightarrow> P (s', Some (f, fd), e)"
  shows "post (open_fd s) P"
proof -
  obtain s1 r where a: "filealloc s = (s1, r)" by fastforce
  note fa = filealloc_result [OF a]
  show ?thesis
  proof (cases r)
    case None
    with fa assms(3) show ?thesis by (simp add: open_fd_def a kept_def)
  next
    case (Some f)
    then have s1: "s1 = upd_file f (\<lambda>x. x\<lparr>fl_ref := 1\<rparr>) s" "f < NFILE" "fl_ref (ftable s f) = 0" using fa by auto
    note n = filealloc_nets [OF s1(2,3) assms(1)]
    have n1: "ftable_ok s1" "net s1 = net s" "f_held s1 = f_held s" "ilocks s1 = ilocks s" "f_log s1 = f_log s"
      "fds_ok s1" "ftable s1 f = (ftable s f)\<lparr>fl_ref := 1\<rparr>"
      using n assms(2) by (simp_all add: s1(1))
    have fn: "fnet s1 k = fnet s k + of_bool (k = f)" for k using s1 by (simp add: fnet_upd_file)
    obtain s2 fd where b: "fdalloc s1 f = (s2, fd)" by fastforce
    note fb = fdalloc_result [OF b]
    show ?thesis
    proof (cases "fd < 0")
      case True
      with fb b have b: "fdalloc s1 f = (s1, fd)" by simp
      show ?thesis using assms(1,2) s1(2) n1 fn True
        by (auto intro!: fileclose_post assms(3) simp: open_fd_def a b Some kept_def fun_eq_iff)
    next
      case False
      then have s2: "s2 = s1\<lparr>f_ofile := (f_ofile s1)(nat fd := Some f)\<rparr>" "nat fd < NOFILE" "f_ofile s1 (nat fd) = None"
        using fb by auto
      have "kept s s2 0 (ilocks s)"
        using assms(1,2) s1(2) s2 n1 fn fds_ok_upd [of s1 "Some f"] by (auto simp: kept_def fnet_ofile fun_eq_iff)
      moreover have "ftable s2 f = (ftable s f)\<lparr>fl_ref := 1\<rparr>" by (simp add: s2(1) n1)
      ultimately show ?thesis using False s1(2) n(3) by (auto intro!: assms(4) simp: open_fd_def a b Some)
    qed
  qed
qed

lemma carry_facts:
  assumes "carry s s' k rf lk"
  shows "f_held s' = f_held s \<and> ilocks s' = lk \<and> outstanding (f_log s') = outstanding (f_log s) + k \<and> irefs s' = rf \<and>
    ftable s' = ftable s \<and> f_cwd s' = f_cwd s \<and> net s' = (\<lambda>ip. net s ip + rf ip - irefs s ip) \<and> fnet s' = fnet s \<and>
    ftable_ok s' = ftable_ok s \<and> fds_ok s' = fds_ok s"
  using assms carry_nets [OF assms] more_fsys(1) [of s' s] by (simp add: carry_def fun_eq_iff)

lemmas moved_facts = carry_facts [OF moved_carry]

lemma do_open_post:
  assumes "ftable_ok s" "fds_ok s"
  shows "post (do_open devsw s path omode) (\<lambda>(s', r, e). well s s')"
  unfolding do_open_def using assms
  apply (auto intro!: fs_begin_op_post open_inode_post open_fd_post iunlockput_post iunlock_post fs_end_op_post
      dest!: carry_facts moved_facts)
  apply (auto intro!: ftable_ok_upd simp: well_def settled_def kept_def plus_ref_def plus_lock_def unlocked_def
      net_upd_file fnet_upd_file holds_def fun_eq_iff split: option.splits)
  done

lemma net_cwd: "net (s\<lparr>f_cwd := ip\<rparr>) k = net s k + of_bool (f_cwd s = k) - of_bool (ip = k)"
  by (simp add: net_def irefs_def)

lemma cwd_simps [simp]:
  "ilocks (s\<lparr>f_cwd := ip\<rparr>) = ilocks s" "fnet (s\<lparr>f_cwd := ip\<rparr>) = fnet s"
  "ftable_ok (s\<lparr>f_cwd := ip\<rparr>) = ftable_ok s" "fds_ok (s\<lparr>f_cwd := ip\<rparr>) = fds_ok s"
  by (simp_all add: ilocks_def fnet_def ftable_ok_def fds_ok_def fun_eq_iff)

lemma do_chdir_post:
  assumes "ftable_ok s" "fds_ok s"
  shows "post (do_chdir devsw s path) (\<lambda>(s', r). well s s')"
  unfolding do_chdir_def using assms
  apply (auto intro!: fs_begin_op_post namei_post ilock_post iunlockput_post iunlock_post iput_post fs_end_op_post
      dest!: carry_facts moved_facts)
  apply (auto simp: well_def settled_def plus_ref_def net_cwd fun_eq_iff split: option.splits)
  done

section \<open>The calls\<close>

datatype file_call =
    FDup int
  | FRead int u32
  | FWrite int "nat \<Rightarrow> uchar" int nat
  | FClose int
  | FFstat int
  | FLink "uchar list" "uchar list"
  | FUnlink "uchar list"
  | FOpen "uchar list" u32
  | FMkdir "uchar list option"
  | FMknod "uchar list option" u32 u32
  | FChdir "uchar list option"

text \<open>The state a call returns with.\<close>

primrec file_run :: "devtab \<Rightarrow> 'a fsys_scheme \<Rightarrow> file_call \<Rightarrow> 'a fsys_scheme outcome" where
  "file_run devsw s (FDup fd) = bnd (do_dup s fd) (\<lambda>(s, r). ok s)"
| "file_run devsw s (FRead fd n) = bnd (do_read devsw s fd n) (\<lambda>(s, r, e). ok s)"
| "file_run devsw s (FWrite fd addr n i) = bnd (do_write devsw s fd addr n i) (\<lambda>(s, r, e). ok s)"
| "file_run devsw s (FClose fd) = bnd (do_close s fd) (\<lambda>(s, r, e). ok s)"
| "file_run devsw s (FFstat fd) = bnd (do_fstat s fd) (\<lambda>(s, r). ok s)"
| "file_run devsw s (FLink old new) = bnd (do_link devsw s old new) (\<lambda>(s, r). ok s)"
| "file_run devsw s (FUnlink path) = bnd (do_unlink devsw s path) (\<lambda>(s, r). ok s)"
| "file_run devsw s (FOpen path omode) = bnd (do_open devsw s path omode) (\<lambda>(s, r, e). ok s)"
| "file_run devsw s (FMkdir path) = bnd (do_mkdir devsw s path) (\<lambda>(s, r). ok s)"
| "file_run devsw s (FMknod path major minor) = bnd (do_mknod devsw s path major minor) (\<lambda>(s, r). ok s)"
| "file_run devsw s (FChdir path) = bnd (do_chdir devsw s path) (\<lambda>(s, r). ok s)"

lemma file_run_well:
  assumes "ftable_ok s" "fds_ok s"
  shows "post (file_run devsw s c) (well s)"
proof -
  have k: "well s s'" if "carry s s' 0 (irefs s) (ilocks s)" for s' using carry_settled [OF that] assms by (simp add: well_def)
  have r: "well s s" using assms by (simp add: well_def settled_def)
  note w = kept_well [OF _ assms]
  show ?thesis
    by (cases c) (auto intro: k w r intro!: do_link_post do_unlink_post make_node_post fileread_post filewrite_post filestat_post
      post_mono [OF do_dup_post [OF assms]] post_mono [OF do_close_post [OF assms]]
      post_mono [OF do_open_post [OF assms]] post_mono [OF do_chdir_post [OF assms]]
      simp: do_mkdir_def do_mknod_def do_read_def do_write_def do_fstat_def)
qed

text \<open>A sequence of calls of one process.\<close>

primrec file_runs :: "devtab \<Rightarrow> 'a fsys_scheme \<Rightarrow> file_call list \<Rightarrow> 'a fsys_scheme outcome" where
  "file_runs devsw s [] = ok s"
| "file_runs devsw s (c # cs) = bnd (file_run devsw s c) (\<lambda>s. file_runs devsw s cs)"

lemma file_runs_well:
  assumes "ftable_ok s" "fds_ok s"
  shows "post (file_runs devsw s cs) (well s)"
  using assms
proof (induction cs arbitrary: s)
  case (Cons c cs)
  have "post (file_runs devsw s' cs) (well s)" if "well s s'" for s'
    using that by (intro post_mono [OF Cons(1)]) (auto simp: well_def settled_def)
  then show ?case using post_mono [OF file_run_well [OF Cons(2,3)]] by simp
qed (simp add: well_def settled_def)

text \<open>
  C5. Whatever file system calls a process makes, with whatever results, the calls that return
  leave no lock, no buffer and no transaction behind, and the reference count of every inode
  has changed by exactly the change in the number of open files and current directories that
  name it, the one of every file table entry by the change in the number of descriptors that
  name it. A free entry stays of type \<open>FD_NONE\<close> and descriptors name entries of the table.
\<close>

theorem file_calls_balanced:
  assumes "ftable_ok s" "fds_ok s" "file_runs devsw s calls = ok s'"
  shows "f_held s' = f_held s \<and> ilocks s' = ilocks s \<and> outstanding (f_log s') = outstanding (f_log s) \<and>
    net s' = net s \<and> fnet s' = fnet s \<and> ftable_ok s' \<and> fds_ok s'"
  using postD [OF file_runs_well [OF assms(1,2)] assms(3)] by (simp add: well_def settled_def)

definition w_root_dir :: dinode where
  "w_root_dir = \<lparr>d_type = 1, d_major = 0, d_minor = 0, d_nlink = 1, d_size = 512, d_addrs = replicate 13 0\<rparr>"

definition w_fsys :: fsys where
  "w_fsys = \<lparr>f_disk = (\<lambda>b. replicate 512 0), f_dsz = 1000, f_held = [], f_log = zero_log\<lparr>log_size := 30\<rparr>,
     f_sb = sb_of_block (replicate 512 0),
     icache = (\<lambda>i. \<lparr>i_dev = 1, i_inum = 1, i_ref = (if i = 0 then 1 else 0),
       i_lock = \<lparr>sl_locked = False, sl_pid = 0\<rparr>, i_valid = (i = 0), i_d = w_root_dir\<rparr>),
     f_pid = 7, f_cwd = 0,
     ftable = (\<lambda>f. \<lparr>fl_type = FD_NONE, fl_ref = 0, fl_readable = False, fl_writable = False, fl_pipe = 0, fl_ip = 0, fl_off = 0\<rparr>),
     pipes = undefined, f_ofile = (\<lambda>fd. None), f_killed = False\<rparr>"

text \<open>Opening the root directory twice over: the second descriptor is a copy of the first.\<close>

lemmas w_fsys_run =
  do_open_def open_inode_def namei_def namex_def namex_loop.simps skipelem_def iget_def fs_begin_op_def begin_op_pass_def
  fs_end_op_def end_op_enter_def ilock_def ilock_sleep_def acquiresleep_def acquiresleep_pass_def iunlock_def holdingsleep_def
  irelease_def releasesleep_def open_fd_def filealloc_def fdalloc_def do_dup_def do_close_def fd_file_def filedup_def
  fileclose_def upd_file_def upd_inode_def irefs_def

lemma w_fsys_opens:
  "\<exists>s'. file_runs (\<lambda>m. \<lparr>dev_read = None, dev_write = None\<rparr>) w_fsys [FOpen [47] 0, FDup 0, FClose 0] = ok s' \<and>
     irefs s' 0 = 2 \<and> fl_ref (ftable s' 0) = 1"
  by (simp add: w_fsys_run w_fsys_def w_root_dir_def zero_log_def Let_def NFILE_def NOFILE_def NINODE_def upt_conv_Cons
    MAXOPBLOCKS_def LOGSIZE_def)

theorem file_calls_balanced_witness:
  "\<exists>s'. file_runs (\<lambda>m. \<lparr>dev_read = None, dev_write = None\<rparr>) w_fsys [FOpen [47] 0, FDup 0, FClose 0] = ok s' \<and>
     irefs s' 0 = 2 \<and> outstanding (f_log s') = 0 \<and> net s' = net w_fsys \<and> fnet s' = fnet w_fsys"
proof -
  have i: "ftable_ok w_fsys" "fds_ok w_fsys" by (simp_all add: ftable_ok_def fds_ok_def w_fsys_def)
  have "outstanding (f_log w_fsys) = 0" by (simp add: w_fsys_def zero_log_def)
  then show ?thesis using w_fsys_opens file_calls_balanced [OF i] by metis
qed

end
