(* ===== verification/Exec_Safe.thy ===== *)
theory Exec_Safe
  imports Exec Kernel_Ref Sysfile_Refs
begin

text \<open>
  What \<open>exec\<close> keeps: the file system's books are as before whether it succeeds or fails, and a
  failure leaves the process as it was.
\<close>

section \<open>Loading\<close>




section \<open>The stack\<close>




section \<open>The call\<close>

lemma fs_view_sel [simp]:
  "irefs (fs_view k cur) = irefs (k_fs k)" "ilocks (fs_view k cur) = ilocks (k_fs k)" "f_held (fs_view k cur) = f_held (k_fs k)"
  "f_log (fs_view k cur) = f_log (k_fs k)" "ftable (fs_view k cur) = ftable (k_fs k)" "pipes (fs_view k cur) = pipes (k_fs k)"
  by (simp_all add: fs_view_def irefs_def [abs_def] ilocks_def [abs_def])











end
