(* ===== verification/Sysproc.thy ===== *)
theory Sysproc
  imports Syscall
begin

text \<open>
  The system calls of processes (\<^verbatim>\<open>sysproc.c\<close>, \<^verbatim>\<open>sysvdso.c\<close>). A call that sleeps is a pass; what it
  does when it wakes up is the function with the suffix \<open>_pass\<close> or, for the futex calls, to
  return 0.
\<close>

section \<open>Processes\<close>

definition sys_fork :: "kstate \<Rightarrow> nat \<Rightarrow> (kstate \<times> kret) outcome" where
  "sys_fork k cur = bnd (fork k cur) (\<lambda>(k, r). ok (k, KRet r))"

definition sys_exit :: "kstate \<Rightarrow> nat \<Rightarrow> (kstate \<times> kret) outcome" where
  "sys_exit k cur = bnd (exit k cur) (\<lambda>k. ok (k, KGone))"

definition sys_wait :: "kstate \<Rightarrow> nat \<Rightarrow> (kstate \<times> kret) outcome" where
  "sys_wait k cur = wait k cur"

definition sys_kill :: "kstate \<Rightarrow> nat \<Rightarrow> (kstate \<times> kret) outcome" where
  "sys_kill k cur =
     need k (argint k cur 0) (\<lambda>pid.
       case kill (k_pt k) (sint pid) of (t, r) \<Rightarrow> ok (k\<lparr>k_pt := t\<rparr>, KRet r))"

definition sys_getpid :: "kstate \<Rightarrow> nat \<Rightarrow> (kstate \<times> kret) outcome" where
  "sys_getpid k cur = ok (k, KRet (p_pid (prc k cur)))"

definition sys_sbrk :: "kstate \<Rightarrow> nat \<Rightarrow> (kstate \<times> kret) outcome" where
  "sys_sbrk k cur =
     need k (argint k cur 0) (\<lambda>n.
       let addr = p_sz (prc k cur) in
       bnd (growproc k cur n) (\<lambda>(k, r). ok (k, KRet (if r < 0 then -1 else sint addr))))"

section \<open>Time\<close>

text \<open>\<open>ticks - ticks0 < n\<close> compares unsigned numbers.\<close>

definition sys_sleep_pass :: "kstate \<Rightarrow> nat \<Rightarrow> u32 \<Rightarrow> u32 \<Rightarrow> kstate \<times> kret" where
  "sys_sleep_pass k cur ticks0 n =
     (if k_ticks k - ticks0 < n then
        if p_killed (prc k cur) then (k, KRet (-1)) else sleep k cur ChTicks
      else (k, KRet 0))"

definition sys_sleep :: "kstate \<Rightarrow> nat \<Rightarrow> (kstate \<times> kret) outcome" where
  "sys_sleep k cur = need k (argint k cur 0) (\<lambda>n. ok (sys_sleep_pass k cur (k_ticks k) n))"

definition sys_uptime :: "kstate \<Rightarrow> nat \<Rightarrow> (kstate \<times> kret) outcome" where
  "sys_uptime k cur = ok (k, KRet (sint (k_ticks k)))"

section \<open>Shared memory and futexes\<close>

definition sys_shmbrk :: "kstate \<Rightarrow> nat \<Rightarrow> (kstate \<times> kret) outcome" where
  "sys_shmbrk k cur =
     need k (argint k cur 0) (\<lambda>n.
       let p = prc k cur; oldshmbreak = shmbreak p in
       if n = 0 then ok (k, KRet (sint oldshmbreak))
       else if sint n < 0 then
         bnd (deallocuvm k (p_pgdir p) (shmtop p) (stacktop p) (Some p)) (\<lambda>(k, r).
           ok (upd_k cur (\<lambda>p. p\<lparr>shmbreak := stacktop p, shmnextpg := stacktop p\<rparr>) k, KRet (sint oldshmbreak)))
       else if oldshmbreak + n \<ge> shmtop p then ok (k, KRet (-1))
       else let newbk = oldshmbreak + n; newnextpg = PGROUNDUP newbk in
         if newnextpg > shmnextpg p then
           bnd (allocuvm k (p_pgdir p) (shmnextpg p) newnextpg None) (\<lambda>(k, allocret).
             if allocret = 0 then panic ''panic sys_shmbrk allocuvm failed''
             else ok (upd_k cur (\<lambda>p. p\<lparr>shmnextpg := newnextpg, shmbreak := newbk\<rparr>) k, KRet (sint oldshmbreak)))
         else if newnextpg = shmnextpg p then
           ok (upd_k cur (\<lambda>p. p\<lparr>shmbreak := newbk\<rparr>) k, KRet (sint oldshmbreak))
         else panic ''sys_shmbrk'')"

text \<open>The test and the sleep of \<open>futex_wait\<close>, under \<open>ptable.lock\<close>.\<close>

definition futex_sleep :: "kstate \<Rightarrow> nat \<Rightarrow> u32 \<Rightarrow> u32 \<Rightarrow> (kstate \<times> kret) outcome" where
  "futex_sleep k cur loc val =
     bnd (uload32 k (p_pgdir (prc k cur)) loc) (\<lambda>v.
       if v = val then ok (sleep k cur (ChUser loc)) else ok (k, KRet (-1)))"

definition sys_futex_wait :: "kstate \<Rightarrow> nat \<Rightarrow> (kstate \<times> kret) outcome" where
  "sys_futex_wait k cur =
     need k (argint k cur 1) (\<lambda>val. need k (argptr k cur 0 4) (\<lambda>loc. futex_sleep k cur loc val))"

definition sys_futex_wait2 :: "kstate \<Rightarrow> nat \<Rightarrow> (kstate \<times> kret) outcome" where
  "sys_futex_wait2 k cur =
     need k (argint k cur 1) (\<lambda>val. need k (argptr k cur 0 4) (\<lambda>loc. need k (argptr k cur 2 4) (\<lambda>lk.
       bnd (ustores k (p_pgdir (prc k cur)) lk (word_bytes 0)) (\<lambda>k.
         futex_sleep (k\<lparr>k_pt := fst (wakeupfutex1 (Some (ChUser lk)) (k_pt k))\<rparr>) cur loc val))))"

definition sys_futex_wake :: "kstate \<Rightarrow> nat \<Rightarrow> (kstate \<times> kret) outcome" where
  "sys_futex_wake k cur =
     need k (argptr k cur 0 4) (\<lambda>loc.
       case wakeupfutex1 (Some (ChUser loc)) (k_pt k) of (t, i) \<Rightarrow> ok (k\<lparr>k_pt := t\<rparr>, KRet i))"

section \<open>A picture\<close>

definition wolfie :: "uchar list" where
  "wolfie = map of_char (concat (map (\<lambda>l. l @ [CHR 0x0A]) [
     ''1111111111111110011100000111111100011111'',
     ''1111111111111100011111000011110000011111'',
     ''1110001111111000011111100001100111011111'',
     ''1110000001110000000111100000000111011111'',
     ''1110110000000000000000000000000111011111'',
     ''1110101000000000000000000000000111111111'',
     ''1110111100000000000000000000000111011111'',
     ''1110111100000000000000000000000010011111'',
     ''1111011100000000000000000000000000011111'',
     ''1111011100000000000000000000000000111111'',
     ''1111001100110010000000000000000100111111'',
     ''1111100001110001010000000000000100111111'',
     ''1111110111101000000000000000110000001111'',
     ''1111110011110000000000000000000000000111'',
     ''1111100001110000000000000000000000000011'',
     ''1111000000000000000000000000000000000011'',
     ''1100001000000000000000000000000000000001'',
     ''1000111000000000000000000000000000000001'',
     ''1111100000000000000000000000000000000000'',
     ''1111100001000000000000000000000000000001'',
     ''1111111111000000110000100000000000000001'',
     ''1111111100010001111111111000000000000011'',
     ''1111100100111011111111101000000000000111'',
     ''1111100000111111111111100000000000001111'',
     ''1111000000111111111111110000000000011111'',
     ''1111100000111111111111100000000001111111'',
     ''1111111011011111111111110000001111111111'',
     ''1111111111011111111111110100000111111111'',
     ''1111111100011111111000111100000011111111'',
     ''1111111000011001100000001000000000111111'',
     ''1111110000001000100000000000000000011111'',
     ''1111000000001000000000000000000000001111'',
     ''1110000000001000000000000000000000000111'',
     ''1000000000001010000000000000000000000011'',
     ''0000000000001111000000000100000000000001'',
     ''0000000000001111110000001000000000000000'',
     ''0000000000000111111111111110000000000000'',
     ''1000000000000011111111111100000000000000'',
     ''0000000000000011111111001000000000000000'',
     ''0000000011001111111111000000000000000000'']))"

definition sys_wolfie :: "kstate \<Rightarrow> nat \<Rightarrow> (kstate \<times> kret) outcome" where
  "sys_wolfie k cur =
     need k (argint k cur 1) (\<lambda>bufsize. need k (argptr k cur 0 bufsize) (\<lambda>buf.
       if sint bufsize < 1641 then ok (k, KRet (-1))
       else bnd (ustores k (p_pgdir (prc k cur)) buf (wolfie @ [0])) (\<lambda>k. ok (k, KRet 1641))))"

section \<open>The vdso\<close>

text \<open>
  The function \<open>_vdso_getentry\<close> of the vdso text, with the addresses of \<open>_vdso_getticks\<close> and
  \<open>_vdso_getpid\<close>.
\<close>

definition vdso_getentry :: "u32 \<Rightarrow> u32 \<Rightarrow> u32 \<Rightarrow> u32" where
  "vdso_getentry getticks getpid index = (if index = 1 then getticks else if index = 2 then getpid else 0)"

definition sys_vdso_entry :: "(u32 \<Rightarrow> u32) \<Rightarrow> kstate \<Rightarrow> nat \<Rightarrow> (kstate \<times> kret) outcome" where
  "sys_vdso_entry getentry k cur =
     need k (argint k cur 0) (\<lambda>n.
       let res = getentry n in ok (k, KRet (if res = 0 then -1 else sint res)))"

text \<open>The user functions read the pages that \<open>allocvdso\<close> mapped behind the text.\<close>

definition vdso_getticks :: "'a mach_scheme \<Rightarrow> u32 \<Rightarrow> u32 outcome" where
  "vdso_getticks m pgdir = uload32 m pgdir (VDSOTEXT + 1 * PGSIZE)"

definition vdso_getpid :: "'a mach_scheme \<Rightarrow> u32 \<Rightarrow> u32 outcome" where
  "vdso_getpid m pgdir = uload32 m pgdir (VDSOTEXT + 2 * PGSIZE)"

definition inc_vdso_ticks :: "'a vmach_scheme \<Rightarrow> 'a vmach_scheme" where
  "inc_vdso_ticks m =
     (if vdso_ticks_page m \<noteq> 0
      then m\<lparr>m_mem := store32 (m_mem m) (vdso_ticks_page m) (load32 (m_mem m) (vdso_ticks_page m) + 1)\<rparr>
      else m)"

end
