(* ===== verification/Trap.thy ===== *)
theory Trap
  imports Sysproc Exec
begin

text \<open>
  System calls on files with their arguments (\<^verbatim>\<open>sysfile.c\<close>), the system call table (\<^verbatim>\<open>syscall.c\<close>) and
  traps (\<^verbatim>\<open>trap.c\<close>). The interrupt handlers of devices and the function of the vdso text are
  arguments.
\<close>

section \<open>File system calls\<close>

text \<open>A call of the file system by the process in slot \<open>cur\<close>, with its wake-ups.\<close>

definition fs_ret :: "kstate \<Rightarrow> nat \<Rightarrow> (fsys \<Rightarrow> (fsys \<times> int) outcome) \<Rightarrow> (kstate \<times> kret) outcome" where
  "fs_ret k cur f = bnd (with_fs cur f k) (\<lambda>(k, r). ok (k, KRet r))"

definition fs_eff :: "kstate \<Rightarrow> nat \<Rightarrow> (fsys \<Rightarrow> (fsys \<times> 'r \<times> effect list) outcome) \<Rightarrow> (kstate \<times> 'r) outcome" where
  "fs_eff k cur f = bnd (with_fs cur f k) (\<lambda>(k, r, e). bnd (effects e k) (\<lambda>k. ok (k, r)))"

definition sys_dup :: "kstate \<Rightarrow> nat \<Rightarrow> (kstate \<times> kret) outcome" where
  "sys_dup k cur = need k (argint k cur 0) (\<lambda>fd. fs_ret k cur (\<lambda>s. do_dup s (sint fd)))"

definition sys_read :: "devtab \<Rightarrow> kstate \<Rightarrow> nat \<Rightarrow> (kstate \<times> kret) outcome" where
  "sys_read devsw k cur =
     need k (argint k cur 0) (\<lambda>fd. need k (argint k cur 2) (\<lambda>n. need k (argptr k cur 1 n) (\<lambda>p.
       bnd (fs_eff k cur (\<lambda>s. do_read devsw s (sint fd) n)) (\<lambda>(k, r).
       case r of
         IoRet v bs \<Rightarrow> bnd (ustores k (p_pgdir (prc k cur)) p bs) (\<lambda>k. ok (k, KRet v))
       | IoSleep ch i \<Rightarrow> ok (sleep k cur ch)))))"

text \<open>\<open>i\<close> is the number of bytes a write to a pipe has done before it slept.\<close>

definition sys_write :: "devtab \<Rightarrow> kstate \<Rightarrow> nat \<Rightarrow> nat \<Rightarrow> (kstate \<times> kret) outcome" where
  "sys_write devsw k cur i =
     need k (argint k cur 0) (\<lambda>fd. need k (argint k cur 2) (\<lambda>n. need k (argptr k cur 1 n) (\<lambda>p.
       bnd (ubytes k (p_pgdir (prc k cur)) p (unat n)) (\<lambda>bs.
       bnd (fs_eff k cur (\<lambda>s. do_write devsw s (sint fd) (\<lambda>j. bs ! j) (sint n) i)) (\<lambda>(k, r).
       case r of
         IoRet v cs \<Rightarrow> ok (k, KRet v)
       | IoSleep ch i \<Rightarrow> ok (sleep k cur ch))))))"

definition sys_close :: "kstate \<Rightarrow> nat \<Rightarrow> (kstate \<times> kret) outcome" where
  "sys_close k cur =
     need k (argint k cur 0) (\<lambda>fd. bnd (fs_eff k cur (\<lambda>s. do_close s (sint fd))) (\<lambda>(k, r). ok (k, KRet r)))"

text \<open>The fields of a \<open>struct stat\<close> in memory; its padding is not written.\<close>

definition put_stat :: "'a mach_scheme \<Rightarrow> u32 \<Rightarrow> u32 \<Rightarrow> stat \<Rightarrow> 'a mach_scheme outcome" where
  "put_stat m pgdir p st =
     bnd (ustores m pgdir p (take 2 (word_bytes (ucast (st_type st))))) (\<lambda>m.
     bnd (ustores m pgdir (p + 4) (word_bytes (st_dev st))) (\<lambda>m.
     bnd (ustores m pgdir (p + 8) (word_bytes (st_ino st))) (\<lambda>m.
     bnd (ustores m pgdir (p + 12) (take 2 (word_bytes (ucast (st_nlink st))))) (\<lambda>m.
     ustores m pgdir (p + 16) (word_bytes (st_size st))))))"

definition sys_fstat :: "kstate \<Rightarrow> nat \<Rightarrow> (kstate \<times> kret) outcome" where
  "sys_fstat k cur =
     need k (argint k cur 0) (\<lambda>fd. need k (argptr k cur 1 20) (\<lambda>p.
       bnd (with_fs cur (\<lambda>s. do_fstat s (sint fd)) k) (\<lambda>(k, r).
       case r of None \<Rightarrow> ok (k, KRet (-1))
       | Some st \<Rightarrow> bnd (put_stat k (p_pgdir (prc k cur)) p st) (\<lambda>k. ok (k, KRet 0)))))"

definition sys_link :: "devtab \<Rightarrow> kstate \<Rightarrow> nat \<Rightarrow> (kstate \<times> kret) outcome" where
  "sys_link devsw k cur =
     need k (argstr k cur 0) (\<lambda>old. need k (argstr k cur 1) (\<lambda>new. fs_ret k cur (\<lambda>s. do_link devsw s old new)))"

definition sys_unlink :: "devtab \<Rightarrow> kstate \<Rightarrow> nat \<Rightarrow> (kstate \<times> kret) outcome" where
  "sys_unlink devsw k cur = need k (argstr k cur 0) (\<lambda>path. fs_ret k cur (\<lambda>s. do_unlink devsw s path))"

definition sys_open :: "devtab \<Rightarrow> kstate \<Rightarrow> nat \<Rightarrow> (kstate \<times> kret) outcome" where
  "sys_open devsw k cur =
     need k (argstr k cur 0) (\<lambda>path. need k (argint k cur 1) (\<lambda>omode.
       bnd (fs_eff k cur (\<lambda>s. do_open devsw s path omode)) (\<lambda>(k, r). ok (k, KRet r))))"

text \<open>These three fetch their arguments inside the transaction.\<close>

definition sys_mkdir :: "devtab \<Rightarrow> kstate \<Rightarrow> nat \<Rightarrow> (kstate \<times> kret) outcome" where
  "sys_mkdir devsw k cur = bnd (argstr k cur 0) (\<lambda>path. fs_ret k cur (\<lambda>s. do_mkdir devsw s path))"

definition sys_mknod :: "devtab \<Rightarrow> kstate \<Rightarrow> nat \<Rightarrow> (kstate \<times> kret) outcome" where
  "sys_mknod devsw k cur =
     bnd (argstr k cur 0) (\<lambda>path. bnd (argint k cur 1) (\<lambda>major. bnd (argint k cur 2) (\<lambda>minor.
       case (major, minor) of
         (Some a, Some b) \<Rightarrow> fs_ret k cur (\<lambda>s. do_mknod devsw s path a b)
       | _ \<Rightarrow> fs_ret k cur (\<lambda>s. do_mknod devsw s None 0 0))))"

definition sys_chdir :: "devtab \<Rightarrow> kstate \<Rightarrow> nat \<Rightarrow> (kstate \<times> kret) outcome" where
  "sys_chdir devsw k cur = bnd (argstr k cur 0) (\<lambda>path. fs_ret k cur (\<lambda>s. do_chdir devsw s path))"

definition sys_pipe :: "kstate \<Rightarrow> nat \<Rightarrow> (kstate \<times> kret) outcome" where
  "sys_pipe k cur =
     need k (argptr k cur 0 8) (\<lambda>p.
       bnd (do_pipe k cur) (\<lambda>(k, r).
       case r of None \<Rightarrow> ok (k, KRet (-1))
       | Some (fd0, fd1) \<Rightarrow>
           bnd (ustores k (p_pgdir (prc k cur)) p (word_bytes (word_of_int fd0) @ word_bytes (word_of_int fd1))) (\<lambda>k.
             ok (k, KRet 0))))"

text \<open>The loop of \<open>sys_exec\<close> from index \<open>i\<close> on, with \<open>n\<close> entries of \<open>argv\<close> left.\<close>

fun fetch_args :: "kstate \<Rightarrow> nat \<Rightarrow> u32 \<Rightarrow> nat \<Rightarrow> uchar list list option outcome" where
  "fetch_args k cur uargv 0 = ok None"
| "fetch_args k cur uargv (Suc n) =
     bnd (fetchint k cur uargv) (\<lambda>r.
     case r of None \<Rightarrow> ok None
     | Some uarg \<Rightarrow>
         if uarg = 0 then ok (Some [])
         else bnd (fetchstr k cur uarg) (\<lambda>r.
           case r of None \<Rightarrow> ok None
           | Some len \<Rightarrow>
               bnd (ubytes k (p_pgdir (prc k cur)) uarg len) (\<lambda>s.
               bnd (fetch_args k cur (uargv + 4) n) (\<lambda>r. ok (map_option ((#) s) r)))))"

definition sys_exec :: "devtab \<Rightarrow> kstate \<Rightarrow> nat \<Rightarrow> (kstate \<times> kret) outcome" where
  "sys_exec devsw k cur =
     need k (argstr k cur 0) (\<lambda>path. need k (argint k cur 1) (\<lambda>uargv. need k (fetch_args k cur uargv MAXARG) (\<lambda>args.
       bnd (exec devsw k cur path args) (\<lambda>(k, r). ok (k, KRet r)))))"

section \<open>Dispatch\<close>

text \<open>The entries of \<open>syscalls\<close>; \<open>None\<close> for a number without one.\<close>

definition syscalls :: "devtab \<Rightarrow> (u32 \<Rightarrow> u32) \<Rightarrow> int \<Rightarrow> (kstate \<Rightarrow> nat \<Rightarrow> (kstate \<times> kret) outcome) option" where
  "syscalls devsw getentry num =
     map_of [(1, sys_fork), (2, sys_exit), (3, sys_wait), (4, sys_pipe), (5, sys_read devsw), (6, sys_kill), (7, sys_exec devsw),
       (8, sys_fstat), (9, sys_chdir devsw), (10, sys_dup), (11, sys_getpid), (12, sys_sbrk), (13, sys_sleep), (14, sys_uptime),
       (15, sys_open devsw), (16, \<lambda>k cur. sys_write devsw k cur 0), (17, sys_mknod devsw), (18, sys_unlink devsw),
       (19, sys_link devsw), (20, sys_mkdir devsw), (21, sys_close), (22, sys_vdso_entry getentry), (23, sys_shmbrk),
       (24, sys_futex_wait), (25, sys_futex_wake), (26, sys_wolfie), (27, sys_futex_wait2)] num"

definition set_eax :: "nat \<Rightarrow> int \<Rightarrow> kstate \<Rightarrow> kstate" where
  "set_eax cur r = upd_k cur (\<lambda>p. p\<lparr>p_tf := (p_tf p)\<lparr>tf_eax := word_of_int r\<rparr>\<rparr>)"

definition syscall :: "devtab \<Rightarrow> (u32 \<Rightarrow> u32) \<Rightarrow> kstate \<Rightarrow> nat \<Rightarrow> (kstate \<times> kret) outcome" where
  "syscall devsw getentry k cur =
     (case syscalls devsw getentry (sint (tf_eax (p_tf (prc k cur)))) of
        None \<Rightarrow> ok (set_eax cur (-1) k, KRet (-1))
      | Some f \<Rightarrow>
          bnd (f k cur) (\<lambda>(k, r).
          case r of KRet v \<Rightarrow> ok (set_eax cur v k, r) | _ \<Rightarrow> ok (k, r)))"

section \<open>Traps\<close>

record devices =
  ideintr :: "kstate \<Rightarrow> kstate outcome"
  kbdintr :: "kstate \<Rightarrow> kstate outcome"
  uartintr :: "kstate \<Rightarrow> kstate outcome"

definition exit_trap :: "kstate \<Rightarrow> nat \<Rightarrow> (kstate \<times> kret) outcome" where
  "exit_trap k cur = bnd (exit k cur) (\<lambda>k. ok (k, KGone))"

text \<open>The end of a trap: a killed process does not go on.\<close>

definition trap_done :: "kstate \<Rightarrow> nat \<Rightarrow> (kstate \<times> kret) outcome" where
  "trap_done k cur = (if p_killed (prc k cur) then exit_trap k cur else ok (k, KRet 0))"

definition tick :: "kstate \<Rightarrow> kstate" where
  "tick k = wakeup (inc_vdso_ticks (k\<lparr>k_ticks := k_ticks k + 1\<rparr>)) ChTicks"

text \<open>The \<open>switch\<close>; \<open>cpu\<close> is the value of \<open>cpuid()\<close>, \<open>cur\<close> the value of \<open>myproc()\<close>.\<close>

definition interrupt :: "devices \<Rightarrow> nat \<Rightarrow> kstate \<Rightarrow> nat option \<Rightarrow> trapframe \<Rightarrow> kstate outcome" where
  "interrupt d cpu k cur tf =
     (let n = tf_trapno tf in
      if n = 32 then ok (if cpu = 0 then tick k else k)
      else if n = 32 + 14 then ideintr d k
      else if n = 32 + 15 then ok k
      else if n = 32 + 1 then kbdintr d k
      else if n = 32 + 4 then uartintr d k
      else if n = 32 + 7 \<or> n = 32 + 31 then ok k
      else case cur of
        None \<Rightarrow> panic ''trap''
      | Some c \<Rightarrow> if tf_cs tf AND 3 = 0 then panic ''trap'' else ok (upd_k c (\<lambda>p. p\<lparr>p_killed := True\<rparr>) k))"

definition user_mode :: "trapframe \<Rightarrow> bool" where
  "user_mode tf \<longleftrightarrow> tf_cs tf AND 3 = 3"

text \<open>The last check of \<open>trap\<close>, also made when the process runs again after a \<open>yield\<close>.\<close>

definition trap_last :: "kstate \<Rightarrow> nat \<Rightarrow> trapframe \<Rightarrow> (kstate \<times> kret) outcome" where
  "trap_last k c tf = (if p_killed (prc k c) \<and> user_mode tf then exit_trap k c else ok (k, KRet 0))"

definition trap :: "devtab \<Rightarrow> (u32 \<Rightarrow> u32) \<Rightarrow> devices \<Rightarrow> nat \<Rightarrow> u32 \<Rightarrow> kstate \<Rightarrow> nat option \<Rightarrow> trapframe \<Rightarrow>
    (kstate \<times> kret) outcome" where
  "trap devsw getentry d cpu cr2 k cur tf =
     (if tf_trapno tf = 64 then
        (case cur of None \<Rightarrow> Inl Fault
         | Some c \<Rightarrow>
             if p_killed (prc k c) then exit_trap k c
             else bnd (syscall devsw getentry (upd_k c (\<lambda>p. p\<lparr>p_tf := tf\<rparr>) k) c) (\<lambda>(k, r).
               case r of KRet v \<Rightarrow> trap_done k c | _ \<Rightarrow> ok (k, r)))
      else if tf_trapno tf = 14 then
        (case cur of None \<Rightarrow> Inl Fault
         | Some c \<Rightarrow>
             if p_killed (prc k c) then exit_trap k c
             else let k = upd_k c (\<lambda>p. p\<lparr>p_tf := tf\<rparr>) k in
               bnd (pagefault k (prc k c) cr2) (\<lambda>(k, p). trap_done (upd_k c (\<lambda>q. p) k) c))
      else bnd (interrupt d cpu k cur tf) (\<lambda>k.
        case cur of None \<Rightarrow> ok (k, KRet 0)
        | Some c \<Rightarrow>
            if p_killed (prc k c) \<and> user_mode tf then exit_trap k c
            else if p_state (prc k c) = RUNNING \<and> tf_trapno tf = 32 then ok (yield k c, KYield)
            else trap_last k c tf))"

end
