(* ===== verification/Trap_Safe.thy ===== *)
theory Trap_Safe
  imports Trap Syscall_Args
begin

text \<open>What holds when a trap returns to the program it interrupted.\<close>

section \<open>Killed processes\<close>





section \<open>Faults inside a system call\<close>







end
