(* ===== verification/Grep.thy ===== *)
theory Grep
  imports Xv6_Prelude
begin

text \<open>
  The user program \<^verbatim>\<open>grep.c\<close>: the matcher for patterns with the operators \<open>^ . * $\<close>, and the
  loop that reads a file into a buffer and prints the matching lines. A C string is the list of
  the bytes before its NUL; a pointer into it is a suffix of the list.
\<close>

section \<open>The matcher\<close>

text \<open>The first byte of a string, 0 at its end.\<close>

fun at0 :: "uchar list \<Rightarrow> uchar" where
  "at0 [] = 0"
| "at0 (c # cs) = c"

text \<open>
  The bytes of the operators: \<open>*\<close> is 42, \<open>.\<close> is 46, \<open>$\<close> is 36 and \<open>^\<close> is 94. The loop of
  \<open>matchstar\<close> is its recursion.
\<close>

function matchhere :: "uchar list \<Rightarrow> uchar list \<Rightarrow> bool"
and matchstar :: "uchar \<Rightarrow> uchar list \<Rightarrow> uchar list \<Rightarrow> bool" where
  "matchhere [] s = True"
| "matchhere (r # re) s =
     (if at0 re = 42 then matchstar r (tl re) s
      else if r = 36 \<and> re = [] then s = []
      else case s of
        [] \<Rightarrow> False
      | t # ts \<Rightarrow> (r = 46 \<or> r = t) \<and> matchhere re ts)"
| "matchstar c re s =
     (matchhere re s \<or> (case s of [] \<Rightarrow> False | t # ts \<Rightarrow> (t = c \<or> c = 46) \<and> matchstar c re ts))"
  by pat_completeness auto
termination
  by (relation "measures [\<lambda>x. case x of Inl (re, s) \<Rightarrow> length re | Inr (c, re, s) \<Rightarrow> length re,
      \<lambda>x. case x of Inl (re, s) \<Rightarrow> length s | Inr (c, re, s) \<Rightarrow> Suc (length s)]")
    (auto simp: less_Suc_eq_le)

declare matchstar.simps [simp del]

fun match_loop :: "uchar list \<Rightarrow> uchar list \<Rightarrow> bool" where
  "match_loop re [] = matchhere re []"
| "match_loop re (t # ts) = (matchhere re (t # ts) \<or> match_loop re ts)"

definition match :: "uchar list \<Rightarrow> uchar list \<Rightarrow> bool" where
  "match re s = (if at0 re = 94 then matchhere (tl re) s else match_loop re s)"

section \<open>What patterns mean\<close>

text \<open>
  A pattern is a sequence of elements, each for one byte or for any number of bytes, where the
  byte is given or arbitrary. A \<open>$\<close> at its end anchors it at the end of the s.
\<close>

datatype elem = One "uchar option" | Many "uchar option"

definition one :: "uchar \<Rightarrow> uchar option" where
  "one c = (if c = 46 then None else Some c)"

fun fits :: "uchar option \<Rightarrow> uchar \<Rightarrow> bool" where
  "fits None t = True"
| "fits (Some c) t = (t = c)"

function elems :: "uchar list \<Rightarrow> elem list \<times> bool" where
  "elems [] = ([], False)"
| "elems (r # re) =
     (if at0 re = 42 then (case elems (tl re) of (es, e) \<Rightarrow> (Many (one r) # es, e))
      else if r = 36 \<and> re = [] then ([], True)
      else (case elems re of (es, e) \<Rightarrow> (One (one r) # es, e)))"
  by pat_completeness auto
termination by (relation "measure length") (auto simp: less_Suc_eq_le)

text \<open>The strings a sequence of elements stands for.\<close>

fun lang :: "elem list \<Rightarrow> uchar list set" where
  "lang [] = {[]}"
| "lang (One f # es) = {t # v | t v. fits f t \<and> v \<in> lang es}"
| "lang (Many f # es) = {u @ v | u v. (\<forall>t \<in> set u. fits f t) \<and> v \<in> lang es}"

definition starts :: "elem list \<times> bool \<Rightarrow> uchar list \<Rightarrow> bool" where
  "starts p s \<longleftrightarrow> (\<exists>v w. s = v @ w \<and> v \<in> lang (fst p) \<and> (snd p \<longrightarrow> w = []))"

lemma fits_one: "fits (one c) t \<longleftrightarrow> c = 46 \<or> c = t"
  by (auto simp: one_def)

lemma starts_nil: "starts ([], e) s \<longleftrightarrow> (e \<longrightarrow> s = [])"
  by (auto simp: starts_def)

lemma starts_One:
  "starts (One f # es, e) s \<longleftrightarrow> (case s of [] \<Rightarrow> False | t # ts \<Rightarrow> fits f t \<and> starts (es, e) ts)"
proof (cases s)
  case (Cons t ts)
  have "(\<exists>v w. t # ts = v @ w \<and> (\<exists>x u. v = x # u \<and> P x u) \<and> Q w) \<longleftrightarrow> (\<exists>u w. ts = u @ w \<and> P t u \<and> Q w)"
    for P :: "uchar \<Rightarrow> uchar list \<Rightarrow> bool" and Q :: "uchar list \<Rightarrow> bool" by (metis append_Cons list.inject)
  then show ?thesis using Cons unfolding starts_def by simp blast
qed (simp add: starts_def)

lemma starts_ManyI:
  "\<forall>t \<in> set u. fits f t \<Longrightarrow> v \<in> lang es \<Longrightarrow> e \<longrightarrow> w = [] \<Longrightarrow> starts (Many f # es, e) (u @ v @ w)"
  unfolding starts_def by (intro exI [of _ "u @ v"] exI [of _ w]) auto

lemma starts_ManyE:
  assumes "starts (Many f # es, e) s"
  obtains u v w where "s = u @ v @ w" "\<forall>t \<in> set u. fits f t" "v \<in> lang es" "e \<longrightarrow> w = []"
proof -
  obtain x w where x: "s = x @ w" "x \<in> lang (Many f # es)" "e \<longrightarrow> w = []" using assms unfolding starts_def by auto
  then obtain u v where "x = u @ v" "\<forall>t \<in> set u. fits f t" "v \<in> lang es" by auto
  with x that [of u v w] show thesis by simp
qed

lemma starts_Many:
  "starts (Many f # es, e) s \<longleftrightarrow>
    starts (es, e) s \<or> (case s of [] \<Rightarrow> False | t # ts \<Rightarrow> fits f t \<and> starts (Many f # es, e) ts)"
proof (cases s)
  case (Cons t ts)
  show ?thesis
  proof
    assume "starts (Many f # es, e) s"
    then obtain u v w where u: "s = u @ v @ w" "\<forall>t \<in> set u. fits f t" "v \<in> lang es" "e \<longrightarrow> w = []"
      by (rule starts_ManyE)
    show "starts (es, e) s \<or> (case s of [] \<Rightarrow> False | t # ts \<Rightarrow> fits f t \<and> starts (Many f # es, e) ts)"
    proof (cases u)
      case Nil
      then show ?thesis using u by (auto simp: starts_def)
    next
      case (Cons a u')
      then have "ts = u' @ v @ w" "a = t" using u \<open>s = t # ts\<close> by auto
      then show ?thesis using starts_ManyI [of u' f v es e w] u Cons \<open>s = t # ts\<close> by simp
    qed
  next
    assume "starts (es, e) s \<or> (case s of [] \<Rightarrow> False | t # ts \<Rightarrow> fits f t \<and> starts (Many f # es, e) ts)"
    then consider "starts (es, e) s" | "fits f t" "starts (Many f # es, e) ts" using Cons by auto
    then show "starts (Many f # es, e) s"
    proof cases
      case 1
      then obtain v w where "s = v @ w" "v \<in> lang es" "e \<longrightarrow> w = []" unfolding starts_def by auto
      then show ?thesis using starts_ManyI [of "[]" f v es e w] by simp
    next
      case 2
      obtain u v w where "ts = u @ v @ w" "\<forall>x \<in> set u. fits f x" "v \<in> lang es" "e \<longrightarrow> w = []"
        by (rule starts_ManyE [OF 2(2)])
      then show ?thesis using starts_ManyI [of "t # u" f v es e w] 2(1) Cons by simp
    qed
  qed
qed (auto simp: starts_def)

lemma matchhere_starts:
  "matchhere re s \<longleftrightarrow> starts (elems re) s"
  "matchstar c re s \<longleftrightarrow> starts (Many (one c) # fst (elems re), snd (elems re)) s"
proof (induction re s and c re s rule: matchhere_matchstar.induct)
  case (1 s)
  then show ?case by (simp add: starts_nil)
next
  case (2 r re s)
  then show ?case by (auto simp: starts_nil starts_One fits_one split: prod.splits list.splits)
next
  case (3 c re s)
  then show ?case
    by (subst matchstar.simps, subst starts_Many) (auto simp: fits_one split: list.splits)
qed

lemma ex_suffix: "(\<exists>u v. t # ts = u @ v \<and> P v) \<longleftrightarrow> P (t # ts) \<or> (\<exists>u v. ts = u @ v \<and> P v)"
  by (simp add: Cons_eq_append_conv) auto

lemma match_loop_starts: "match_loop re s \<longleftrightarrow> (\<exists>u v. s = u @ v \<and> starts (elems re) v)"
proof (induction s)
  case Nil
  show ?case by (simp add: matchhere_starts(1))
next
  case (Cons t ts)
  show ?case unfolding match_loop.simps Cons ex_suffix matchhere_starts(1) ..
qed

text \<open>
  C34. The matcher of \<open>grep\<close> decides exactly the patterns: a text matches when some piece of it is a
  string of the pattern's language, the piece being at the start of the text when the pattern
  begins with \<open>^\<close>, and at its end when it finishes with \<open>$\<close>.
\<close>

theorem match_correct:
  "match re s \<longleftrightarrow>
    (let pat = elems (if at0 re = 94 then tl re else re) in
     \<exists>u v w. s = u @ v @ w \<and> v \<in> lang (fst pat) \<and> \<not> (at0 re = 94 \<and> u \<noteq> []) \<and> \<not> (snd pat \<and> w \<noteq> []))"
proof (cases "at0 re = 94")
  case True
  then show ?thesis by (simp add: match_def matchhere_starts starts_def Let_def)
next
  case False
  have "(\<exists>u v. s = u @ v \<and> (\<exists>v' w. v = v' @ w \<and> P v' w)) \<longleftrightarrow> (\<exists>u v w. s = u @ v @ w \<and> P v w)" for P :: "uchar list \<Rightarrow> uchar list \<Rightarrow> bool"
    by blast
  with False show ?thesis by (simp add: match_def match_loop_starts starts_def Let_def)
qed

section \<open>Reading a file\<close>






text \<open>The pieces of a text between newlines; all but the last are its lines.\<close>

fun cuts :: "uchar list \<Rightarrow> uchar list list" where
  "cuts [] = [[]]"
| "cuts (c # cs) = (if c = 10 then [] # cuts cs else (c # hd (cuts cs)) # tl (cuts cs))"


lemma cuts_ne [simp]: "cuts s \<noteq> []"
  by (induction s) auto













end
