(* ===== verification/Umutex.thy ===== *)
theory Umutex
  imports Sysproc Vm_Fault
begin

text \<open>
  The mutexes and condition variables of the user library (\<^verbatim>\<open>ulib.c\<close>), built on the futex calls.
  The words \<open>mutex->lock\<close>, \<open>cv->cvnum\<close> and \<open>cv->cvslock\<close> are in memory the processes share, at
  the same address in all of them; the kernel puts processes to sleep on that address. The
  processes run in any order: every access to a shared word, and every part of a system call
  under \<open>ptable.lock\<close>, is one step.
\<close>

section \<open>The futex calls on a shared word\<close>

text \<open>
  \<open>futex_wait\<close> on a word with the value \<open>w\<close>: the new table and whether the caller is asleep.
  \<open>futex_wake\<close> gives the number of processes woken.
\<close>

definition futex_wait :: "ptab \<Rightarrow> nat \<Rightarrow> u32 \<Rightarrow> u32 \<Rightarrow> u32 \<Rightarrow> ptab \<times> bool" where
  "futex_wait t i loc w val = (if w = val then (sleep_on i (ChUser loc) t, True) else (t, False))"

definition futex_wake :: "ptab \<Rightarrow> u32 \<Rightarrow> ptab \<times> int" where
  "futex_wake t loc = wakeupfutex1 (Some (ChUser loc)) t"

text \<open>The system calls of the kernel do this to the table.\<close>

lemma futex_sleep_table:
  assumes "uload32 k (p_pgdir (prc k cur)) loc = ok w"
  shows "futex_sleep k cur loc val =
    (case futex_wait (k_pt k) cur loc w val of
       (t, slept) \<Rightarrow> ok (k\<lparr>k_pt := t\<rparr>, if slept then KSleep (ChUser loc) else KRet (-1)))"
  using assms by (simp add: futex_sleep_def futex_wait_def sleep_def)

lemma sys_futex_wake_table:
  assumes "argptr k cur 0 4 = ok (Some loc)"
  shows "sys_futex_wake k cur = ok (k\<lparr>k_pt := fst (futex_wake (k_pt k) loc)\<rparr>, KRet (snd (futex_wake (k_pt k) loc)))"
  using assms by (simp add: sys_futex_wake_def need_def futex_wake_def split: prod.split)

section \<open>Mutexes\<close>

text \<open>\<open>__sync_lock_test_and_set(&lock, 1)\<close>: the old value and the new one.\<close>

definition test_and_set :: "u32 \<Rightarrow> u32 \<times> u32" where
  "test_and_set w = (w, 1)"

text \<open>
  Where a process is: outside the library, before the test of the loop of \<open>mutex_lock\<close>, before
  the call of \<open>futex_wait\<close> in it, between \<open>mutex_lock\<close> and \<open>mutex_unlock\<close>, or before the call of
  \<open>futex_wake\<close> in \<open>mutex_unlock\<close>. A process that sleeps in \<open>futex_wait\<close> will go on with the test.
\<close>

datatype mpc = Away | Trying | Failed | Holds | Waking

record mx =
  mx_lock :: u32
  mx_pc :: "nat \<Rightarrow> mpc"
  mx_tab :: ptab

definition goto :: "nat \<Rightarrow> mpc \<Rightarrow> mx \<Rightarrow> mx" where
  "goto i c s = s\<lparr>mx_pc := (mx_pc s)(i := c)\<rparr>"

definition mutex_lock_test :: "nat \<Rightarrow> mx \<Rightarrow> mx" where
  "mutex_lock_test i s =
     (case test_and_set (mx_lock s) of
        (old, new) \<Rightarrow> goto i (if old \<noteq> 0 then Failed else Holds) (s\<lparr>mx_lock := new\<rparr>))"

definition mutex_lock_wait :: "u32 \<Rightarrow> nat \<Rightarrow> mx \<Rightarrow> mx" where
  "mutex_lock_wait a i s = goto i Trying (s\<lparr>mx_tab := fst (futex_wait (mx_tab s) i a (mx_lock s) 1)\<rparr>)"

definition mutex_trylock :: "nat \<Rightarrow> mx \<Rightarrow> mx \<times> int" where
  "mutex_trylock i s =
     (case test_and_set (mx_lock s) of
        (old, new) \<Rightarrow> if old \<noteq> 0 then (s\<lparr>mx_lock := new\<rparr>, -1) else (goto i Holds (s\<lparr>mx_lock := new\<rparr>), 0))"

definition mutex_unlock_store :: "nat \<Rightarrow> mx \<Rightarrow> mx" where
  "mutex_unlock_store i s = goto i Waking (s\<lparr>mx_lock := 0\<rparr>)"

definition mutex_unlock_wake :: "u32 \<Rightarrow> nat \<Rightarrow> mx \<Rightarrow> mx" where
  "mutex_unlock_wake a i s = goto i Away (s\<lparr>mx_tab := fst (futex_wake (mx_tab s) a)\<rparr>)"

text \<open>
  The steps of the processes that use the mutex at the address \<open>a\<close>. Everything else the kernel
  does, the scheduler, kills and the calls of other programs included, changes the table in any
  way except that it puts none of these processes to sleep on \<open>a\<close>.
\<close>

abbreviation asleep :: "u32 \<Rightarrow> ptab \<Rightarrow> nat \<Rightarrow> bool" where
  "asleep a t i \<equiv> sleeps_on (Some (ChUser a)) (pt_proc t i)"

definition on_cpu :: "mx \<Rightarrow> nat \<Rightarrow> bool" where
  "on_cpu s i \<longleftrightarrow> i < NPROC \<and> p_state (pt_proc (mx_tab s) i) = RUNNING"

inductive mx_step :: "u32 \<Rightarrow> mx \<Rightarrow> mx \<Rightarrow> bool" for a where
  m_call: "on_cpu s i \<Longrightarrow> mx_pc s i = Away \<Longrightarrow> mx_step a s (goto i Trying s)"
| m_test: "on_cpu s i \<Longrightarrow> mx_pc s i = Trying \<Longrightarrow> mx_step a s (mutex_lock_test i s)"
| m_wait: "on_cpu s i \<Longrightarrow> mx_pc s i = Failed \<Longrightarrow> mx_step a s (mutex_lock_wait a i s)"
| m_try: "on_cpu s i \<Longrightarrow> mx_pc s i = Away \<Longrightarrow> mx_step a s (fst (mutex_trylock i s))"
| m_store: "on_cpu s i \<Longrightarrow> mx_pc s i = Holds \<Longrightarrow> mx_step a s (mutex_unlock_store i s)"
| m_wake: "on_cpu s i \<Longrightarrow> mx_pc s i = Waking \<Longrightarrow> mx_step a s (mutex_unlock_wake a i s)"
| m_other: "(\<And>i. mx_pc s i \<noteq> Away \<Longrightarrow> asleep a t i \<Longrightarrow> asleep a (mx_tab s) i) \<Longrightarrow> mx_step a s (s\<lparr>mx_tab := t\<rparr>)"

inductive mx_reach :: "u32 \<Rightarrow> mx \<Rightarrow> bool" for a where
  mr_init: "mx_lock s = 0 \<Longrightarrow> (\<And>i. mx_pc s i = Away) \<Longrightarrow> mx_reach a s"
| mr_step: "mx_reach a s \<Longrightarrow> mx_step a s s' \<Longrightarrow> mx_reach a s'"

definition mx_inv :: "u32 \<Rightarrow> mx \<Rightarrow> bool" where
  "mx_inv a s \<longleftrightarrow>
     mx_lock s = (if \<exists>i. mx_pc s i = Holds then 1 else 0) \<and>
     (\<forall>i j. mx_pc s i = Holds \<longrightarrow> mx_pc s j = Holds \<longrightarrow> i = j) \<and>
     (\<forall>i. i < NPROC \<longrightarrow> mx_pc s i \<noteq> Away \<longrightarrow> asleep a (mx_tab s) i \<longrightarrow>
        mx_pc s i = Trying \<and> (mx_lock s = 1 \<or> (\<exists>j. mx_pc s j = Waking)))"

lemmas mx_defs = mx_inv_def goto_def mutex_lock_test_def mutex_lock_wait_def mutex_trylock_def mutex_unlock_store_def
  mutex_unlock_wake_def test_and_set_def futex_wait_def futex_wake_def on_cpu_def

lemma asleep_woken: "i < NPROC \<Longrightarrow> \<not> asleep a (fst (wakeupfutex1 (Some (ChUser a)) t)) i"
  by (auto simp: wakeupfutex1_def wakeup1_def sleeps_on_def)

lemma asleep_sleep_on: "asleep a (sleep_on i (ChUser b) t) j \<longleftrightarrow> (if j = i then a = b else asleep a t j)"
  by (auto simp: sleep_on_def upd_proc_def sleeps_on_def)

lemma mx_step_inv: "mx_step a s s' \<Longrightarrow> mx_inv a s \<Longrightarrow> mx_inv a s'"
proof (induction rule: mx_step.induct)
  case (m_call s i)
  then show ?case by (auto simp: mx_defs sleeps_on_def split: if_splits) (metis mpc.distinct)+
next
  case (m_test s i)
  then show ?case by (auto simp: mx_defs sleeps_on_def split: if_splits) (metis mpc.distinct)+
next
  case (m_wait s i)
  then show ?case by (auto simp: mx_defs asleep_sleep_on split: if_splits) (metis mpc.distinct)+
next
  case (m_try s i)
  then show ?case by (auto simp: mx_defs sleeps_on_def split: if_splits)
next
  case (m_store s i)
  then show ?case by (auto simp: mx_defs sleeps_on_def split: if_splits)
next
  case (m_wake s i)
  then show ?case by (auto simp: mx_defs asleep_woken split: if_splits) (metis mpc.distinct)+
next
  case (m_other s t)
  then show ?case by (auto simp: mx_inv_def split: if_splits)
qed

lemma mx_reach_inv: "mx_reach a s \<Longrightarrow> mx_inv a s"
proof (induction rule: mx_reach.induct)
  case (mr_init s)
  then show ?case by (simp add: mx_inv_def)
next
  case (mr_step s s')
  from mx_step_inv [OF mr_step(2) mr_step(3)] show ?case .
qed

text \<open>
  C22. Mutexes of the user library work, however the processes and the kernel interleave: at most
  one process is between \<open>mutex_lock\<close> and \<open>mutex_unlock\<close>; and no wake-up is lost: while a process
  sleeps in \<open>mutex_lock\<close>, another one holds the mutex or is about to make the call of \<open>futex_wake\<close>
  that wakes it.
\<close>

theorem mutex_correct:
  assumes "mx_reach a s"
  shows "(\<forall>i j. mx_pc s i = Holds \<longrightarrow> mx_pc s j = Holds \<longrightarrow> i = j) \<and>
    (\<forall>i < NPROC. mx_pc s i \<noteq> Away \<longrightarrow> asleep a (mx_tab s) i \<longrightarrow> (\<exists>j. j \<noteq> i \<and> mx_pc s j \<in> {Holds, Waking}))"
proof (intro conjI allI impI)
  note inv = mx_reach_inv [OF assms, unfolded mx_inv_def]
  show "i = j" if "mx_pc s i = Holds" "mx_pc s j = Holds" for i j using inv that by blast
  fix i assume "i < NPROC" "mx_pc s i \<noteq> Away" "asleep a (mx_tab s) i"
  with inv have t: "mx_pc s i = Trying" and "mx_lock s = 1 \<or> (\<exists>j. mx_pc s j = Waking)" by blast+
  then obtain j where "mx_pc s j \<in> {Holds, Waking}" using inv by (auto split: if_splits)
  moreover have "j \<noteq> i" using calculation t by auto
  ultimately show "\<exists>j. j \<noteq> i \<and> mx_pc s j \<in> {Holds, Waking}" by blast
qed

definition w_tab :: ptab where
  "w_tab = \<lparr>pt_proc = (\<lambda>i. w_proc), initproc = Some 0, nextpid = 3\<rparr>"

definition w_mx :: mx where
  "w_mx = \<lparr>mx_lock = 0, mx_pc = (\<lambda>i. Away), mx_tab = w_tab\<rparr>"

text \<open>Process 0 takes the mutex, process 1 finds it taken and goes to sleep.\<close>

theorem mutex_correct_witness:
  "\<exists>s. mx_reach 64 s \<and> mx_pc s 0 = Holds \<and> asleep 64 (mx_tab s) 1 \<and> (\<exists>j. j \<noteq> 1 \<and> mx_pc s j \<in> {Holds, Waking})"
proof -
  let ?s = "mutex_lock_wait 64 1 (mutex_lock_test 1 (goto 1 Trying (mutex_lock_test 0 (goto 0 Trying w_mx))))"
  have "mx_reach 64 w_mx" by (rule mr_init) (simp_all add: w_mx_def)
  then have "mx_reach 64 (goto 0 Trying w_mx)" by (rule mr_step) (rule m_call, simp_all add: mx_defs w_mx_def w_tab_def w_proc_def NPROC_def)
  then have "mx_reach 64 (mutex_lock_test 0 (goto 0 Trying w_mx))"
    by (rule mr_step) (rule m_test, simp_all add: mx_defs w_mx_def w_tab_def w_proc_def NPROC_def)
  then have "mx_reach 64 (goto 1 Trying (mutex_lock_test 0 (goto 0 Trying w_mx)))"
    by (rule mr_step) (rule m_call, simp_all add: mx_defs w_mx_def w_tab_def w_proc_def NPROC_def)
  then have "mx_reach 64 (mutex_lock_test 1 (goto 1 Trying (mutex_lock_test 0 (goto 0 Trying w_mx))))"
    by (rule mr_step) (rule m_test, simp_all add: mx_defs w_mx_def w_tab_def w_proc_def NPROC_def)
  then have r: "mx_reach 64 ?s" by (rule mr_step) (rule m_wait, simp_all add: mx_defs w_mx_def w_tab_def w_proc_def NPROC_def)
  have f: "mx_pc ?s 0 = Holds" "asleep 64 (mx_tab ?s) 1" "mx_pc ?s 1 \<noteq> Away" "1 < NPROC"
    by (simp_all add: mx_defs w_mx_def NPROC_def asleep_sleep_on)
  from mutex_correct [OF r] f have "\<exists>j. j \<noteq> 1 \<and> mx_pc ?s j \<in> {Holds, Waking}" by blast
  with r f show ?thesis by blast
qed

section \<open>Condition variables\<close>

text \<open>
  Where a process is in \<open>cv_wait\<close> and \<open>cv_bcast\<close>. The two mutexes, that of the caller and
  \<open>cvslock\<close>, are taken in one step when their word is 0, which is what \<open>mutex_lock\<close> amounts to.
  \<open>Owner\<close> is between the calls and holds the mutex, \<open>User\<close> does not. The pcs of \<open>cv_wait\<close> follow its
  lines; \<open>WTest\<close> is inside \<open>futex_wait2\<close>, after \<open>cvslock\<close> has been released and before \<open>cvnum\<close> is
  compared with the value given. \<open>BLoop\<close> and \<open>BDone\<close> hold \<open>numwake\<close>, and whether the caller has
  the mutex.
\<close>

datatype cpc = User | Owner | WUnlock | WInc | WCall | WTest u32 | WSleep | WRelock | BLoop bool u32 | BDone bool u32

record cv =
  cv_mutex :: u32
  cvslock :: u32
  cvnum :: u32
  cv_pc :: "nat \<Rightarrow> cpc"
  cv_tab :: ptab

definition cgo :: "nat \<Rightarrow> cpc \<Rightarrow> cv \<Rightarrow> cv" where
  "cgo i c s = s\<lparr>cv_pc := (cv_pc s)(i := c)\<rparr>"

definition cv_wait_lock :: "nat \<Rightarrow> cv \<Rightarrow> cv" where
  "cv_wait_lock i s = cgo i WUnlock (s\<lparr>cvslock := 1\<rparr>)"

definition cv_wait_unlock :: "nat \<Rightarrow> cv \<Rightarrow> cv" where
  "cv_wait_unlock i s = cgo i WInc (s\<lparr>cv_mutex := 0\<rparr>)"

definition cv_wait_inc :: "nat \<Rightarrow> cv \<Rightarrow> cv" where
  "cv_wait_inc i s = cgo i WCall (s\<lparr>cvnum := cvnum s + 1\<rparr>)"

text \<open>The two halves of \<open>futex_wait2\<close>, and the return to the caller.\<close>

definition cv_wait_release :: "nat \<Rightarrow> cv \<Rightarrow> cv" where
  "cv_wait_release i s = cgo i (WTest (cvnum s)) (s\<lparr>cvslock := 0\<rparr>)"

definition cv_wait_test :: "u32 \<Rightarrow> nat \<Rightarrow> u32 \<Rightarrow> cv \<Rightarrow> cv" where
  "cv_wait_test a i val s =
     (case futex_wait (cv_tab s) i a (cvnum s) val of
        (t, slept) \<Rightarrow> cgo i (if slept then WSleep else WRelock) (s\<lparr>cv_tab := t\<rparr>))"

definition cv_bcast_lock :: "nat \<Rightarrow> bool \<Rightarrow> cv \<Rightarrow> cv" where
  "cv_bcast_lock i h s = cgo i (BLoop h 0) (s\<lparr>cvslock := 1\<rparr>)"

definition cv_bcast_wake :: "u32 \<Rightarrow> nat \<Rightarrow> bool \<Rightarrow> u32 \<Rightarrow> cv \<Rightarrow> cv" where
  "cv_bcast_wake a i h numwake s =
     (case futex_wake (cv_tab s) a of
        (t, w) \<Rightarrow> let k = numwake + word_of_int w in
          cgo i (if cvnum s \<noteq> k then BLoop h k else BDone h k) (s\<lparr>cv_tab := t\<rparr>))"

definition cv_bcast_end :: "nat \<Rightarrow> bool \<Rightarrow> u32 \<Rightarrow> cv \<Rightarrow> cv" where
  "cv_bcast_end i h numwake s = cgo i (if h then Owner else User) (s\<lparr>cvnum := cvnum s - numwake, cvslock := 0\<rparr>)"

text \<open>
  The steps. With \<open>mp\<close> there are several processors: then the steps of user code can come between
  the two halves of \<open>futex_wait2\<close>, though not those of system calls and of the scheduler, which
  need \<open>ptable.lock\<close>. On one processor interrupts are off while the lock is held.
\<close>

definition cv_runs :: "cv \<Rightarrow> nat \<Rightarrow> bool" where
  "cv_runs s i \<longleftrightarrow> i < NPROC \<and> p_state (pt_proc (cv_tab s) i) = RUNNING"

definition pt_free :: "cv \<Rightarrow> bool" where
  "pt_free s \<longleftrightarrow> (\<forall>i v. cv_pc s i \<noteq> WTest v)"

inductive cv_step :: "bool \<Rightarrow> u32 \<Rightarrow> cv \<Rightarrow> cv \<Rightarrow> bool" for mp a where
  c_lock: "cv_runs s i \<Longrightarrow> cv_pc s i = User \<Longrightarrow> cv_mutex s = 0 \<Longrightarrow> cv_step mp a s (cgo i Owner (s\<lparr>cv_mutex := 1\<rparr>))"
| c_unlock: "cv_runs s i \<Longrightarrow> cv_pc s i = Owner \<Longrightarrow> cv_step mp a s (cgo i User (s\<lparr>cv_mutex := 0\<rparr>))"
| c_wait: "cv_runs s i \<Longrightarrow> cv_pc s i = Owner \<Longrightarrow> cvslock s = 0 \<Longrightarrow> cv_step mp a s (cv_wait_lock i s)"
| c_wunlock: "cv_runs s i \<Longrightarrow> cv_pc s i = WUnlock \<Longrightarrow> cv_step mp a s (cv_wait_unlock i s)"
| c_inc: "cv_runs s i \<Longrightarrow> cv_pc s i = WInc \<Longrightarrow> cv_step mp a s (cv_wait_inc i s)"
| c_call: "cv_runs s i \<Longrightarrow> cv_pc s i = WCall \<Longrightarrow> mp \<Longrightarrow> pt_free s \<Longrightarrow> cv_step mp a s (cv_wait_release i s)"
| c_test: "cv_runs s i \<Longrightarrow> cv_pc s i = WTest v \<Longrightarrow> cv_step mp a s (cv_wait_test a i v s)"
| c_call1: "cv_runs s i \<Longrightarrow> cv_pc s i = WCall \<Longrightarrow> \<not> mp \<Longrightarrow>
    cv_step mp a s (cv_wait_test a i (cvnum s) (cv_wait_release i s))"
| c_resume: "cv_runs s i \<Longrightarrow> cv_pc s i = WSleep \<Longrightarrow> cv_step mp a s (cgo i WRelock s)"
| c_relock: "cv_runs s i \<Longrightarrow> cv_pc s i = WRelock \<Longrightarrow> cv_mutex s = 0 \<Longrightarrow> cv_step mp a s (cgo i Owner (s\<lparr>cv_mutex := 1\<rparr>))"
| c_bcast: "cv_runs s i \<Longrightarrow> cv_pc s i = (if h then Owner else User) \<Longrightarrow> cvslock s = 0 \<Longrightarrow> cv_step mp a s (cv_bcast_lock i h s)"
| c_wake: "cv_runs s i \<Longrightarrow> cv_pc s i = BLoop h k \<Longrightarrow> pt_free s \<Longrightarrow> cv_step mp a s (cv_bcast_wake a i h k s)"
| c_end: "cv_runs s i \<Longrightarrow> cv_pc s i = BDone h k \<Longrightarrow> cv_step mp a s (cv_bcast_end i h k s)"
| c_run: "pt_free s \<Longrightarrow> p_state (pt_proc (cv_tab s) i) = RUNNABLE \<Longrightarrow>
    cv_step mp a s (s\<lparr>cv_tab := sleep_tidy i (set_state RUNNING i (cv_tab s))\<rparr>)"
| c_yield: "pt_free s \<Longrightarrow> cv_runs s i \<Longrightarrow> cv_step mp a s (s\<lparr>cv_tab := set_state RUNNABLE i (cv_tab s)\<rparr>)"

inductive cv_reach :: "bool \<Rightarrow> u32 \<Rightarrow> cv \<Rightarrow> bool" for mp a where
  cr_init: "cv_mutex s = 0 \<Longrightarrow> cvslock s = 0 \<Longrightarrow> cvnum s = 0 \<Longrightarrow> (\<And>i. cv_pc s i = User) \<Longrightarrow>
    (\<And>i. \<not> asleep a (cv_tab s) i) \<Longrightarrow> cv_reach mp a s"
| cr_step: "cv_reach mp a s \<Longrightarrow> cv_step mp a s s' \<Longrightarrow> cv_reach mp a s'"

text \<open>
  Who holds \<open>cvslock\<close>, and by how much \<open>cvnum\<close> is then ahead of the number of processes asleep
  on the condition variable.
\<close>

fun has_slock :: "cpc \<Rightarrow> bool" where
  "has_slock WUnlock = True"
| "has_slock WInc = True"
| "has_slock WCall = True"
| "has_slock (BLoop h k) = True"
| "has_slock (BDone h k) = True"
| "has_slock _ = False"

fun ahead :: "cpc \<Rightarrow> u32" where
  "ahead WCall = 1"
| "ahead (BDone h k) = k"
| "ahead _ = 0"

definition sleepers :: "u32 \<Rightarrow> ptab \<Rightarrow> nat set" where
  "sleepers a t = {i. i < NPROC \<and> asleep a t i}"

definition cv_inv :: "u32 \<Rightarrow> nat option \<Rightarrow> cv \<Rightarrow> bool" where
  "cv_inv a holder s \<longleftrightarrow>
     (\<forall>i. has_slock (cv_pc s i) \<longleftrightarrow> holder = Some i) \<and>
     cvslock s = (if holder = None then 0 else 1) \<and>
     cvnum s = of_nat (card (sleepers a (cv_tab s))) + (case holder of None \<Rightarrow> 0 | Some i \<Rightarrow> ahead (cv_pc s i)) \<and>
     (\<forall>i. asleep a (cv_tab s) i \<longrightarrow> cv_pc s i = WSleep) \<and>
     (\<forall>i v. cv_pc s i \<noteq> WTest v) \<and> (\<forall>i h k. cv_pc s i = BLoop h k \<longrightarrow> k = 0)"

lemma sleepers_finite [simp]: "finite (sleepers a t)"
  by (simp add: sleepers_def)

lemma snd_futex_wake: "snd (futex_wake t a) = int (card (sleepers a t))"
proof -
  have "card (set (filter (asleep a t) [0..<NPROC])) = length (filter (asleep a t) [0..<NPROC])"
    by (rule distinct_card) simp
  moreover have "set (filter (asleep a t) [0..<NPROC]) = sleepers a t" by (auto simp: sleepers_def)
  ultimately show ?thesis by (simp add: futex_wake_def wakeupfutex1_def)
qed

lemma sleepers_woken: "sleepers a (fst (futex_wake t a)) = {}"
  using asleep_woken [of _ a t] by (auto simp: sleepers_def futex_wake_def)

lemma asleep_woken_before: "asleep a (fst (futex_wake t b)) i \<Longrightarrow> asleep a t i"
  by (auto simp: futex_wake_def wakeupfutex1_def wakeup1_def sleeps_on_def split: if_splits)

lemma sleepers_sleep_on: "i < NPROC \<Longrightarrow> sleepers a (sleep_on i (ChUser a) t) = insert i (sleepers a t)"
  by (auto simp: sleepers_def asleep_sleep_on)

lemma asleep_run: "p_state (pt_proc t i) \<noteq> SLEEPING \<Longrightarrow> st \<noteq> SLEEPING \<Longrightarrow> asleep a (set_state st i t) j = asleep a t j"
  "p_state (pt_proc t i) \<noteq> SLEEPING \<Longrightarrow> st \<noteq> SLEEPING \<Longrightarrow> asleep a (sleep_tidy i (set_state st i t)) j = asleep a t j"
  by (auto simp: sleep_tidy_def set_state_def upd_proc_def sleeps_on_def)

text \<open>A change of one pc, with the new holder of \<open>cvslock\<close>.\<close>

lemma cv_inv_go:
  assumes "cv_inv a holder s" "\<And>v. c \<noteq> WTest v" "\<And>h k. c = BLoop h k \<Longrightarrow> k = 0"
    and "cv_pc s' = (cv_pc s)(i := c)" "has_slock c \<longleftrightarrow> holder' = Some i"
    and "has_slock (cv_pc s i) \<or> holder = None \<or> holder' = holder" "holder' = None \<or> holder' = Some i \<or> holder' = holder"
    and "cvslock s' = (if holder' = None then 0 else 1)"
    and "cvnum s' = of_nat (card (sleepers a (cv_tab s'))) + (case holder' of None \<Rightarrow> 0 | Some j \<Rightarrow> ahead (cv_pc s' j))"
    and "\<And>j. asleep a (cv_tab s') j \<Longrightarrow> if j = i then c = WSleep else asleep a (cv_tab s) j"
  shows "cv_inv a holder' s'"
  using assms unfolding cv_inv_def by (auto split: if_splits)

lemmas cv_defs = cgo_def cv_wait_lock_def cv_wait_unlock_def cv_wait_inc_def cv_bcast_lock_def cv_bcast_end_def cv_runs_def

lemma cv_runs_awake: "cv_runs s i \<Longrightarrow> \<not> asleep a (cv_tab s) i"
  by (simp add: cv_runs_def sleeps_on_def)

lemma cv_holder: "cv_inv a holder s \<Longrightarrow> has_slock (cv_pc s i) \<longleftrightarrow> holder = Some i"
  by (simp add: cv_inv_def)

lemma cv_inv_wake:
  assumes "cv_inv a holder s" "cv_pc s i = BLoop h k"
  shows "cv_inv a (Some i) (cv_bcast_wake a i h k s)" "cv_bcast_wake a i h k s = cgo i (BDone h (cvnum s)) (s\<lparr>cv_tab := fst (futex_wake (cv_tab s) a)\<rparr>)"
proof -
  have h: "holder = Some i" using assms by (force simp: cv_inv_def)
  have k: "k = 0" "cvnum s = of_nat (card (sleepers a (cv_tab s)))" using assms h by (auto simp: cv_inv_def)
  then show e: "cv_bcast_wake a i h k s = cgo i (BDone h (cvnum s)) (s\<lparr>cv_tab := fst (futex_wake (cv_tab s) a)\<rparr>)"
    using snd_futex_wake [of "cv_tab s" a] by (auto simp: cv_bcast_wake_def split: prod.split)
  have n: "\<not> asleep a (cv_tab s) i" using assms by (force simp: cv_inv_def)
  show "cv_inv a (Some i) (cv_bcast_wake a i h k s)"
    unfolding e by (rule cv_inv_go [OF assms(1), of "BDone h (cvnum s)" _ i])
      (use assms h n in \<open>auto simp: cgo_def sleepers_woken cv_inv_def dest: asleep_woken_before\<close>)
qed

lemma cv_inv_call:
  assumes "cv_inv a holder s" "cv_runs s i" "cv_pc s i = WCall"
  shows "cv_inv a None (cv_wait_test a i (cvnum s) (cv_wait_release i s))"
proof -
  have h: "holder = Some i" using assms by (force simp: cv_inv_def)
  have n: "i \<notin> sleepers a (cv_tab s)" "i < NPROC" using assms by (auto simp: sleepers_def cv_runs_def sleeps_on_def)
  show ?thesis
    by (rule cv_inv_go [OF assms(1), of WSleep _ i])
      (use assms h n in \<open>auto simp: cv_wait_test_def cv_wait_release_def futex_wait_def cgo_def sleepers_sleep_on asleep_sleep_on cv_inv_def
        split: if_splits\<close>)
qed

lemma cv_step_inv:
  assumes "cv_step False a s s'" "cv_inv a holder s"
  shows "\<exists>holder'. cv_inv a holder' s'"
  using assms
proof (induction rule: cv_step.induct)
  case (c_lock s i)
  have "cv_inv a holder (cgo i Owner (s\<lparr>cv_mutex := 1\<rparr>))"
    by (rule cv_inv_go [OF c_lock(4), of Owner _ i]) (use c_lock cv_holder [OF c_lock(4), of i] in \<open>auto simp: cv_defs cv_inv_def split: option.splits\<close>)
  then show ?case ..
next
  case (c_unlock s i)
  have "cv_inv a holder (cgo i User (s\<lparr>cv_mutex := 0\<rparr>))"
    by (rule cv_inv_go [OF c_unlock(3), of User _ i]) (use c_unlock cv_holder [OF c_unlock(3), of i] in \<open>auto simp: cv_defs cv_inv_def split: option.splits\<close>)
  then show ?case ..
next
  case (c_wait s i)
  have "cv_inv a (Some i) (cv_wait_lock i s)"
    by (rule cv_inv_go [OF c_wait(4), of WUnlock _ i]) (use c_wait cv_holder [OF c_wait(4), of i] in \<open>auto simp: cv_defs cv_inv_def split: option.splits if_splits\<close>)
  then show ?case ..
next
  case (c_wunlock s i)
  have "cv_inv a (Some i) (cv_wait_unlock i s)"
    by (rule cv_inv_go [OF c_wunlock(3), of WInc _ i]) (use c_wunlock cv_holder [OF c_wunlock(3), of i] in \<open>auto simp: cv_defs cv_inv_def split: option.splits if_splits\<close>)
  then show ?case ..
next
  case (c_inc s i)
  have "cv_inv a (Some i) (cv_wait_inc i s)"
    by (rule cv_inv_go [OF c_inc(3), of WCall _ i]) (use c_inc cv_holder [OF c_inc(3), of i] in \<open>auto simp: cv_defs cv_inv_def split: option.splits if_splits\<close>)
  then show ?case ..
next
  case (c_call s i)
  then show ?case by simp
next
  case (c_test s i v)
  then show ?case by (auto simp: cv_inv_def)
next
  case (c_call1 s i)
  from cv_inv_call [OF c_call1(4,1,2)] show ?case ..
next
  case (c_resume s i)
  have "cv_inv a holder (cgo i WRelock s)"
    by (rule cv_inv_go [OF c_resume(3), of WRelock _ i])
      (use c_resume cv_holder [OF c_resume(3), of i] cv_runs_awake [OF c_resume(1)] in \<open>auto simp: cv_defs cv_inv_def split: option.splits\<close>)
  then show ?case ..
next
  case (c_relock s i)
  have "cv_inv a holder (cgo i Owner (s\<lparr>cv_mutex := 1\<rparr>))"
    by (rule cv_inv_go [OF c_relock(4), of Owner _ i]) (use c_relock cv_holder [OF c_relock(4), of i] in \<open>auto simp: cv_defs cv_inv_def split: option.splits\<close>)
  then show ?case ..
next
  case (c_bcast s i h)
  have "cv_inv a (Some i) (cv_bcast_lock i h s)"
    by (rule cv_inv_go [OF c_bcast(4), of "BLoop h 0" _ i]) (use c_bcast cv_holder [OF c_bcast(4), of i] in \<open>auto simp: cv_defs cv_inv_def split: option.splits if_splits\<close>)
  then show ?case ..
next
  case (c_wake s i h k)
  from cv_inv_wake(1) [OF c_wake(4,2)] show ?case ..
next
  case (c_end s i h k)
  have "cv_inv a None (cv_bcast_end i h k s)"
    by (rule cv_inv_go [OF c_end(3), of "if h then Owner else User" _ i])
      (use c_end cv_holder [OF c_end(3), of i] in \<open>auto simp: cv_defs cv_inv_def split: option.splits if_splits\<close>)
  then show ?case ..
next
  case (c_run s i)
  then show ?case by (auto intro!: exI [of _ holder] simp: cv_inv_def asleep_run sleepers_def)
next
  case (c_yield s i)
  then show ?case by (auto intro!: exI [of _ holder] simp: cv_inv_def asleep_run sleepers_def cv_runs_def)
qed

lemma cv_reach_inv: "cv_reach False a s \<Longrightarrow> \<exists>holder. cv_inv a holder s"
proof (induction rule: cv_reach.induct)
  case (cr_init s)
  then show ?case by (intro exI [of _ None]) (auto simp: cv_inv_def sleepers_def)
next
  case (cr_step s s')
  then show ?case using cv_step_inv by blast
qed

text \<open>
  C23. On one processor condition variables work: in every interleaving of \<open>cv_wait\<close> and \<open>cv_bcast\<close> the
  call of \<open>futex_wake\<close> in the loop of \<open>cv_bcast\<close> wakes exactly \<open>cvnum\<close> processes, so that the loop
  ends after one pass; then no process is asleep on the variable and \<open>cvnum\<close> goes back to 0.
\<close>

theorem cv_bcast_wakes_all:
  assumes "cv_reach False a s" "cv_pc s i = BLoop h k"
  shows "snd (futex_wake (cv_tab s) a) = uint (cvnum s) \<and> cv_pc (cv_bcast_wake a i h k s) i = BDone h (cvnum s) \<and>
    \<not> (\<exists>j < NPROC. asleep a (cv_tab (cv_bcast_wake a i h k s)) j) \<and>
    cvnum (cv_bcast_end i h (cvnum s) (cv_bcast_wake a i h k s)) = 0"
proof -
  obtain holder where inv: "cv_inv a holder s" using cv_reach_inv [OF assms(1)] by blast
  have "holder = Some i" using cv_holder [OF inv, of i] assms(2) by simp
  then have n: "cvnum s = of_nat (card (sleepers a (cv_tab s)))" using inv assms(2) by (simp add: cv_inv_def)
  have "card (sleepers a (cv_tab s)) \<le> 64"
    using card_mono [of "{..<64}" "sleepers a (cv_tab s)"] by (auto simp: sleepers_def NPROC_def)
  then have u: "uint (cvnum s) = int (card (sleepers a (cv_tab s)))" by (simp add: n unsigned_of_nat take_bit_nat_eq_self)
  have "\<not> asleep a (fst (futex_wake (cv_tab s) a)) j" if "j < NPROC" for j
    using sleepers_woken [of a "cv_tab s"] that by (auto simp: sleepers_def)
  then show ?thesis
    unfolding cv_inv_wake(2) [OF inv assms(2)] by (auto simp: snd_futex_wake u cgo_def cv_bcast_end_def)
qed

section \<open>Condition variables on several processors\<close>






text \<open>The states of a run of three processes.\<close>

definition cv3 :: "u32 \<Rightarrow> u32 \<Rightarrow> u32 \<Rightarrow> cpc \<Rightarrow> cpc \<Rightarrow> cpc \<Rightarrow> ptab \<Rightarrow> cv" where
  "cv3 m l n p0 p1 p2 t = \<lparr>cv_mutex = m, cvslock = l, cvnum = n,
     cv_pc = (\<lambda>i. if i = 0 then p0 else if i = 1 then p1 else if i = 2 then p2 else User), cv_tab = t\<rparr>"

lemma cv3_sel:
  "cv_mutex (cv3 m l n p0 p1 p2 t) = m" "cvslock (cv3 m l n p0 p1 p2 t) = l" "cvnum (cv3 m l n p0 p1 p2 t) = n"
  "cv_tab (cv3 m l n p0 p1 p2 t) = t" "cv_pc (cv3 m l n p0 p1 p2 t) 0 = p0" "cv_pc (cv3 m l n p0 p1 p2 t) 1 = p1"
  "cv_pc (cv3 m l n p0 p1 p2 t) (Suc 0) = p1" "cv_pc (cv3 m l n p0 p1 p2 t) 2 = p2"
  by (simp_all add: cv3_def)

lemma cv3_upd:
  "(cv3 m l n p0 p1 p2 t)\<lparr>cv_mutex := x\<rparr> = cv3 x l n p0 p1 p2 t" "(cv3 m l n p0 p1 p2 t)\<lparr>cvslock := x\<rparr> = cv3 m x n p0 p1 p2 t"
  "(cv3 m l n p0 p1 p2 t)\<lparr>cvnum := x\<rparr> = cv3 m l x p0 p1 p2 t" "(cv3 m l n p0 p1 p2 t)\<lparr>cv_tab := t'\<rparr> = cv3 m l n p0 p1 p2 t'"
  "cgo 0 c (cv3 m l n p0 p1 p2 t) = cv3 m l n c p1 p2 t" "cgo 1 c (cv3 m l n p0 p1 p2 t) = cv3 m l n p0 c p2 t"
  "cgo (Suc 0) c (cv3 m l n p0 p1 p2 t) = cv3 m l n p0 c p2 t" "cgo 2 c (cv3 m l n p0 p1 p2 t) = cv3 m l n p0 p1 c t"
  by (auto simp: cv3_def cgo_def fun_eq_iff)

lemma cv3_free: "pt_free (cv3 m l n p0 p1 p2 t) \<longleftrightarrow> (\<forall>v. p0 \<noteq> WTest v \<and> p1 \<noteq> WTest v \<and> p2 \<noteq> WTest v)"
  by (auto simp: pt_free_def cv3_def)

lemmas cv3_simps = cv3_sel cv3_upd cv3_free cv_wait_lock_def cv_wait_unlock_def cv_wait_inc_def cv_wait_release_def
  cv_wait_test_def cv_bcast_lock_def futex_wait_def

lemma w_tab_runs: "i < NPROC \<Longrightarrow> cv_runs (cv3 m l n p0 p1 p2 w_tab) i"
  by (simp add: cv_runs_def cv3_def w_tab_def w_proc_def)

lemma w_tab_asleep: "\<not> asleep 64 w_tab i"
  by (simp add: w_tab_def w_proc_def sleeps_on_def)





text \<open>On one processor: process 0 goes to sleep in \<open>cv_wait\<close>, and process 2 broadcasts.\<close>

theorem cv_bcast_wakes_all_witness:
  "\<exists>s. cv_reach False 64 s \<and> cv_pc s 2 = BLoop False 0 \<and> asleep 64 (cv_tab s) 0 \<and>
    cv_pc (cv_bcast_wake 64 2 False 0 s) 2 = BDone False 1 \<and> \<not> asleep 64 (cv_tab (cv_bcast_wake 64 2 False 0 s)) 0"
proof -
  let ?t = "sleep_on 0 (ChUser 64) w_tab"
  let ?s = "cv3 0 1 1 WSleep User (BLoop False 0) ?t"
  have n: "(0::nat) < NPROC" "(2::nat) < NPROC" by (simp_all add: NPROC_def)
  note r = w_tab_runs [OF n(1)]
  have r2: "cv_runs (cv3 m l n p0 p1 p2 ?t) 2" for m l n p0 p1 p2
    using n(2) by (simp add: cv_runs_def cv3_def sleep_on_def upd_proc_def w_tab_def w_proc_def)
  have "cv_reach False 64 (cv3 0 0 0 User User User w_tab)"
    by (rule cr_init) (simp_all add: cv3_def w_tab_asleep)
  from cr_step [OF this c_lock [OF r]] have "cv_reach False 64 (cv3 1 0 0 Owner User User w_tab)" by (simp add: cv3_simps)
  from cr_step [OF this c_wait [OF r]] have "cv_reach False 64 (cv3 1 1 0 WUnlock User User w_tab)" by (simp add: cv3_simps)
  from cr_step [OF this c_wunlock [OF r]] have "cv_reach False 64 (cv3 0 1 0 WInc User User w_tab)" by (simp add: cv3_simps)
  from cr_step [OF this c_inc [OF r]] have "cv_reach False 64 (cv3 0 1 1 WCall User User w_tab)" by (simp add: cv3_simps)
  from cr_step [OF this c_call1 [OF r]] have "cv_reach False 64 (cv3 0 0 1 WSleep User User ?t)" by (simp add: cv3_simps)
  from cr_step [OF this c_bcast [OF r2, of _ _ _ _ _ _ False]] have b: "cv_reach False 64 ?s" by (simp add: cv3_simps)
  have p: "cv_pc ?s 2 = BLoop False 0" "asleep 64 (cv_tab ?s) 0" "cvnum ?s = 1" by (simp_all add: cv3_sel asleep_sleep_on)
  from cv_bcast_wakes_all [OF b p(1)] p n(1) b show ?thesis by (intro exI [of _ ?s]) auto
qed

end
