(* ===== verification/Spec2Isabelle.thy ===== *)
theory Spec2Isabelle
  imports Spinlock Strings Mmu Kalloc Pipe Sleeplock Log Fs_Cache Fs_Dirs Vm_Fault Kernel_Ref Syscall_Args Exec_Safe Trap_Safe
    Grep Umutex
begin

text \<open>
  A verification library for the xv6 kernel of this repository, a teaching kernel for 32-bit
  x86 with copy-on-write fork, user stacks that grow on page faults, shared memory, futexes and a
  vdso, and for parts of its user library and programs.

  \<^bold>\<open>Conventions.\<close> \<open>Xv6_Prelude\<close> has the machine integers (\<open>uint\<close> is a 32-bit word, with its
  wrap-around), byte memory, and outcomes: a function returns \<open>ok\<close> of its result, or stops with
  \<open>KPanic\<close> (a call of \<open>panic\<close>, with the message), \<open>Hang\<close> (an endless loop) or \<open>Fault\<close> (a null
  pointer or an access the page table does not allow, made by the kernel). \<open>post m P\<close> says that
  every result of \<open>m\<close> satisfies \<open>P\<close>, \<open>gives m P\<close> that \<open>m\<close> returns such a result. What a function does
  while it holds a spin lock is one step; a function that may sleep is a pass that returns or
  ends asleep; processes interleave by inductive step relations.

  \<^bold>\<open>Locks, strings, addresses.\<close>
  \<^item> \<open>Spinlock\<close>: \<^verbatim>\<open>spinlock.c\<close>, with \<open>mycpu\<close> of \<^verbatim>\<open>proc.c\<close> and \<open>xchg\<close>, \<open>cli\<close>, \<open>sti\<close> of \<^verbatim>\<open>x86.h\<close>.
    Mutual exclusion over the atomic steps of several processors; the locale \<open>lock_contract\<close>
    is what the other components use.
  \<^item> \<open>Sleeplock\<close>: \<^verbatim>\<open>sleeplock.c\<close>; exclusion, and no process asleep on a free lock.
  \<^item> \<open>Strings\<close>: \<^verbatim>\<open>string.c\<close>; \<open>Mmu\<close>: the address macros of \<^verbatim>\<open>mmu.h\<close> and \<^verbatim>\<open>memlayout.h\<close>.

  \<^bold>\<open>Memory.\<close>
  \<^item> \<open>Kalloc\<close>: \<^verbatim>\<open>kalloc.c\<close>, the free list and the reference counts of pages; the locale
    \<open>page_allocator\<close> is its contract.
  \<^item> \<open>Vm\<close>: \<^verbatim>\<open>vm.c\<close> on page tables in byte memory, and the structs of \<^verbatim>\<open>proc.h\<close>. \<open>Vm_Map\<close> shows
    what \<open>walkpgdir\<close> and \<open>mappages\<close> do to the map from virtual addresses to entries; \<open>Vm_Fault\<close>
    has copy on write and \<open>copyout\<close>; \<open>Vm_Keep\<close> that these functions leave the rest of the kernel's
    state alone.

  \<^bold>\<open>Disk and files.\<close>
  \<^item> \<open>Blocks\<close>, \<open>Bio\<close>: \<^verbatim>\<open>bio.c\<close> on \<^verbatim>\<open>memide.c\<close>, with the LRU ring; the locale \<open>block_cache\<close>.
  \<^item> \<open>Log\<close>: \<^verbatim>\<open>log.c\<close> on the cache. Crash atomicity of transactions, idempotent recovery, and
    when \<open>begin_op\<close> admits too much.
  \<^item> \<open>Fs\<close>: \<^verbatim>\<open>fs.c\<close> on a logical disk, which \<open>Fs_Cache\<close> shows to be implemented by the cache
    and the log. \<open>Fs_Data\<close>: contents of files; \<open>Fs_Dirs\<close>: directories and paths; \<open>Fs_Refs\<close>: what
    every function does to inode references and locks.
  \<^item> \<open>File\<close>: \<^verbatim>\<open>file.c\<close>; \<open>Pipe\<close>: \<^verbatim>\<open>pipe.c\<close> with all interleavings of readers, writers and kills;
    \<open>Sysfile\<close>: \<^verbatim>\<open>sysfile.c\<close> from the point where the arguments have been fetched; \<open>Sysfile_Refs\<close>:
    no sequence of calls leaves a lock, a reference or a transaction behind.

  \<^bold>\<open>Processes.\<close>
  \<^item> \<open>Proc\<close>: the table of \<^verbatim>\<open>proc.c\<close> under \<open>ptable.lock\<close>; \<open>Proc_Inv\<close>: the process tree and the
    absence of lost exits in all interleavings.
  \<^item> \<open>Kernel\<close>: the state of the whole kernel, a record that extends the memory of \<open>Vm\<close> with the
    table and the file system, and \<open>fork\<close>, \<open>exit\<close>, \<open>wait\<close>, \<open>growproc\<close>, \<open>userinit\<close>, the scheduler and
    \<open>pipealloc\<close> on it; \<open>Kernel_Ref\<close>: these refine the table of \<open>Proc\<close>.
  \<^item> \<open>Syscall\<close>: user memory through the page table, and the fetching of arguments of
    \<^verbatim>\<open>syscall.c\<close>, with its bounds in \<open>Syscall_Args\<close>; \<open>Sysproc\<close>: \<^verbatim>\<open>sysproc.c\<close>, \<^verbatim>\<open>sysvdso.c\<close> and
    \<^verbatim>\<open>vdso_impl.c\<close>; \<open>Exec\<close>: \<^verbatim>\<open>exec.c\<close> and \<open>loaduvm\<close>, all or nothing in \<open>Exec_Safe\<close>; \<open>Trap\<close>: the
    system calls on files, \<open>syscall\<close> and \<^verbatim>\<open>trap.c\<close>; \<open>Trap_Safe\<close>: killed processes do not get
    back to their program.

  \<^bold>\<open>User level.\<close>
  \<^item> \<open>Umutex\<close>: the mutexes and condition variables of \<^verbatim>\<open>ulib.c\<close> on the futex calls.
  \<^item> \<open>Grep\<close>: \<^verbatim>\<open>grep.c\<close>, its matcher against the language of a pattern, and its loop.

  \<^bold>\<open>Parameters.\<close> The functions of devices (\<open>devsw\<close>), the interrupt handlers of disk, keyboard and
  serial port in \<open>trap\<close>, the addresses of linker symbols and the entries of the vdso image are
  arguments or fields of the state.

  \<^bold>\<open>Bounds and loops.\<close> Loops over tables and pages are structural recursion on a count that the
  code fixes, or functions with a termination proof; there is no fuel. Tables have the sizes
  of \<^verbatim>\<open>param.h\<close>. In \<open>grep\<close> the list of the sizes of the reads says how often the loop runs.

  \<^bold>\<open>Not modelled.\<close> Device registers and boot code (\<^verbatim>\<open>lapic.c\<close>, \<^verbatim>\<open>ioapic.c\<close>, \<^verbatim>\<open>picirq.c\<close>, \<^verbatim>\<open>uart.c\<close>,
  \<^verbatim>\<open>mp.c\<close>, \<^verbatim>\<open>bootmain.c\<close>, \<^verbatim>\<open>main.c\<close>) only talk to hardware; the disk driver \<^verbatim>\<open>ide.c\<close> is replaced by the
  memory disk; segment descriptors, the TLB and assembly code (\<open>swtch\<close>, trap entry) are left
  out; messages printed on the console have no effect in the model. The console, \<^verbatim>\<open>mkfs.c\<close>, the
  shell, \<open>printf\<close> and \<open>malloc\<close> of user programs, and the small programs are not covered.
\<close>

end
